(* ===== verification/Prelude.thy ===== *)
theory Prelude
  imports Main "HOL-Library.Word" "HOL-Library.Sublist" "HOL-Library.Monad_Syntax"
begin

text \<open>
  What the components share: the machine integers and byte strings of the code, its clock,
  and generic lemmas on lists, folds and options.  Nothing here models a particular component.
\<close>

section \<open>Types\<close>

text \<open>
  A \<open>u8\<close> is an 8-bit word, so a byte string (\<open>Vec<u8>\<close>, \<open>&[u8]\<close>, and the UTF-8 bytes of
  a \<open>String\<close> that the code only handles as text) is a list of them.  An \<open>Instant\<close> and a
  \<open>Duration\<close> are counted in nanoseconds, the grain of the standard library.
\<close>

unbundle bit_operations_syntax

type_synonym byte = "8 word"
type_synonym u16 = "16 word"
type_synonym u32 = "32 word"
type_synonym u64 = "64 word"
type_synonym bytes = "byte list"
type_synonym instant = nat
type_synonym duration = nat

named_theorems step_simps \<open>one step of a component, unfolded\<close>
named_theorems inv_intros \<open>operations that keep their component's invariant\<close>

abbreviation secs :: "nat \<Rightarrow> duration" where
  "secs n \<equiv> n * 1000000000"

abbreviation msecs :: "nat \<Rightarrow> duration" where
  "msecs n \<equiv> n * 1000000"

text \<open>A byte-string literal of the source, \<open>b"..."\<close>.\<close>

definition ascii :: "string \<Rightarrow> bytes" where
  "ascii s = map of_char s"

lemma ascii_Nil [simp]: "ascii [] = []"
  by (simp add: ascii_def)

lemma ascii_Cons [simp]: "ascii (c # cs) = of_char c # ascii cs"
  by (simp add: ascii_def)

section \<open>Consumers of a stream that arrives in batches\<close>

text \<open>
  Output reaches a session in batches cut wherever a read ended.  A component that follows it is
  \<open>incremental\<close> when where the batches were cut makes no difference.
\<close>

locale incremental =
  fixes consume :: "'s \<Rightarrow> 'b list \<Rightarrow> 's"
  assumes consume_Nil: "consume s [] = s"
    and consume_append: "consume s (xs @ ys) = consume (consume s xs) ys"
begin

lemma consume_batches: "fold (\<lambda>b s. consume s b) batches s = consume s (concat batches)"
  by (induction batches arbitrary: s) (auto simp: consume_Nil consume_append)

lemma consume_rebatched:
  "concat xss = concat yss \<Longrightarrow>
    fold (\<lambda>b s. consume s b) xss s = fold (\<lambda>b s. consume s b) yss s"
  by (simp add: consume_batches)

end

section \<open>Decimal numbers\<close>

text \<open>A number as \<open>format!\<close> prints it, and as \<open>str::parse\<close> reads it back.\<close>

definition digit :: "nat \<Rightarrow> byte" where
  "digit d = 0x30 + of_nat d"

fun show_nat :: "nat \<Rightarrow> bytes" where
  "show_nat n = (if n < 10 then [digit n] else show_nat (n div 10) @ [digit (n mod 10)])"

declare show_nat.simps [simp del]

definition is_digit :: "byte \<Rightarrow> bool" where
  "is_digit b \<longleftrightarrow> 0x30 \<le> b \<and> b \<le> 0x39"

definition digit_value :: "byte \<Rightarrow> nat" where
  "digit_value b = unat b - 48"

definition digits_value :: "bytes \<Rightarrow> nat" where
  "digits_value bs = foldl (\<lambda>n b. 10 * n + digit_value b) 0 bs"

text \<open>Rust's integer parser takes one leading \<open>+\<close>, wants a digit, and fails past the type's
  largest value.\<close>

definition parse_uint :: "nat \<Rightarrow> bytes \<Rightarrow> nat option" where
  "parse_uint most bs =
    (let ds = (case bs of c # cs \<Rightarrow> if c = 0x2b then cs else bs | [] \<Rightarrow> []) in
     if ds \<noteq> [] \<and> list_all is_digit ds \<and> digits_value ds \<le> most
     then Some (digits_value ds) else None)"

lemma digit_word: "d < 10 \<Longrightarrow> unat (digit d) = 48 + d"
  by (simp add: digit_def unat_word_ariths unat_of_nat)

lemma digit_props [simp]: "d < 10 \<Longrightarrow> is_digit (digit d) \<and> digit_value (digit d) = d"
  by (simp add: is_digit_def digit_value_def digit_word word_le_nat_alt)

lemma digits_value_snoc [simp]: "digits_value (bs @ [b]) = 10 * digits_value bs + digit_value b"
  by (simp add: digits_value_def)

lemma show_nat_props: "show_nat n \<noteq> [] \<and> list_all is_digit (show_nat n) \<and> digits_value (show_nat n) = n"
proof (induction n rule: show_nat.induct)
  case (1 n)
  then show ?case
    by (cases "n < 10") (auto simp: show_nat.simps [of n] digits_value_def)
qed

lemma parse_show_nat: "n \<le> most \<Longrightarrow> parse_uint most (show_nat n) = Some n"
proof -
  assume "n \<le> most"
  obtain c cs where bs: "show_nat n = c # cs" using show_nat_props by (cases "show_nat n") auto
  then have "is_digit c" using show_nat_props [of n] by simp
  then have "c \<noteq> 0x2b" by (auto simp: is_digit_def)
  with bs show_nat_props [of n] \<open>n \<le> most\<close> show ?thesis by (simp add: parse_uint_def)
qed

section \<open>White space\<close>

text \<open>How many bytes the character of white space a text begins with has, and 0 when it begins with
  another.  Unicode's white space is one byte in UTF-8 (\<open>\t\<close> to \<open>\r\<close>, and the space), two after
  \<open>0xc2\<close>, or three.\<close>

definition blank_char :: "bytes \<Rightarrow> nat" where
  "blank_char bs =
    (case bs of
       b # c # d # _ \<Rightarrow>
         if b = 0x20 \<or> (0x09 \<le> b \<and> b \<le> 0x0d) then 1
         else if b = 0xc2 \<and> (c = 0x85 \<or> c = 0xa0) then 2
         else if (b = 0xe1 \<and> c = 0x9a \<and> d = 0x80) \<or> (b = 0xe3 \<and> c = 0x80 \<and> d = 0x80)
           \<or> (b = 0xe2 \<and> c = 0x81 \<and> d = 0x9f)
           \<or> (b = 0xe2 \<and> c = 0x80 \<and> ((0x80 \<le> d \<and> d \<le> 0x8a) \<or> d = 0xa8 \<or> d = 0xa9 \<or> d = 0xaf))
         then 3 else 0
     | [b, c] \<Rightarrow>
         if b = 0x20 \<or> (0x09 \<le> b \<and> b \<le> 0x0d) then 1
         else if b = 0xc2 \<and> (c = 0x85 \<or> c = 0xa0) then 2 else 0
     | [b] \<Rightarrow> if b = 0x20 \<or> (0x09 \<le> b \<and> b \<le> 0x0d) then 1 else 0
     | [] \<Rightarrow> 0)"

section \<open>Fencing\<close>

text \<open>
  A resource that changes hands and numbers its changes.  \<open>owner\<close> is who holds it, \<open>generation\<close>
  the number; the laws are that the number never goes back and that the owner never changes
  under one number.  Then a claim on the resource, a name with the number it was given, that is
  no longer good never becomes good again, whatever happens next.
\<close>

locale fencing =
  fixes move :: "'op \<Rightarrow> 's \<Rightarrow> 's"
    and generation :: "'s \<Rightarrow> nat"
    and owner :: "'s \<Rightarrow> 'k option"
  assumes generation_mono: "generation s \<le> generation (move op s)"
    and owner_fixed: "generation (move op s) = generation s \<Longrightarrow> owner (move op s) = owner s"
begin

lemma run_mono: "generation s \<le> generation (fold move ops s)"
proof (induction ops arbitrary: s)
  case Nil
  then show ?case by simp
next
  case (Cons op ops)
  from generation_mono [of s op] Cons [of "move op s"] show ?case by simp
qed

lemma run_owner: "generation (fold move ops s) = generation s \<Longrightarrow> owner (fold move ops s) = owner s"
proof (induction ops arbitrary: s)
  case Nil
  then show ?case by simp
next
  case (Cons op ops)
  have "generation s \<le> generation (move op s)" by (rule generation_mono)
  moreover have "generation (move op s) \<le> generation (fold move ops (move op s))"
    by (rule run_mono)
  ultimately have "generation (move op s) = generation s" using Cons.prems by simp
  then show ?case using Cons owner_fixed [of op s] by simp
qed

lemma lost_for_ever:
  assumes "g \<le> generation s" and "\<not> (owner s = Some k \<and> generation s = g)"
  shows "\<not> (owner (fold move ops s) = Some k \<and> generation (fold move ops s) = g)"
proof
  assume now: "owner (fold move ops s) = Some k \<and> generation (fold move ops s) = g"
  then have "generation (fold move ops s) = generation s"
    using run_mono [of s ops] assms(1) by simp
  with run_owner [of ops s] now assms(2) show False by simp
qed

end

end
