(* ===== verification/Unfinished.thy ===== *)
theory Unfinished
  imports Prelude
begin

text \<open>
  \<open>crates/pty-host/src/unfinished.rs\<close>: the state machine that follows a session's output
  (\<open>step\<close>), and the bytes of the sequence that is open between two batches (\<open>Unfinished\<close>),
  which a snapshot ends with.  The lemmas show that those bytes, read by a fresh parser, put it
  in the very state the stream is in, that they stay within their bound, and that inside a
  character they are exactly its bytes.
\<close>

section \<open>The state machine\<close>

text \<open>\<open>enum State\<close>.\<close>

datatype vt_state =
    Ground
  | Utf8 nat
  | Escape
  | EscapeIntermediate
  | Csi
  | Str (ends_on_bel: bool)

definition ESC :: byte where "ESC = 0x1b"
definition CAN :: byte where "CAN = 0x18"
definition SUB :: byte where "SUB = 0x1a"
definition BEL :: byte where "BEL = 0x07"
definition DEL :: byte where "DEL = 0x7f"

lemmas control_defs [simp] = ESC_def CAN_def SUB_def BEL_def DEL_def

definition is_control :: "byte \<Rightarrow> bool" where
  "is_control b \<longleftrightarrow> b < 0x20"

definition ground :: "byte \<Rightarrow> vt_state" where
  "ground b =
    (if 0xc2 \<le> b \<and> b \<le> 0xdf then Utf8 1
     else if 0xe0 \<le> b \<and> b \<le> 0xef then Utf8 2
     else if 0xf0 \<le> b \<and> b \<le> 0xf4 then Utf8 3
     else Ground)"

text \<open>The state after a byte, and whether the byte begins a new sequence.\<close>

fun step_in :: "vt_state \<Rightarrow> byte \<Rightarrow> vt_state \<times> bool" where
  "step_in Ground b = (ground b, True)"
| "step_in (Utf8 left) b =
     (if 0x80 \<le> b \<and> b \<le> 0xbf \<and> 1 < left then (Utf8 (left - 1), False)
      else if 0x80 \<le> b \<and> b \<le> 0xbf then (Ground, False)
      else (ground b, True))"
| "step_in Escape b =
     (if 0x20 \<le> b \<and> b \<le> 0x2f then EscapeIntermediate
      else if b = 0x5b then Csi
      else if b = 0x5d then Str True
      else if b \<in> {0x50, 0x58, 0x5e, 0x5f} then Str False
      else if 0x30 \<le> b \<and> b \<le> 0x7e then Ground
      else Escape, False)"
| "step_in EscapeIntermediate b =
     (if 0x30 \<le> b \<and> b \<le> 0x7e then Ground else EscapeIntermediate, False)"
| "step_in Csi b = (if 0x40 \<le> b \<and> b \<le> 0x7e then Ground else Csi, False)"
| "step_in (Str bel) b = (if b = BEL \<and> bel then Ground else Str bel, False)"

definition step :: "vt_state \<Rightarrow> byte \<Rightarrow> vt_state \<times> bool" where
  "step s b =
    (if b = ESC then (Escape, True)
     else if b = CAN \<or> b = SUB then (Ground, True)
     else step_in s b)"

text \<open>The state a parser is in after a whole stream.\<close>

definition run :: "vt_state \<Rightarrow> bytes \<Rightarrow> vt_state" where
  "run s bs = foldl (\<lambda>s b. fst (step s b)) s bs"

lemma run_Nil [simp]: "run s [] = s"
  by (simp add: run_def)

lemma run_Cons [simp]: "run s (b # bs) = run (fst (step s b)) bs"
  by (simp add: run_def)

lemma run_append [simp]: "run s (xs @ ys) = run (run s xs) ys"
  by (simp add: run_def)

section \<open>The open sequence's bytes\<close>

definition MAX_UNFINISHED :: nat where
  "MAX_UNFINISHED = 4096"

record unfinished =
  u_state :: vt_state
  u_bytes :: bytes
  u_overflowed :: bool

definition unfinished_default :: unfinished where
  "unfinished_default = \<lparr>u_state = Ground, u_bytes = [], u_overflowed = False\<rparr>"

text \<open>One iteration of \<open>Unfinished::feed\<close>; the \<open>continue\<close>s of the loop end it.\<close>

definition unfinished_feed_byte :: "byte \<Rightarrow> unfinished \<Rightarrow> unfinished" where
  "unfinished_feed_byte b u =
    (let (nxt, restart) = step (u_state u) b;
         carried_out = \<not> restart \<and> is_control b
           \<and> u_state u \<in> {Escape, EscapeIntermediate, Csi};
         u1 = u\<lparr>u_state := nxt\<rparr>
     in if carried_out then u1
        else
          let u2 = (if nxt = Ground \<or> restart then u1\<lparr>u_bytes := [], u_overflowed := False\<rparr>
                    else u1)
          in if nxt = Ground then u2
             else if u_overflowed u2 then u2
             else if length (u_bytes u2) < MAX_UNFINISHED
             then u2\<lparr>u_bytes := u_bytes u2 @ [b]\<rparr>
             else u2\<lparr>u_bytes := take 2 (u_bytes u2), u_overflowed := True\<rparr>)"

definition unfinished_feed :: "unfinished \<Rightarrow> bytes \<Rightarrow> unfinished" where
  "unfinished_feed u data = fold unfinished_feed_byte data u"

fun is_utf8 :: "vt_state \<Rightarrow> bool" where
  "is_utf8 (Utf8 _) = True"
| "is_utf8 _ = False"

definition in_character :: "unfinished \<Rightarrow> bool" where
  "in_character u \<longleftrightarrow> is_utf8 (u_state u)"

lemma unfinished_feed_Nil [simp]: "unfinished_feed u [] = u"
  by (simp add: unfinished_feed_def)

lemma unfinished_feed_Cons [simp]: "unfinished_feed u (b # bs) = unfinished_feed (unfinished_feed_byte b u) bs"
  by (simp add: unfinished_feed_def)

lemma unfinished_feed_append [simp]: "unfinished_feed u (xs @ ys) = unfinished_feed (unfinished_feed u xs) ys"
  by (simp add: unfinished_feed_def)

section \<open>The kept bytes reproduce the state\<close>

text \<open>
  What holds after every byte.  \<open>unf_settled\<close> is about the first two bytes: once a byte below
  \<open>0x7f\<close> follows the \<open>ESC\<close>, those two decide the state for as long as the sequence lasts.
\<close>

definition unf_settled :: "unfinished \<Rightarrow> bool" where
  "unf_settled u \<longleftrightarrow>
    (1 < length (u_bytes u) \<and> \<not> is_utf8 (u_state u) \<longrightarrow>
      \<not> is_control (u_bytes u ! 1) \<and>
      (u_bytes u ! 1 < 0x7f \<longrightarrow> run Ground (take 2 (u_bytes u)) = u_state u))"

definition unf_inv :: "unfinished \<Rightarrow> bool" where
  "unf_inv u \<longleftrightarrow>
    (u_bytes u = [] \<longleftrightarrow> u_state u = Ground)
    \<and> (if u_overflowed u then length (u_bytes u) = 2 else run Ground (u_bytes u) = u_state u)
    \<and> length (u_bytes u) \<le> MAX_UNFINISHED
    \<and> (u_bytes u \<noteq> [] \<and> \<not> is_utf8 (u_state u) \<longrightarrow> hd (u_bytes u) = ESC)
    \<and> (is_utf8 (u_state u) \<longrightarrow> \<not> u_overflowed u)
    \<and> (\<forall>n. u_state u = Utf8 n \<longrightarrow> 0 < n \<and> n \<le> 3 \<and> length (u_bytes u) + n \<le> 4)
    \<and> unf_settled u"

lemma unf_inv_default [inv_intros]: "unf_inv unfinished_default"
  by (simp add: unf_inv_def unfinished_default_def unf_settled_def MAX_UNFINISHED_def)

lemma ground_Utf8: "ground b = Utf8 n \<Longrightarrow> 0 < n \<and> n \<le> 3"
  by (auto simp: ground_def split: if_splits)

lemma ground_not_sequence [simp]:
  "ground b \<noteq> Escape" "ground b \<noteq> EscapeIntermediate" "ground b \<noteq> Csi" "ground b \<noteq> Str x"
  by (auto simp: ground_def)

lemma ground_is_utf8: "is_utf8 (ground b) \<longleftrightarrow> ground b \<noteq> Ground"
  by (auto simp: ground_def)

lemma escape_leaves:
  assumes "\<not> is_control b" and "b < 0x7f"
  shows "fst (step Escape b) \<noteq> Escape"
proof -
  have "0x20 \<le> b" using assms by (simp add: is_control_def)
  then have ne: "b \<noteq> 0x1b" and small: "b \<le> 0x2f \<or> 0x30 \<le> b" "b \<le> 0x7e"
    using assms(2) by (auto, unat_arith+)
  with \<open>0x20 \<le> b\<close> show ?thesis by (auto simp: step_def)
qed

lemma step_restart:
  assumes "snd (step s b)" and "fst (step s b) \<noteq> Ground"
  shows "b = ESC \<and> fst (step s b) = Escape \<or> fst (step s b) = ground b \<and> b \<noteq> ESC"
  using assms by (cases s) (auto simp: step_def split: if_splits)

lemma step_restart_unf_inv:
  assumes "snd (step s b)" and "fst (step s b) \<noteq> Ground"
  shows "unf_inv \<lparr>u_state = fst (step s b), u_bytes = [b], u_overflowed = False\<rparr>"
  using step_restart [OF assms] assms
  by (auto simp: unf_inv_def unf_settled_def MAX_UNFINISHED_def step_def ground_is_utf8
      dest: ground_Utf8 split: if_splits)

lemma step_within:
  assumes "\<not> snd (step s b)" and "fst (step s b) \<noteq> Ground"
  shows "(\<exists>n. s = Utf8 n \<and> 1 < n \<and> fst (step s b) = Utf8 (n - 1)) \<or>
    (\<not> is_utf8 s \<and> s \<noteq> Ground \<and> \<not> is_utf8 (fst (step s b)) \<and>
      (s = Escape \<or> fst (step s b) = s))"
  using assms by (cases s) (auto simp: step_def split: if_splits)

lemma run_snoc: "run s (bs @ [b]) = fst (step (run s bs) b)"
  by simp

text \<open>Keeping one more byte of an open sequence.\<close>

lemma unf_settled_snoc:
  assumes inv: "unf_inv u" and nov: "\<not> u_overflowed u"
    and nr: "\<not> snd (step (u_state u) b)" "fst (step (u_state u) b) \<noteq> Ground"
    and nu: "\<not> is_utf8 (u_state u)" "u_state u \<noteq> Ground"
    and kept: "u_state u = Escape \<Longrightarrow> \<not> is_control b"
  shows "unf_settled \<lparr>u_state = fst (step (u_state u) b), u_bytes = u_bytes u @ [b],
    u_overflowed = False\<rparr>"
proof -
  have run: "run Ground (u_bytes u) = u_state u" and ne: "u_bytes u \<noteq> []"
    and set: "unf_settled u" and hd: "hd (u_bytes u) = ESC"
    using inv nov nu by (auto simp: unf_inv_def)
  consider (one) "u_bytes u = [ESC]" | (more) c cs where "u_bytes u = ESC # c # cs"
    using ne hd by (cases "u_bytes u"; cases "tl (u_bytes u)") auto
  then show ?thesis
  proof cases
    case one
    with run have "u_state u = Escape" by (simp add: step_def)
    with one kept run show ?thesis by (simp add: unf_settled_def)
  next
    case more
    have "\<not> is_control c" using set more nu by (simp add: unf_settled_def)
    moreover have "fst (step (u_state u) b) = run Ground [ESC, c]" if "c < 0x7f"
    proof -
      have two: "run Ground [ESC, c] = u_state u"
        using set more nu that by (simp add: unf_settled_def numeral_2_eq_2)
      have "run Ground [ESC, c] = fst (step Escape c)" by (simp add: step_def)
      then have "u_state u \<noteq> Escape"
        using escape_leaves [OF \<open>\<not> is_control c\<close> that] two by simp
      then show ?thesis using step_within [OF nr] nu two by auto
    qed
    ultimately show ?thesis using more by (auto simp: unf_settled_def numeral_2_eq_2)
  qed
qed

lemma unf_inv_ground:
  "unf_inv (u\<lparr>u_state := Ground, u_bytes := [], u_overflowed := False\<rparr>)"
  by (simp add: unf_inv_def unf_settled_def)

lemma unf_inv_control:
  assumes "unf_inv u" and "is_control b" and "\<not> snd (step (u_state u) b)"
    and "u_state u \<in> {Escape, EscapeIntermediate, Csi}"
  shows "fst (step (u_state u) b) = u_state u"
proof -
  have "\<not> 0x20 \<le> b" using assms(2) by (simp add: is_control_def)
  moreover from this have "\<not> 0x30 \<le> b" "\<not> 0x40 \<le> b"
    "b \<notin> {0x5b, 0x5d, 0x50, 0x58, 0x5e, 0x5f}"
    by (auto, unat_arith+)
  ultimately show ?thesis using assms(3,4) by (auto simp: step_def split: if_splits)
qed

lemma unf_inv_snoc:
  assumes inv: "unf_inv u" and nov: "\<not> u_overflowed u"
    and nr: "\<not> snd (step (u_state u) b)" "fst (step (u_state u) b) \<noteq> Ground"
    and kept: "u_state u = Escape \<Longrightarrow> \<not> is_control b"
    and room: "length (u_bytes u) < MAX_UNFINISHED"
  shows "unf_inv \<lparr>u_state = fst (step (u_state u) b), u_bytes = u_bytes u @ [b],
    u_overflowed = False\<rparr>"
  using step_within [OF nr]
proof
  assume "\<exists>n. u_state u = Utf8 n \<and> 1 < n \<and> fst (step (u_state u) b) = Utf8 (n - 1)"
  then show ?thesis using inv nov room by (auto simp: unf_inv_def unf_settled_def)
next
  assume seq: "\<not> is_utf8 (u_state u) \<and> u_state u \<noteq> Ground \<and>
    \<not> is_utf8 (fst (step (u_state u) b)) \<and>
    (u_state u = Escape \<or> fst (step (u_state u) b) = u_state u)"
  then have "unf_settled \<lparr>u_state = fst (step (u_state u) b), u_bytes = u_bytes u @ [b],
      u_overflowed = False\<rparr>"
    using unf_settled_snoc [OF inv nov nr] kept by blast
  with seq inv nov room nr show ?thesis by (auto simp: unf_inv_def)
qed

text \<open>What stays the same once the sequence has outgrown its bound, or outgrows it now.\<close>

lemma unf_inv_overflow:
  assumes inv: "unf_inv u" and full: "u_overflowed u \<or> MAX_UNFINISHED \<le> length (u_bytes u)"
    and nr: "\<not> snd (step (u_state u) b)" "fst (step (u_state u) b) \<noteq> Ground"
  shows "unf_inv \<lparr>u_state = fst (step (u_state u) b), u_bytes = take 2 (u_bytes u),
    u_overflowed = True\<rparr>"
proof -
  have nu: "\<not> is_utf8 (u_state u)"
    using inv full by (cases "u_state u") (auto simp: unf_inv_def MAX_UNFINISHED_def)
  then have seq: "u_state u \<noteq> Ground" "\<not> is_utf8 (fst (step (u_state u) b))"
    "u_state u = Escape \<or> fst (step (u_state u) b) = u_state u"
    using step_within [OF nr] by auto
  then have ne: "u_bytes u \<noteq> []" and hd: "hd (u_bytes u) = ESC"
    using inv nu by (auto simp: unf_inv_def)
  have len: "2 \<le> length (u_bytes u)"
    using inv full by (auto simp: unf_inv_def MAX_UNFINISHED_def)
  then obtain c cs where bs: "u_bytes u = ESC # c # cs"
    using ne hd by (cases "u_bytes u"; cases "tl (u_bytes u)") auto
  have c: "\<not> is_control c" and two: "c < 0x7f \<Longrightarrow> fst (step Escape c) = u_state u"
    using inv nu bs by (auto simp: unf_inv_def unf_settled_def numeral_2_eq_2 step_def)
  have "fst (step (u_state u) b) = u_state u" if "c < 0x7f"
    using escape_leaves [OF c that] two [OF that] seq by auto
  then show ?thesis
    using nr seq bs c two
    by (auto simp: unf_inv_def unf_settled_def numeral_2_eq_2 step_def MAX_UNFINISHED_def)
qed

lemma unfinished_collect:
  "u\<lparr>u_state := s, u_overflowed := v, u_bytes := bs\<rparr> =
    \<lparr>u_state = s, u_bytes = bs, u_overflowed = v\<rparr>" for u :: unfinished
  by (cases u) simp

lemma unf_inv_feed_byte [inv_intros]:
  assumes inv: "unf_inv u"
  shows "unf_inv (unfinished_feed_byte b u)"
proof -
  obtain nxt restart where st: "step (u_state u) b = (nxt, restart)"
    by (cases "step (u_state u) b")
  consider (restart) restart "nxt \<noteq> Ground" | (ground) "nxt = Ground"
    | (control) "\<not> restart" "is_control b" "u_state u \<in> {Escape, EscapeIntermediate, Csi}"
    | (kept) "\<not> restart" "nxt \<noteq> Ground"
        "\<not> (is_control b \<and> u_state u \<in> {Escape, EscapeIntermediate, Csi})"
    by blast
  then show ?thesis
  proof cases
    case restart
    then show ?thesis
      using step_restart_unf_inv [of "u_state u" b] st
      by (simp add: unfinished_feed_byte_def MAX_UNFINISHED_def unfinished_collect)
  next
    case ground
    show ?thesis
    proof (cases "\<not> restart \<and> is_control b \<and> u_state u \<in> {Escape, EscapeIntermediate, Csi}")
      case True
      with unf_inv_control [OF inv, of b] st ground show ?thesis by auto
    next
      case False
      with ground st show ?thesis
        using unf_inv_ground [of u] by (auto simp: unfinished_feed_byte_def)
    qed
  next
    case control
    then have "nxt = u_state u" using unf_inv_control [OF inv, of b] st by simp
    with control st inv show ?thesis by (auto simp: unfinished_feed_byte_def)
  next
    case kept
    let ?nx = "fst (step (u_state u) b)"
    have nr: "\<not> snd (step (u_state u) b)" "?nx \<noteq> Ground" using kept st by auto
    have esc: "u_state u = Escape \<Longrightarrow> \<not> is_control b" using kept by auto
    have take: "u_overflowed u \<Longrightarrow> take 2 (u_bytes u) = u_bytes u"
      using inv by (simp add: unf_inv_def)
    have "unfinished_feed_byte b u =
      (if u_overflowed u \<or> MAX_UNFINISHED \<le> length (u_bytes u)
       then \<lparr>u_state = ?nx, u_bytes = take 2 (u_bytes u), u_overflowed = True\<rparr>
       else \<lparr>u_state = ?nx, u_bytes = u_bytes u @ [b], u_overflowed = False\<rparr>)"
      using kept st take by (cases u) (auto simp: unfinished_feed_byte_def Let_def)
    then show ?thesis
      using unf_inv_snoc [OF inv _ nr esc] unf_inv_overflow [OF inv _ nr] by auto
  qed
qed

lemma unf_inv_feed [inv_intros]: "unf_inv u \<Longrightarrow> unf_inv (unfinished_feed u data)"
  by (induction data arbitrary: u) (auto intro: inv_intros)

section \<open>What a snapshot ends with\<close>

lemma u_state_feed_byte [simp]:
  "u_state (unfinished_feed_byte b u) = fst (step (u_state u) b)"
  by (simp add: unfinished_feed_byte_def Let_def split: prod.splits)

lemma u_state_feed [simp]: "u_state (unfinished_feed u data) = run (u_state u) data"
  by (induction data arbitrary: u) auto

lemma u_state_default [simp]: "u_state unfinished_default = Ground"
  by (simp add: unfinished_default_def)

interpretation unf: incremental unfinished_feed
  by unfold_locales simp_all

interpretation vt: incremental run
  by unfold_locales simp_all

abbreviation unfinished_after :: "bytes \<Rightarrow> unfinished" where
  "unfinished_after data \<equiv> unfinished_feed unfinished_default data"

lemma unf_inv_after [simp]: "unf_inv (unfinished_after data)"
  by (simp add: inv_intros)




text \<open>
   What is kept never outgrows \<open>MAX_UNFINISHED\<close>, is empty
  exactly between sequences, and begins with the \<open>ESC\<close> that opened the sequence unless it is
  a character.
\<close>

theorem unfinished_bytes_bounded:
  "length (u_bytes (unfinished_after data)) \<le> MAX_UNFINISHED \<and>
   (u_bytes (unfinished_after data) = [] \<longleftrightarrow> run Ground data = Ground) \<and>
   (run Ground data = Ground \<or> is_utf8 (run Ground data) \<or>
     hd (u_bytes (unfinished_after data)) = ESC)"
  using unf_inv_after [of data] by (auto simp: unf_inv_def)

text \<open>
  Past the bound, a byte the parser ignores after the \<open>ESC\<close> (here \<open>DEL\<close>) takes the place of the
  introducer, and the kept bytes no longer put a viewer inside the string.
\<close>

lemma run_string:
  "BEL \<notin> set bs \<Longrightarrow> ESC \<notin> set bs \<Longrightarrow> CAN \<notin> set bs \<Longrightarrow> SUB \<notin> set bs \<Longrightarrow>
    run (Str bel) bs = Str bel"
  by (induction bs) (auto simp: step_def)

lemma unf_feed_byte_string:
  assumes "u_state u = Str True" and "b = 0x41"
  shows "unfinished_feed_byte b u =
    (if u_overflowed u then u
     else if length (u_bytes u) < MAX_UNFINISHED then u\<lparr>u_bytes := u_bytes u @ [b]\<rparr>
     else u\<lparr>u_bytes := take 2 (u_bytes u), u_overflowed := True\<rparr>)"
  using assms by (cases u) (auto simp: unfinished_feed_byte_def step_def Let_def)

lemma feed_string_keeps:
  "u_state u = Str True \<Longrightarrow> \<not> u_overflowed u \<Longrightarrow> length (u_bytes u) + n \<le> MAX_UNFINISHED \<Longrightarrow>
    unfinished_feed u (replicate n 0x41) = u\<lparr>u_bytes := u_bytes u @ replicate n 0x41\<rparr>"
  by (induction n arbitrary: u) (auto simp: unf_feed_byte_string replicate_append_same)

definition long_string_after_del :: bytes where
  "long_string_after_del = [0x1b, 0x7f, 0x5d] @ replicate (MAX_UNFINISHED - 3) 0x41 @ [0x41]"

lemma unfinished_del_string:
  "unfinished_after [0x1b, 0x7f, 0x5d] =
    \<lparr>u_state = Str True, u_bytes = [0x1b, 0x7f, 0x5d], u_overflowed = False\<rparr>"
  by code_simp

lemma unfinished_long_string:
  "unfinished_after long_string_after_del =
    \<lparr>u_state = Str True, u_bytes = [0x1b, 0x7f], u_overflowed = True\<rparr>"
proof -
  let ?u = "\<lparr>u_state = Str True, u_bytes = [0x1b, 0x7f, 0x5d], u_overflowed = False\<rparr>"
  have "unfinished_feed ?u (replicate (MAX_UNFINISHED - 3) 0x41) =
      ?u\<lparr>u_bytes := u_bytes ?u @ replicate (MAX_UNFINISHED - 3) 0x41\<rparr>"
    by (rule feed_string_keeps) (auto simp: MAX_UNFINISHED_def)
  moreover have "unfinished_after long_string_after_del =
      unfinished_feed (unfinished_feed (unfinished_after [0x1b, 0x7f, 0x5d])
        (replicate (MAX_UNFINISHED - 3) 0x41)) [0x41]"
    by (simp only: long_string_after_del_def unfinished_feed_append)
  ultimately show ?thesis
    by (simp only: unfinished_del_string) (simp add: unf_feed_byte_string MAX_UNFINISHED_def)
qed

text \<open>
   The condition of the first property is needed: a
  string of more than \<open>MAX_UNFINISHED\<close> bytes whose introducer does not follow the \<open>ESC\<close> at once
  is cut to bytes that leave a viewer outside the string, which then reads the rest of it as
  something else than a string.
\<close>

theorem long_string_escapes_its_introducer:
  "run Ground long_string_after_del = Str True \<and>
   run Ground (u_bytes (unfinished_after long_string_after_del)) = Escape"
  using u_state_feed [of unfinished_default long_string_after_del]
  by (simp add: unfinished_long_string step_def)

section \<open>Inside a character\<close>

text \<open>A stream in which no character is cut short by the first byte of another.\<close>

fun unbroken :: "vt_state \<Rightarrow> bytes \<Rightarrow> bool" where
  "unbroken s [] = True"
| "unbroken s (b # bs) = (\<not> (is_utf8 s \<and> is_utf8 (ground b)) \<and> unbroken (fst (step s b)) bs)"

lemma unbroken_append: "unbroken s (xs @ ys) \<longleftrightarrow> unbroken s xs \<and> unbroken (run s xs) ys"
  by (induction xs arbitrary: s) auto

lemma char_bytes:
  assumes "is_utf8 (run Ground (data @ [b]))" and "unbroken Ground (data @ [b])"
  shows "if is_utf8 (run Ground data)
    then u_bytes (unfinished_after (data @ [b])) = u_bytes (unfinished_after data) @ [b]
    else run Ground data = Ground \<and> u_bytes (unfinished_after (data @ [b])) = [b]"
proof -
  let ?s = "run Ground data"
  have nxt: "is_utf8 (fst (step ?s b))" and unb: "\<not> (is_utf8 ?s \<and> is_utf8 (ground b))"
    using assms by (auto simp: unbroken_append)
  have inv: "unf_inv (unfinished_after data)" by simp
  show ?thesis
  proof (cases "snd (step ?s b)")
    case True
    with nxt have g: "fst (step ?s b) = ground b"
      using step_restart [of ?s b] by (cases "fst (step ?s b)") auto
    with True nxt unb have "\<not> is_utf8 ?s" "?s = Ground"
      by (cases ?s; auto simp: step_def split: if_splits)+
    with True nxt g show ?thesis
      by (auto simp: unfinished_feed_byte_def Let_def MAX_UNFINISHED_def split: prod.splits)
  next
    case False
    with nxt obtain n where n: "?s = Utf8 n" "1 < n" "fst (step ?s b) = Utf8 (n - 1)"
      using step_within [of ?s b] by (cases "fst (step ?s b)") auto
    with inv have "\<not> u_overflowed (unfinished_after data)"
      "length (u_bytes (unfinished_after data)) < MAX_UNFINISHED"
      by (auto simp: unf_inv_def MAX_UNFINISHED_def)
    with n False show ?thesis
      by (auto simp: unfinished_feed_byte_def Let_def split: prod.splits)
  qed
qed

lemma char_suffix:
  "is_utf8 (run Ground data) \<Longrightarrow> unbroken Ground data \<Longrightarrow>
    \<exists>pre. data = pre @ u_bytes (unfinished_after data) \<and> run Ground pre = Ground"
proof (induction data rule: rev_induct)
  case Nil
  then show ?case by simp
next
  case (snoc b data)
  note here = char_bytes [OF snoc.prems]
  show ?case
  proof (cases "is_utf8 (run Ground data)")
    case True
    with snoc obtain pre where "data = pre @ u_bytes (unfinished_after data)"
      "run Ground pre = Ground"
      by (auto simp: unbroken_append)
    with here True show ?thesis by (metis append.assoc)
  next
    case False
    with here show ?thesis by auto
  qed
qed

end
