(* ===== verification/Queries.thy ===== *)
theory Queries
  imports Unfinished
begin

text \<open>
  \<open>crates/pty-host/src/queries.rs\<close>: the terminal queries in a session's output, the output
  without them, and how an answer is told from typing.  The lemmas show that the slices of
  \<open>Scan::without\<close> are always in bounds, that how the output is cut into batches changes
  neither what is counted nor where the scanner stands, and what a viewer that is sent the
  copies without the queries is asked and shown.
\<close>

section \<open>What is a query\<close>

datatype kind = Cursor | Other

text \<open>\<open>body.split(|&b| b == sep)\<close>: never empty, one field more than there are separators.\<close>

fun split_on :: "byte \<Rightarrow> bytes \<Rightarrow> bytes list" where
  "split_on sep [] = [[]]"
| "split_on sep (b # bs) =
    (if b = sep then [] # split_on sep bs
     else case split_on sep bs of f # fs \<Rightarrow> (b # f) # fs | [] \<Rightarrow> [[b]])"

definition is_prefix_byte :: "byte \<Rightarrow> bool" where
  "is_prefix_byte b \<longleftrightarrow> b \<in> {0x3c, 0x3d, 0x3e, 0x3f}"

definition is_intermediate :: "byte \<Rightarrow> bool" where
  "is_intermediate b \<longleftrightarrow> 0x20 \<le> b \<and> b \<le> 0x2f"

text \<open>A control sequence, after \<open>ESC [\<close>: whether it asks for an answer.\<close>

definition csi_query :: "byte option \<Rightarrow> bytes \<Rightarrow> bytes \<Rightarrow> byte \<Rightarrow> kind option" where
  "csi_query pre params intermediates fin =
    (let first = hd (split_on 0x3b params) in
     if pre = None \<and> intermediates = [] \<and> fin = 0x6e \<and> params = ascii ''6'' then Some Cursor
     else if
       (pre \<in> {None, Some 0x3f} \<and> intermediates = [] \<and> fin = 0x6e)
       \<or> (pre \<in> {None, Some 0x3e, Some 0x3d} \<and> intermediates = [] \<and> fin = 0x63)
       \<or> (pre \<in> {None, Some 0x3f} \<and> intermediates = ascii ''$'' \<and> fin = 0x70)
       \<or> (pre = None \<and> intermediates = [] \<and> fin = 0x74 \<and>
           first \<in> set (map ascii [''11'', ''13'', ''14'', ''15'', ''16'', ''18'', ''19'',
             ''20'', ''21'']))
       \<or> (pre = Some 0x3e \<and> intermediates = [] \<and> fin = 0x71)
       \<or> (pre = Some 0x3f \<and> intermediates = [] \<and> fin \<in> {0x75, 0x6d, 0x53})
       \<or> (pre = None \<and> intermediates = [] \<and> fin = 0x78)
       \<or> (pre = None \<and> intermediates = ascii ''$'' \<and> fin \<in> {0x75, 0x77})
       \<or> (pre = None \<and> intermediates = ascii ''&'' \<and> fin = 0x75)
       \<or> (pre = None \<and> intermediates = ascii ''*'' \<and> fin = 0x79)
       \<or> (pre = None \<and> intermediates = ascii ''#'' \<and> fin = 0x7c)
     then Some Other else None)"

definition csi :: "bytes \<Rightarrow> kind option" where
  "csi body =
    (if body = [] then None
     else
       let fin = last body; rest0 = butlast body;
           (pre, rest) =
             (case rest0 of
                p # r \<Rightarrow> if is_prefix_byte p then (Some p, r) else (None, rest0)
              | [] \<Rightarrow> (None, rest0));
           params = takeWhile (\<lambda>b. \<not> is_intermediate b) rest;
           intermediates = dropWhile (\<lambda>b. \<not> is_intermediate b) rest
       in csi_query pre params intermediates fin)"

definition osc_asks :: "bytes \<Rightarrow> bool" where
  "osc_asks field \<longleftrightarrow> field = ascii ''?'' \<or> suffix (ascii ''=?'') field"

text \<open>Whether a whole sequence, from its \<open>ESC\<close>, asks the terminal for an answer.\<close>

definition classify :: "bytes \<Rightarrow> kind option" where
  "classify sequence =
    (case sequence of
       _ # introducer # body \<Rightarrow>
         if introducer = 0x5b then csi body
         else if
           (if introducer = 0x5d then
              (let fields = split_on 0x3b body in
               hd fields \<in> set (map ascii [''4'', ''5'', ''10'', ''11'', ''12'', ''13'', ''14'',
                 ''15'', ''16'', ''17'', ''18'', ''19'', ''21'', ''52''])
               \<and> list_ex osc_asks (tl fields))
            else if introducer = 0x50 then
              prefix (ascii ''$q'') body \<or> prefix (ascii ''+q'') body
            else if introducer = 0x5a then body = []
            else False)
         then Some Other else None
     | _ \<Rightarrow> None)"

section \<open>Following the output\<close>

definition MAX_QUERY :: nat where
  "MAX_QUERY = 256"

record queries =
  q_state :: vt_state
  q_open :: bytes
  q_overflowed :: bool
  q_start :: "nat option"
  q_kept :: "nat list"

record span =
  sp_start :: nat
  sp_end :: nat
  sp_continued :: bool
  sp_kept :: "nat list"

record scan =
  sc_spans :: "span list"
  sc_cursor :: nat

definition queries_default :: queries where
  "queries_default = \<lparr>q_state = Ground, q_open = [], q_overflowed = False, q_start = None,
    q_kept = []\<rparr>"

definition scan_default :: scan where
  "scan_default = \<lparr>sc_spans = [], sc_cursor = 0\<rparr>"

definition scan_is_empty :: "scan \<Rightarrow> bool" where
  "scan_is_empty sc \<longleftrightarrow> sc_spans sc = []"

definition queries_push :: "byte \<Rightarrow> queries \<Rightarrow> queries" where
  "queries_push b q =
    (if length (q_open q) < MAX_QUERY then q\<lparr>q_open := q_open q @ [b]\<rparr>
     else q\<lparr>q_overflowed := True\<rparr>)"

definition queries_forget :: "queries \<Rightarrow> queries" where
  "queries_forget q = q\<lparr>q_open := [], q_overflowed := False, q_start := None, q_kept := []\<rparr>"

text \<open>The \<open>match prior\<close> of the loop: what byte \<open>i\<close> does to the open sequence, and the end of
  the sequence when the byte ended one.\<close>

fun queries_ended ::
  "vt_state \<Rightarrow> nat \<Rightarrow> byte \<Rightarrow> vt_state \<Rightarrow> bool \<Rightarrow> queries \<Rightarrow> nat option \<times> queries" where
  "queries_ended (Str bel) i b nxt restart q =
    (if b = BEL \<and> bel then (Some (i + 1), q)
     else if b = ESC then (Some i, q)
     else if b = CAN \<or> b = SUB then (None, queries_forget q)
     else (None, queries_push b q))"
| "queries_ended Ground i b nxt restart q = (None, q)"
| "queries_ended (Utf8 _) i b nxt restart q = (None, q)"
| "queries_ended _ i b nxt restart q =
    (if restart then (None, queries_forget q)
     else if nxt = Ground then (Some (i + 1), queries_push b q)
     else if b < 0x20 then (None, q\<lparr>q_kept := q_kept q @ [i]\<rparr>)
     else (None, if b \<noteq> DEL then queries_push b q else q))"

definition queries_kind :: "queries \<Rightarrow> kind option" where
  "queries_kind q = (if q_overflowed q then None else classify (q_open q))"

definition scan_add :: "kind \<Rightarrow> nat \<Rightarrow> queries \<Rightarrow> scan \<Rightarrow> scan" where
  "scan_add k e q sc =
    \<lparr>sc_spans = sc_spans sc @ [\<lparr>sp_start = (case q_start q of Some s \<Rightarrow> s | None \<Rightarrow> 0),
        sp_end = e, sp_continued = (q_start q = None), sp_kept = q_kept q\<rparr>],
      sc_cursor = sc_cursor sc + (if k = Cursor then 1 else 0)\<rparr>"

text \<open>One iteration of the loop of \<open>Queries::feed\<close>, on byte \<open>i\<close> of the batch.\<close>

definition queries_feed_byte :: "nat \<Rightarrow> byte \<Rightarrow> queries \<times> scan \<Rightarrow> queries \<times> scan" where
  "queries_feed_byte i b qsc =
    (let (q, sc) = qsc;
         prior = q_state q;
         (nxt, restart) = step prior b;
         (ended, q1) = queries_ended prior i b nxt restart (q\<lparr>q_state := nxt\<rparr>);
         (q2, sc2) =
           (case ended of
              None \<Rightarrow> (q1, sc)
            | Some e \<Rightarrow>
                (queries_forget q1,
                 case queries_kind q1 of None \<Rightarrow> sc | Some k \<Rightarrow> scan_add k e q1 sc))
     in (if b = ESC then q2\<lparr>q_open := q_open q2 @ [ESC], q_start := Some i\<rparr> else q2, sc2))"

fun queries_loop :: "nat \<Rightarrow> bytes \<Rightarrow> queries \<times> scan \<Rightarrow> queries \<times> scan" where
  "queries_loop i [] qsc = qsc"
| "queries_loop i (b # bs) qsc = queries_loop (i + 1) bs (queries_feed_byte i b qsc)"

definition queries_feed :: "queries \<Rightarrow> bytes \<Rightarrow> queries \<times> scan" where
  "queries_feed q batch =
    queries_loop 0 batch (q\<lparr>q_start := None, q_kept := []\<rparr>, scan_default)"

text \<open>
  \<open>Scan::without\<close>.  A slice \<open>batch[a..b]\<close> panics unless \<open>a <= b <= len\<close>, an index unless
  it is below \<open>len\<close>; \<open>None\<close> is the panic.
\<close>

definition slice :: "'a list \<Rightarrow> nat \<Rightarrow> nat \<Rightarrow> 'a list option" where
  "slice xs a b = (if a \<le> b \<and> b \<le> length xs then Some (take (b - a) (drop a xs)) else None)"

fun pick :: "'a list \<Rightarrow> nat list \<Rightarrow> 'a list option" where
  "pick xs [] = Some []"
| "pick xs (k # ks) =
    (if k < length xs then map_option ((#) (xs ! k)) (pick xs ks) else None)"

fun without_from :: "bytes \<Rightarrow> nat \<Rightarrow> span list \<Rightarrow> bytes option" where
  "without_from batch at [] = slice batch at (length batch)"
| "without_from batch at (sp # sps) =
    do {
      prior \<leftarrow> slice batch at (sp_start sp);
      kept \<leftarrow> pick batch (sp_kept sp);
      rest \<leftarrow> without_from batch (sp_end sp) sps;
      Some (prior @ (if sp_continued sp then [CAN] else []) @ kept @ rest)
    }"

definition scan_without :: "scan \<Rightarrow> bytes \<Rightarrow> bytes option" where
  "scan_without sc batch = without_from batch 0 (sc_spans sc)"

section \<open>Telling an answer from typing\<close>

text \<open>A whole sequence, from its \<open>ESC\<close>, in the shape of an answer.\<close>

definition answer :: "bytes \<Rightarrow> bool" where
  "answer sequence =
    (if sequence = [0x1b, 0x5c] then True
     else case sequence of
       e # c # body \<Rightarrow>
         e = ESC \<and> c = 0x5b \<and> body \<noteq> [] \<and>
         (let fin = last body; rest = butlast body in
          if fin \<in> {0x52, 0x63, 0x6e, 0x79, 0x74, 0x78, 0x7c} then True
          else if fin = 0x75 then (case rest of r # _ \<Rightarrow> r = 0x3f | [] \<Rightarrow> False)
          else if fin = 0x6d then (case rest of r # _ \<Rightarrow> r = 0x3e | [] \<Rightarrow> False)
          else False)
     | _ \<Rightarrow> False)"

text \<open>The loop of \<open>is_reply\<close>: the state, the open sequence and the replies so far; \<open>None\<close> is
  the early \<open>return false\<close>.\<close>

fun in_sequence :: "vt_state \<Rightarrow> bool" where
  "in_sequence Escape = True"
| "in_sequence EscapeIntermediate = True"
| "in_sequence Csi = True"
| "in_sequence _ = False"

definition reply_byte :: "byte \<Rightarrow> vt_state \<times> bytes \<times> nat \<Rightarrow> (vt_state \<times> bytes \<times> nat) option" where
  "reply_byte b st =
    (let (prior, sequence, replies) = st;
         (nxt, restart) = step prior b;
         opened = (\<lambda>(sq, n). (nxt, if b = ESC then [ESC] else sq, n))
     in if (prior = Ground \<or> is_utf8 prior) \<and> b \<noteq> ESC then None
        else if (case prior of Str bel \<Rightarrow> b = ESC \<or> bel \<and> b = BEL | _ \<Rightarrow> False)
        then Some (opened ([], replies + 1))
        else if in_sequence prior \<and> restart then None
        else if in_sequence prior \<and> nxt = Ground then
          (if answer (sequence @ [b]) then Some (opened ([], replies + 1)) else None)
        else Some (opened (sequence @ [b], replies)))"

fun reply_loop :: "bytes \<Rightarrow> vt_state \<times> bytes \<times> nat \<Rightarrow> (vt_state \<times> bytes \<times> nat) option" where
  "reply_loop [] st = Some st"
| "reply_loop (b # bs) st = (case reply_byte b st of None \<Rightarrow> None | Some st' \<Rightarrow> reply_loop bs st')"

definition is_reply :: "bytes \<Rightarrow> bool" where
  "is_reply input =
    (case reply_loop input (Ground, [], 0) of
       None \<Rightarrow> False
     | Some (state, sequence, replies) \<Rightarrow> 0 < replies \<and> (state = Ground \<or> sequence = [ESC]))"

section \<open>What a terminal does with a stream\<close>

text \<open>
  The specification the scanner is measured against: the things a stream makes a terminal do, in
  order.  \<open>Byte\<close> is a byte of text or a control carried out where it stands, \<open>Seq\<close> a whole
  escape sequence, control sequence or string, from its \<open>ESC\<close>.  A sequence that is abandoned
  does nothing.  The state is the parser's, with the bytes of the open sequence.
\<close>

datatype act = Byte byte | Seq bytes

type_synonym term_state = "vt_state \<times> bytes"

definition act_byte :: "term_state \<Rightarrow> byte \<Rightarrow> term_state \<times> act list" where
  "act_byte st b =
    (let (s, sq) = st; (nxt, restart) = step s b; opened = (if b = ESC then [ESC] else [])
     in case s of
          Str bel \<Rightarrow>
            if b = BEL \<and> bel \<or> b = ESC then ((nxt, opened), [Seq sq])
            else if b = CAN \<or> b = SUB then ((nxt, []), [])
            else ((nxt, sq @ [b]), [])
        | _ \<Rightarrow>
            if in_sequence s then
              if restart then ((nxt, opened), [])
              else if nxt = Ground then ((Ground, []), [Seq (sq @ [b])])
              else if b < 0x20 then ((nxt, sq), [Byte b])
              else if b = DEL then ((nxt, sq), [])
              else ((nxt, sq @ [b]), [])
            else ((nxt, opened), if b = ESC then [] else [Byte b]))"

fun term_after :: "term_state \<Rightarrow> bytes \<Rightarrow> term_state" where
  "term_after st [] = st"
| "term_after st (b # bs) = term_after (fst (act_byte st b)) bs"

fun acts :: "term_state \<Rightarrow> bytes \<Rightarrow> act list" where
  "acts st [] = []"
| "acts st (b # bs) = snd (act_byte st b) @ acts (fst (act_byte st b)) bs"

abbreviation fresh :: term_state where
  "fresh \<equiv> (Ground, [])"

definition seq_kind :: "bytes \<Rightarrow> kind option" where
  "seq_kind sq = (if length sq \<le> MAX_QUERY then classify sq else None)"

fun asks :: "act \<Rightarrow> bool" where
  "asks (Byte _) = False"
| "asks (Seq sq) = (seq_kind sq \<noteq> None)"

lemma term_after_append [simp]: "term_after st (xs @ ys) = term_after (term_after st xs) ys"
  by (induction xs arbitrary: st) auto

lemma acts_append [simp]: "acts st (xs @ ys) = acts st xs @ acts (term_after st xs) ys"
  by (induction xs arbitrary: st) auto

interpretation tm: incremental term_after
  by unfold_locales simp_all

lemma act_byte_state [simp]: "fst (fst (act_byte st b)) = fst (step (fst st) b)"
  by (cases st; cases "fst st"; cases "step (fst st) b")
    (auto simp: act_byte_def Let_def split: if_splits)

lemma term_after_state [simp]: "fst (term_after st bs) = run (fst st) bs"
  by (induction bs arbitrary: st) auto

section \<open>The scanner follows the terminal\<close>

text \<open>Outside a sequence nothing is open; inside one, the scanner has the first
  \<open>MAX_QUERY\<close> bytes of it.\<close>

definition follows :: "queries \<Rightarrow> term_state \<Rightarrow> bool" where
  "follows q st \<longleftrightarrow>
    q_state q = fst st \<and> q_open q = take MAX_QUERY (snd st) \<and>
    (q_overflowed q \<longleftrightarrow> MAX_QUERY < length (snd st)) \<and>
    (fst st = Ground \<or> is_utf8 (fst st) \<longrightarrow> snd st = [] \<and> q_start q = None \<and> q_kept q = [])"

lemma follows_default: "follows queries_default fresh"
  by (simp add: follows_def queries_default_def)

lemma follows_batch: "follows q st \<Longrightarrow> follows (q\<lparr>q_start := None, q_kept := []\<rparr>) st"
  by (simp add: follows_def)

text \<open>The open sequence alone, without the parser's state.\<close>

definition spans_hold :: "queries \<Rightarrow> bytes \<Rightarrow> bool" where
  "spans_hold q sq \<longleftrightarrow> q_open q = take MAX_QUERY sq \<and> (q_overflowed q \<longleftrightarrow> MAX_QUERY < length sq)"

lemma holds_push: "spans_hold q sq \<Longrightarrow> spans_hold (queries_push b q) (sq @ [b])"
  by (auto simp: spans_hold_def queries_push_def)

lemma holds_kind: "spans_hold q sq \<Longrightarrow> queries_kind q = seq_kind sq"
  by (auto simp: spans_hold_def queries_kind_def seq_kind_def)

lemma holds_forget [simp]: "spans_hold (queries_forget q) []"
  by (simp add: spans_hold_def queries_forget_def MAX_QUERY_def)

lemma holds_upd [simp]:
  "spans_hold (q\<lparr>q_state := s\<rparr>) sq = spans_hold q sq" "spans_hold (q\<lparr>q_kept := ks\<rparr>) sq = spans_hold q sq"
  "spans_hold (q\<lparr>q_start := x\<rparr>) sq = spans_hold q sq"
  by (simp_all add: spans_hold_def)

lemma holds_escape [simp]: "spans_hold ((queries_forget q)\<lparr>q_open := [c]\<rparr>) [c]"
  by (simp add: spans_hold_def queries_forget_def MAX_QUERY_def)

lemma follows_holds:
  "follows q st \<longleftrightarrow> q_state q = fst st \<and> spans_hold q (snd st) \<and>
    (fst st = Ground \<or> is_utf8 (fst st) \<longrightarrow> snd st = [] \<and> q_start q = None \<and> q_kept q = [])"
  by (auto simp: follows_def spans_hold_def)

lemma queries_push_fields [simp]:
  "q_state (queries_push b q) = q_state q" "q_start (queries_push b q) = q_start q"
  "q_kept (queries_push b q) = q_kept q"
  by (simp_all add: queries_push_def)

lemma queries_forget_fields [simp]:
  "q_state (queries_forget q) = q_state q" "q_start (queries_forget q) = None"
  "q_kept (queries_forget q) = []"
  by (simp_all add: queries_forget_def)

lemma step_escape [simp]: "step s 0x1b = (Escape, True)"
  by (simp add: step_def)

lemma step_cancel: "b = CAN \<or> b = SUB \<Longrightarrow> step s b = (Ground, True)"
  by (auto simp: step_def)

lemma step_string: "b \<notin> {ESC, CAN, SUB} \<Longrightarrow>
  step (Str bel) b = (if b = BEL \<and> bel then Ground else Str bel, False)"
  by (auto simp: step_def)

lemma step_sequence:
  assumes "in_sequence s" and "b \<notin> {ESC, CAN, SUB}"
  shows "\<not> snd (step s b)" and "\<not> is_utf8 (fst (step s b))"
  using assms by (cases s; auto simp: step_def)+

lemma step_ground_state:
  assumes "s = Ground \<or> is_utf8 s" and "b \<noteq> ESC"
  shows "fst (step s b) = Ground \<or> is_utf8 (fst (step s b))"
  using assms by (cases s) (auto simp: step_def ground_is_utf8 split: if_splits)

lemma state_kinds:
  obtains (plain) "s = Ground \<or> is_utf8 s" "\<not> in_sequence s" "\<And>bel. s \<noteq> Str bel"
  | (sequence) "in_sequence s" "s \<noteq> Ground" "\<not> is_utf8 s" "\<And>bel. s \<noteq> Str bel"
  | (string) bel where "s = Str bel"
  by (cases s) auto

text \<open>What a terminal does with one byte, by the state it is in.\<close>

lemma act_byte_plain:
  assumes "s = Ground \<or> is_utf8 s"
  shows "act_byte (s, sq) b =
    (if b = ESC then ((Escape, [ESC]), []) else ((fst (step s b), []), [Byte b]))"
  using assms by (cases s) (auto simp: act_byte_def split: prod.splits)

lemma act_byte_sequence:
  assumes "in_sequence s"
  shows "act_byte (s, sq) b =
    (if b = ESC then ((Escape, [ESC]), [])
     else if b = CAN \<or> b = SUB then ((Ground, []), [])
     else if fst (step s b) = Ground then ((Ground, []), [Seq (sq @ [b])])
     else if b < 0x20 then ((fst (step s b), sq), [Byte b])
     else if b = DEL then ((fst (step s b), sq), [])
     else ((fst (step s b), sq @ [b]), []))"
proof (cases "b \<in> {ESC, CAN, SUB}")
  case True
  with assms show ?thesis by (cases s) (auto simp: act_byte_def step_cancel)
next
  case False
  obtain nxt where "step s b = (nxt, False)"
    using step_sequence(1) [OF assms False] by (cases "step s b") auto
  with assms False show ?thesis by (cases s) (auto simp: act_byte_def)
qed

lemma act_byte_string:
  "act_byte (Str bel, sq) b =
    (if b = ESC then ((Escape, [ESC]), [Seq sq])
     else if b = CAN \<or> b = SUB then ((Ground, []), [])
     else if b = BEL \<and> bel then ((Ground, []), [Seq sq])
     else ((Str bel, sq @ [b]), []))"
  by (auto simp: act_byte_def step_cancel step_string)

text \<open>And what the scanner does with it.\<close>

definition ended_with :: "nat \<Rightarrow> queries \<Rightarrow> scan \<Rightarrow> scan" where
  "ended_with e q sc = (case queries_kind q of None \<Rightarrow> sc | Some k \<Rightarrow> scan_add k e q sc)"

lemma feed_byte_plain:
  assumes "q_state q = Ground \<or> is_utf8 (q_state q)"
  shows "queries_feed_byte i b (q, sc) =
    (if b = ESC
     then (q\<lparr>q_state := Escape, q_open := q_open q @ [ESC], q_start := Some i\<rparr>, sc)
     else (q\<lparr>q_state := fst (step (q_state q) b)\<rparr>, sc))"
  using assms by (cases "q_state q") (auto simp: queries_feed_byte_def split: prod.splits)

lemma feed_byte_sequence:
  assumes "in_sequence (q_state q)"
  shows "queries_feed_byte i b (q, sc) =
    (let q1 = q\<lparr>q_state := fst (step (q_state q) b)\<rparr> in
     if b = ESC
     then ((queries_forget q1)\<lparr>q_open := [ESC], q_start := Some i\<rparr>, sc)
     else if b = CAN \<or> b = SUB then (queries_forget q1, sc)
     else if fst (step (q_state q) b) = Ground
     then (queries_forget (queries_push b q1), ended_with (i + 1) (queries_push b q1) sc)
     else if b < 0x20 then (q1\<lparr>q_kept := q_kept q @ [i]\<rparr>, sc)
     else if b = DEL then (q1, sc)
     else (queries_push b q1, sc))"
proof (cases "b \<in> {ESC, CAN, SUB}")
  case True
  with assms show ?thesis
    by (cases "q_state q")
      (auto simp: queries_feed_byte_def step_cancel queries_forget_def Let_def)
next
  case False
  obtain nxt where "step (q_state q) b = (nxt, False)"
    using step_sequence(1) [OF assms False] by (cases "step (q_state q) b") auto
  with assms False show ?thesis
    by (cases "q_state q") (auto simp: queries_feed_byte_def ended_with_def Let_def)
qed

lemma feed_byte_string:
  assumes "q_state q = Str bel"
  shows "queries_feed_byte i b (q, sc) =
    (let q1 = q\<lparr>q_state := fst (step (q_state q) b)\<rparr> in
     if b = ESC
     then ((queries_forget q1)\<lparr>q_open := [ESC], q_start := Some i\<rparr>, ended_with i q1 sc)
     else if b = CAN \<or> b = SUB then (queries_forget q1, sc)
     else if b = BEL \<and> bel then (queries_forget q1, ended_with (i + 1) q1 sc)
     else (queries_push b q1, sc))"
  using assms
  by (auto simp: queries_feed_byte_def ended_with_def step_cancel step_string queries_forget_def
      Let_def split: prod.splits)

lemma feed_byte_follows:
  assumes "follows q st"
  shows "follows (fst (queries_feed_byte i b (q, sc))) (fst (act_byte st b))"
proof -
  obtain s sq where st: "st = (s, sq)" by (cases st)
  have q: "q_state q = s" "spans_hold q sq" using assms by (auto simp: follows_holds st)
  show ?thesis
  proof (cases s rule: state_kinds)
    case plain
    with assms st have "sq = []" "q_start q = None" "q_kept q = []" by (auto simp: follows_holds)
    with plain q st show ?thesis
      using step_ground_state [of s b]
      by (auto simp: follows_holds feed_byte_plain act_byte_plain spans_hold_def MAX_QUERY_def)
  next
    case sequence
    with q st show ?thesis
      using step_sequence(2) [of s b]
      by (auto simp: follows_holds feed_byte_sequence act_byte_sequence Let_def step_cancel holds_push)
  next
    case string
    with q st show ?thesis
      by (auto simp: follows_holds feed_byte_string act_byte_string Let_def step_cancel
          step_string holds_push)
  qed
qed

lemma scan_add_same [simp]:
  "scan_add k e (q\<lparr>q_state := s\<rparr>) sc = scan_add k e q sc"
  "scan_add k e (queries_push b q) sc = scan_add k e q sc"
  by (simp_all add: scan_add_def)

text \<open>A byte adds a span exactly when it makes the terminal act on a query.\<close>

lemma feed_byte_scan:
  assumes "follows q st"
  shows "snd (queries_feed_byte i b (q, sc)) =
    (case snd (act_byte st b) of
       [Seq sq] \<Rightarrow>
         (case seq_kind sq of None \<Rightarrow> sc
          | Some k \<Rightarrow> scan_add k (if b = ESC then i else i + 1) q sc)
     | _ \<Rightarrow> sc)"
proof -
  obtain s sq where st: "st = (s, sq)" by (cases st)
  have q: "q_state q = s" "spans_hold q sq" using assms by (auto simp: follows_holds st)
  have k: "queries_kind (q\<lparr>q_state := x\<rparr>) = seq_kind sq"
    "queries_kind (queries_push b (q\<lparr>q_state := x\<rparr>)) = seq_kind (sq @ [b])" for x
    using q(2) by (simp_all add: holds_kind holds_push)
  show ?thesis
  proof (cases s rule: state_kinds)
    case plain
    with q st show ?thesis by (auto simp: feed_byte_plain act_byte_plain)
  next
    case sequence
    with q st k show ?thesis
      by (auto simp: feed_byte_sequence act_byte_sequence ended_with_def Let_def
          split: option.splits)
  next
    case string
    with q st k show ?thesis
      by (auto simp: feed_byte_string act_byte_string ended_with_def Let_def
          split: option.splits)
  qed
qed

lemma act_byte_one: "snd (act_byte st b) = [] \<or> (\<exists>a. snd (act_byte st b) = [a])"
  by (cases st; cases "fst st" rule: state_kinds)
    (auto simp: act_byte_plain act_byte_sequence act_byte_string)

fun asks_cursor :: "act \<Rightarrow> bool" where
  "asks_cursor (Byte _) = False"
| "asks_cursor (Seq sq) = (seq_kind sq = Some Cursor)"

definition count_if :: "('a \<Rightarrow> bool) \<Rightarrow> 'a list \<Rightarrow> nat" where
  "count_if P xs = length (filter P xs)"

lemma count_if_simps [simp]:
  "count_if P [] = 0" "count_if P (x # xs) = (if P x then 1 else 0) + count_if P xs"
  "count_if P (xs @ ys) = count_if P xs + count_if P ys"
  by (simp_all add: count_if_def)

lemma feed_byte_counts:
  assumes "follows q st"
  shows "sc_cursor (snd (queries_feed_byte i b (q, sc))) =
      sc_cursor sc + count_if asks_cursor (snd (act_byte st b))"
    and "length (sc_spans (snd (queries_feed_byte i b (q, sc)))) =
      length (sc_spans sc) + count_if asks (snd (act_byte st b))"
  using act_byte_one [of st b]
  by (auto simp: feed_byte_scan [OF assms] scan_add_def split: act.splits option.splits)

lemma queries_loop_follows:
  assumes "follows q st"
  shows "follows (fst (queries_loop i bs (q, sc))) (term_after st bs) \<and>
    sc_cursor (snd (queries_loop i bs (q, sc))) =
      sc_cursor sc + count_if asks_cursor (acts st bs) \<and>
    length (sc_spans (snd (queries_loop i bs (q, sc)))) =
      length (sc_spans sc) + count_if asks (acts st bs)"
  using assms
proof (induction bs arbitrary: i q sc st)
  case Nil
  then show ?case by simp
next
  case (Cons b bs)
  obtain q' sc' where one: "queries_feed_byte i b (q, sc) = (q', sc')"
    by (cases "queries_feed_byte i b (q, sc)")
  with Cons.prems have "follows q' (fst (act_byte st b))"
    using feed_byte_follows [of q st i b sc] by simp
  note Cons.IH [OF this, of "i + 1" sc']
  then show ?case
    using one feed_byte_counts [OF Cons.prems, of i b sc] by simp
qed

lemma queries_feed_follows:
  assumes "follows q st"
  shows "follows (fst (queries_feed q batch)) (term_after st batch)"
    and "sc_cursor (snd (queries_feed q batch)) = count_if asks_cursor (acts st batch)"
    and "length (sc_spans (snd (queries_feed q batch))) = count_if asks (acts st batch)"
  using queries_loop_follows [OF follows_batch [OF assms], of 0 batch scan_default]
  by (auto simp: queries_feed_def scan_default_def)

text \<open>A session's output, batch by batch.\<close>

fun queries_scans :: "queries \<Rightarrow> bytes list \<Rightarrow> scan list" where
  "queries_scans q [] = []"
| "queries_scans q (b # bs) =
    (let (q', sc) = queries_feed q b in sc # queries_scans q' bs)"

lemma queries_scans_counts:
  "follows q st \<Longrightarrow>
    sum_list (map sc_cursor (queries_scans q batches)) =
      count_if asks_cursor (acts st (concat batches)) \<and>
    sum_list (map (\<lambda>sc. length (sc_spans sc)) (queries_scans q batches)) =
      count_if asks (acts st (concat batches))"
proof (induction batches arbitrary: q st)
  case Nil
  then show ?case by simp
next
  case (Cons b bs)
  obtain q' sc where one: "queries_feed q b = (q', sc)" by (cases "queries_feed q b")
  with Cons.IH [of q' "term_after st b"] queries_feed_follows [OF Cons.prems, of b]
  show ?case by simp
qed

text \<open>
  C32. However the output is cut into batches, every query in it is
  reported exactly once, and every question where the cursor is is counted exactly once: the
  scans of the batches add up to what a terminal that reads the whole stream is asked.
\<close>

theorem queries_counted_once:
  "sum_list (map (\<lambda>sc. length (sc_spans sc)) (queries_scans queries_default batches)) =
     count_if asks (acts fresh (concat batches)) \<and>
   sum_list (map sc_cursor (queries_scans queries_default batches)) =
     count_if asks_cursor (acts fresh (concat batches))"
  using queries_scans_counts [OF follows_default] by simp

section \<open>The copies without the queries\<close>

text \<open>Spans in order, apart, and within a batch of \<open>n\<close> bytes.\<close>

fun spans_ok :: "nat \<Rightarrow> span list \<Rightarrow> nat \<Rightarrow> bool" where
  "spans_ok at [] n = (at \<le> n)"
| "spans_ok at (sp # sps) n =
    (at \<le> sp_start sp \<and> sp_start sp \<le> sp_end sp \<and> (\<forall>k \<in> set (sp_kept sp). k < sp_end sp)
      \<and> spans_ok (sp_end sp) sps n)"

fun spans_end :: "nat \<Rightarrow> span list \<Rightarrow> nat" where
  "spans_end at [] = at"
| "spans_end at (sp # sps) = spans_end (sp_end sp) sps"

fun quiet_from :: "bytes \<Rightarrow> nat \<Rightarrow> span list \<Rightarrow> bytes" where
  "quiet_from batch at [] = drop at batch"
| "quiet_from batch at (sp # sps) =
    take (sp_start sp - at) (drop at batch) @ (if sp_continued sp then [CAN] else [])
      @ map ((!) batch) (sp_kept sp) @ quiet_from batch (sp_end sp) sps"

lemma spans_ok_end: "spans_ok at sps n \<Longrightarrow> at \<le> spans_end at sps \<and> spans_end at sps \<le> n"
  by (induction at sps n rule: spans_ok.induct) auto

lemma spans_ok_le: "spans_ok at sps n \<Longrightarrow> at \<le> n"
  using spans_ok_end by fastforce

lemma spans_ok_mono: "spans_ok at sps n \<Longrightarrow> spans_end at sps \<le> m \<Longrightarrow> spans_ok at sps m"
  by (induction at sps n rule: spans_ok.induct) auto

lemma spans_ok_snoc:
  "spans_ok at (sps @ [sp]) n \<longleftrightarrow>
    spans_ok at sps (sp_start sp) \<and> sp_start sp \<le> sp_end sp \<and>
    (\<forall>k \<in> set (sp_kept sp). k < sp_end sp) \<and> sp_end sp \<le> n"
  by (induction at sps n rule: spans_ok.induct) auto

lemma spans_end_snoc [simp]: "spans_end at (sps @ [sp]) = sp_end sp"
  by (induction at sps rule: spans_end.induct) auto

lemma pick_in_bounds: "(\<forall>k \<in> set ks. k < length xs) \<Longrightarrow> pick xs ks = Some (map ((!) xs) ks)"
  by (induction ks) auto

lemma without_quiet:
  "spans_ok at sps (length batch) \<Longrightarrow> without_from batch at sps = Some (quiet_from batch at sps)"
proof (induction at sps "length batch" rule: spans_ok.induct)
  case (1 at)
  then show ?case by (simp add: slice_def)
next
  case (2 at sp sps)
  have "sp_end sp \<le> length batch" using 2(2) spans_ok_le by auto
  then have "\<forall>k \<in> set (sp_kept sp). k < length batch" using 2(2) by fastforce
  with 2 \<open>sp_end sp \<le> length batch\<close> show ?case by (simp add: slice_def pick_in_bounds)
qed

lemma quiet_append:
  "spans_ok at sps (length p) \<Longrightarrow> quiet_from (p @ x) at sps = quiet_from p at sps @ x"
proof (induction at sps "length p" rule: spans_ok.induct)
  case (1 at)
  then show ?case by simp
next
  case (2 at sp sps)
  have e: "sp_end sp \<le> length p" using 2(2) spans_ok_le by auto
  then have "map ((!) (p @ x)) (sp_kept sp) = map ((!) p) (sp_kept sp)"
    using 2(2) by (fastforce simp: nth_append)
  with 2 e show ?case by simp
qed

lemma quiet_snoc:
  "spans_ok at (sps @ [sp]) (length p) \<Longrightarrow>
    quiet_from p at (sps @ [sp]) =
      quiet_from (take (sp_start sp) p) at sps @ (if sp_continued sp then [CAN] else [])
        @ map ((!) p) (sp_kept sp) @ drop (sp_end sp) p"
proof (induction sps arbitrary: at)
  case Nil
  then show ?case by (simp add: drop_take)
next
  case (Cons s1 sps)
  then have s1: "spans_ok (sp_end s1) (sps @ [sp]) (length p)" "at \<le> sp_start s1"
    "sp_start s1 \<le> sp_end s1" "\<forall>k \<in> set (sp_kept s1). k < sp_end s1"
    by auto
  have e: "sp_end s1 \<le> sp_start sp" using s1(1) spans_ok_le by (auto simp: spans_ok_snoc)
  have "map ((!) (take (sp_start sp) p)) (sp_kept s1) = map ((!) p) (sp_kept s1)"
    using s1(4) e by fastforce
  moreover have "take (sp_start s1 - at) (drop at (take (sp_start sp) p)) =
      take (sp_start s1 - at) (drop at p)"
    using s1(2,3) e by (simp add: drop_take min_def)
  ultimately show ?case using Cons.IH [OF s1(1)] by simp
qed

text \<open>The bookkeeping of a batch of which \<open>p\<close> has been read, the terminal being in \<open>st\<close>.\<close>

definition kept_control :: "byte \<Rightarrow> bool" where
  "kept_control b \<longleftrightarrow> b < 0x20 \<and> b \<notin> {ESC, CAN, SUB}"

definition sequence_open :: "vt_state \<Rightarrow> bool" where
  "sequence_open s \<longleftrightarrow> s \<noteq> Ground \<and> \<not> is_utf8 s"

definition scan_inv :: "bytes \<Rightarrow> term_state \<Rightarrow> queries \<Rightarrow> scan \<Rightarrow> bool" where
  "scan_inv p st q sc \<longleftrightarrow>
    follows q st \<and> spans_ok 0 (sc_spans sc) (length p) \<and>
    (\<forall>k \<in> set (q_kept q). k < length p \<and> kept_control (p ! k)) \<and>
    (sequence_open (fst st) \<longrightarrow>
      (case q_start q of
         None \<Rightarrow> sc_spans sc = []
       | Some s \<Rightarrow> spans_end 0 (sc_spans sc) \<le> s \<and> s < length p))"

lemma scan_inv_start:
  "follows q st \<Longrightarrow> scan_inv [] st (q\<lparr>q_start := None, q_kept := []\<rparr>) scan_default"
  by (simp add: scan_inv_def follows_batch scan_default_def)

lemma asking_open:
  assumes "\<exists>a \<in> set (snd (act_byte st b)). asks a"
  shows "sequence_open (fst st)"
  using assms
  by (cases st; cases "fst st" rule: state_kinds)
    (auto simp: act_byte_plain sequence_open_def split: if_splits)

definition asked :: "term_state \<Rightarrow> byte \<Rightarrow> bool" where
  "asked st b \<longleftrightarrow> (\<exists>a \<in> set (snd (act_byte st b)). asks a)"

definition next_span :: "nat \<Rightarrow> byte \<Rightarrow> queries \<Rightarrow> span" where
  "next_span i b q =
    \<lparr>sp_start = (case q_start q of Some s \<Rightarrow> s | None \<Rightarrow> 0), sp_end = (if b = ESC then i else i + 1),
      sp_continued = (q_start q = None), sp_kept = q_kept q\<rparr>"

lemma feed_byte_spans:
  assumes "follows q st"
  shows "sc_spans (snd (queries_feed_byte i b (q, sc))) =
    sc_spans sc @ (if asked st b then [next_span i b q] else [])"
  using act_byte_one [of st b]
  by (auto simp: feed_byte_scan [OF assms] scan_add_def next_span_def asked_def
      split: act.splits option.splits)

text \<open>Where the open sequence began, and the controls kept, after one more byte.\<close>

lemma feed_byte_open:
  assumes "follows q st" and "sequence_open (fst (fst (act_byte st b)))" and "b \<noteq> ESC"
  shows "sequence_open (fst st) \<and> \<not> asked st b"
    and "q_start (fst (queries_feed_byte i b (q, sc))) = q_start q"
    and "q_kept (fst (queries_feed_byte i b (q, sc))) =
      q_kept q @ (if snd (act_byte st b) = [] then [] else [i])"
    and "snd (act_byte st b) = (if kept_control b \<and> in_sequence (fst st) then [Byte b] else [])"
proof -
  obtain s sq where st: "st = (s, sq)" by (cases st)
  have q: "q_state q = s" using assms(1) by (simp add: follows_holds st)
  have "(sequence_open (fst st) \<and> \<not> asked st b) \<and>
    q_start (fst (queries_feed_byte i b (q, sc))) = q_start q \<and>
    q_kept (fst (queries_feed_byte i b (q, sc))) =
      q_kept q @ (if snd (act_byte st b) = [] then [] else [i]) \<and>
    snd (act_byte st b) = (if kept_control b \<and> in_sequence (fst st) then [Byte b] else [])"
  proof (cases s rule: state_kinds)
    case plain
    with assms st step_ground_state [of s b] show ?thesis
      by (auto simp: act_byte_plain sequence_open_def)
  next
    case sequence
    with assms st q show ?thesis
      by (auto simp: act_byte_sequence feed_byte_sequence sequence_open_def asked_def
          kept_control_def Let_def split: if_splits)
  next
    case string
    with assms st q show ?thesis
      by (auto simp: act_byte_string feed_byte_string sequence_open_def asked_def
          kept_control_def Let_def split: if_splits)
  qed
  then show "sequence_open (fst st) \<and> \<not> asked st b"
    and "q_start (fst (queries_feed_byte i b (q, sc))) = q_start q"
    and "q_kept (fst (queries_feed_byte i b (q, sc))) =
      q_kept q @ (if snd (act_byte st b) = [] then [] else [i])"
    and "snd (act_byte st b) = (if kept_control b \<and> in_sequence (fst st) then [Byte b] else [])"
    by auto
qed

lemma feed_byte_escape:
  assumes "follows q st"
  shows "q_start (fst (queries_feed_byte i ESC (q, sc))) = Some i"
    and "q_kept (fst (queries_feed_byte i ESC (q, sc))) = []"
    and "fst (act_byte st ESC) = (Escape, [ESC])"
  using assms
  by (cases st; cases "fst st" rule: state_kinds;
      auto simp: act_byte_plain act_byte_sequence act_byte_string feed_byte_plain
        feed_byte_sequence feed_byte_string follows_holds Let_def)+

lemma follows_closed:
  "follows q st \<Longrightarrow> \<not> sequence_open (fst st) \<Longrightarrow> snd st = [] \<and> q_kept q = []"
  by (auto simp: follows_holds sequence_open_def)

lemma next_span_ok:
  assumes inv: "scan_inv p st q sc" and "asked st b"
  shows "spans_ok 0 (sc_spans sc @ [next_span (length p) b q]) (length (p @ [b]))"
proof -
  have op: "sequence_open (fst st)" using assms(2) asking_open by (simp add: asked_def)
  have base: "spans_ok 0 (sc_spans sc) (length p)" "\<forall>k \<in> set (q_kept q). k < length p"
    using inv by (auto simp: scan_inv_def)
  show ?thesis
  proof (cases "q_start q")
    case None
    with inv op base show ?thesis
      by (auto simp: scan_inv_def next_span_def)
  next
    case (Some s)
    with inv op have "spans_end 0 (sc_spans sc) \<le> s" "s < length p" by (auto simp: scan_inv_def)
    with Some base show ?thesis
      by (auto simp: spans_ok_snoc next_span_def intro: spans_ok_mono [OF base(1)])
  qed
qed

lemma scan_inv_byte:
  assumes inv: "scan_inv p st q sc"
  shows "scan_inv (p @ [b]) (fst (act_byte st b))
    (fst (queries_feed_byte (length p) b (q, sc))) (snd (queries_feed_byte (length p) b (q, sc)))"
proof -
  let ?q = "fst (queries_feed_byte (length p) b (q, sc))"
  let ?sc = "snd (queries_feed_byte (length p) b (q, sc))"
  let ?st = "fst (act_byte st b)"
  have fol: "follows q st" using inv by (simp add: scan_inv_def)
  note fol' = feed_byte_follows [OF fol, of "length p" b sc]
  have sps: "sc_spans ?sc = sc_spans sc @ (if asked st b then [next_span (length p) b q] else [])"
    by (rule feed_byte_spans [OF fol])
  have ok: "spans_ok 0 (sc_spans sc) (length p)" using inv by (simp add: scan_inv_def)
  have ok': "spans_ok 0 (sc_spans ?sc) (length (p @ [b]))"
    using next_span_ok [OF inv] sps spans_ok_mono [OF ok] spans_ok_end [OF ok]
    by (cases "asked st b") auto
  consider (esc) "b = ESC" | (closed) "b \<noteq> ESC" "\<not> sequence_open (fst ?st)"
    | (still) "b \<noteq> ESC" "sequence_open (fst ?st)" by blast
  then show ?thesis
  proof cases
    case esc
    have "spans_end 0 (sc_spans ?sc) \<le> length p"
      using sps spans_ok_end [OF ok] esc by (auto simp: next_span_def)
    with esc fol' ok' feed_byte_escape [OF fol] show ?thesis by (simp add: scan_inv_def)
  next
    case closed
    with fol' ok' follows_closed [OF fol'] show ?thesis by (simp add: scan_inv_def)
  next
    case still
    note op = feed_byte_open [OF fol still(2,1)]
    have kept: "\<forall>k \<in> set (q_kept ?q). k < length (p @ [b]) \<and> kept_control ((p @ [b]) ! k)"
      using inv op(3,4) by (auto simp: scan_inv_def nth_append split: if_splits)
    have "case q_start ?q of None \<Rightarrow> sc_spans ?sc = []
        | Some s \<Rightarrow> spans_end 0 (sc_spans ?sc) \<le> s \<and> s < length (p @ [b])"
      using inv op(1,2) sps by (auto simp: scan_inv_def split: option.splits)
    with fol' ok' kept show ?thesis by (simp add: scan_inv_def)
  qed
qed

lemma scan_inv_loop:
  "scan_inv p st q sc \<Longrightarrow>
    scan_inv (p @ bs) (term_after st bs)
      (fst (queries_loop (length p) bs (q, sc))) (snd (queries_loop (length p) bs (q, sc)))"
proof (induction bs arbitrary: p st q sc)
  case Nil
  then show ?case by simp
next
  case (Cons b bs)
  from Cons.IH [OF scan_inv_byte [OF Cons.prems, of b]] show ?case by simp
qed

lemma scan_inv_feed:
  assumes "follows q st"
  shows "scan_inv batch (term_after st batch)
    (fst (queries_feed q batch)) (snd (queries_feed q batch))"
  using scan_inv_loop [OF scan_inv_start [OF assms], of batch] by (simp add: queries_feed_def)

text \<open>The copies of a session's output that a viewer who does not answer is sent, end to
  end; \<open>None\<close> is a panic.\<close>

fun quiet_stream :: "queries \<Rightarrow> bytes list \<Rightarrow> bytes option" where
  "quiet_stream q [] = Some []"
| "quiet_stream q (b # bs) =
    (let (q', sc) = queries_feed q b in
     do { w \<leftarrow> scan_without sc b; r \<leftarrow> quiet_stream q' bs; Some (w @ r) })"

lemma feed_without:
  assumes "follows q st"
  shows "scan_without (snd (queries_feed q batch)) batch =
    Some (quiet_from batch 0 (sc_spans (snd (queries_feed q batch))))"
  using scan_inv_feed [OF assms, of batch]
  by (auto simp: scan_without_def scan_inv_def intro: without_quiet)

lemma quiet_stream_total: "follows q st \<Longrightarrow> \<exists>w. quiet_stream q batches = Some w"
proof (induction batches arbitrary: q st)
  case Nil
  then show ?case by simp
next
  case (Cons b bs)
  obtain q' sc where one: "queries_feed q b = (q', sc)" by (cases "queries_feed q b")
  with Cons.IH [of q' "term_after st b"] queries_feed_follows(1) [OF Cons.prems, of b]
    feed_without [OF Cons.prems, of b]
  show ?case by auto
qed

text \<open>
   The slices and indexes of \<open>Scan::without\<close> are in bounds
  for every scan that \<open>Queries::feed\<close> makes, wherever the output is cut: making the copies
  never panics.
\<close>

theorem quiet_copies_never_panic:
  "\<exists>w. quiet_stream queries_default batches = Some w"
  by (rule quiet_stream_total [OF follows_default])

section \<open>What a quiet viewer draws\<close>

text \<open>
  A stream is tidy when every query in it begins where nothing is left open before it: in the
  ground state, or at the \<open>ESC\<close> that ends a query that is itself tidy.  \<open>clean\<close> is that
  condition for the sequence that is open.
\<close>

definition clean_after :: "term_state \<Rightarrow> bool \<Rightarrow> byte \<Rightarrow> bool" where
  "clean_after st clean b =
    (if b = ESC then fst st = Ground \<or> (asked st b \<and> clean) else clean)"

fun tidy :: "term_state \<Rightarrow> bool \<Rightarrow> bytes \<Rightarrow> bool" where
  "tidy st clean [] = True"
| "tidy st clean (b # bs) =
    ((asked st b \<longrightarrow> clean) \<and> tidy (fst (act_byte st b)) (clean_after st clean b) bs)"

fun cleans :: "term_state \<Rightarrow> bool \<Rightarrow> bytes \<Rightarrow> bool" where
  "cleans st clean [] = clean"
| "cleans st clean (b # bs) = cleans (fst (act_byte st b)) (clean_after st clean b) bs"

lemma tidy_append:
  "tidy st clean (xs @ ys) \<longleftrightarrow>
    tidy st clean xs \<and> tidy (term_after st xs) (cleans st clean xs) ys"
  by (induction xs arbitrary: st clean) auto

abbreviation unasked :: "act list \<Rightarrow> act list" where
  "unasked as \<equiv> filter (\<lambda>a. \<not> asks a) as"

text \<open>
  \<open>Q\<close> is what the quiet viewer was sent before this batch, \<open>A\<close> what the whole stream has made
  a terminal do so far.  Where a sequence is open, the last part says what dropping it would
  leave the quiet viewer with.
\<close>

definition quiet_inv ::
  "bytes \<Rightarrow> act list \<Rightarrow> bytes \<Rightarrow> term_state \<Rightarrow> bool \<Rightarrow> queries \<Rightarrow> scan \<Rightarrow> bool" where
  "quiet_inv Q A p st clean q sc \<longleftrightarrow>
    (let w = (\<lambda>p. Q @ quiet_from p 0 (sc_spans sc));
         dropped = (\<lambda>p. acts fresh (w p) @ map (\<lambda>k. Byte (p ! k)) (q_kept q))
     in term_after fresh (w p) = st \<and> acts fresh (w p) = unasked A \<and>
        (sequence_open (fst st) \<longrightarrow>
          (case q_start q of
             None \<Rightarrow> sequence_open (fst (term_after fresh Q)) \<and>
               acts fresh Q @ map (\<lambda>k. Byte (p ! k)) (q_kept q) = unasked A
           | Some s \<Rightarrow> clean \<longrightarrow>
               term_after fresh (w (take s p)) = fresh \<and>
               acts fresh (w (take s p)) @ map (\<lambda>k. Byte (p ! k)) (q_kept q) = unasked A)))"

lemma kept_controls:
  "\<forall>b \<in> set bs. kept_control b \<Longrightarrow>
    term_after fresh bs = fresh \<and> acts fresh bs = map Byte bs"
proof (induction bs)
  case Nil
  then show ?case by simp
next
  case (Cons b bs)
  have "step Ground b = (Ground, True)"
  proof -
    have "b < 0x20" using Cons.prems by (simp add: kept_control_def)
    then have "\<not> 0xc2 \<le> b" "\<not> 0xe0 \<le> b" "\<not> 0xf0 \<le> b" by unat_arith+
    then show ?thesis using Cons.prems by (simp add: step_def ground_def kept_control_def)
  qed
  with Cons show ?case by (simp add: act_byte_plain kept_control_def)
qed

lemma cancel_open:
  "sequence_open (fst st) \<Longrightarrow> act_byte st CAN = (fresh, [])"
  by (cases st; cases "fst st" rule: state_kinds)
    (auto simp: act_byte_sequence act_byte_string sequence_open_def)

lemma asked_acts: "asked st b \<Longrightarrow> unasked (snd (act_byte st b)) = []"
  using act_byte_one [of st b] by (auto simp: asked_def)

lemma not_asked_acts: "\<not> asked st b \<Longrightarrow> unasked (snd (act_byte st b)) = snd (act_byte st b)"
  by (auto simp: asked_def)

lemma asked_next:
  assumes "asked st b"
  shows "fst (act_byte st b) = (if b = ESC then (Escape, [ESC]) else fresh)"
  using assms
  by (cases st; cases "fst st" rule: state_kinds)
    (auto simp: asked_def act_byte_plain act_byte_sequence act_byte_string split: if_splits)

text \<open>Taking a query out leaves the quiet viewer where the query began, with the controls it
  contained carried out.\<close>

definition without_open :: "bytes \<Rightarrow> queries \<Rightarrow> scan \<Rightarrow> bytes" where
  "without_open p q sc =
    (case q_start q of
       Some s \<Rightarrow> quiet_from (take s p) 0 (sc_spans sc)
     | None \<Rightarrow> [CAN]) @ map ((!) p) (q_kept q)"

lemma quiet_next_span:
  assumes inv: "scan_inv p st q sc" and asked: "asked st b"
  shows "quiet_from (p @ [b]) 0 (sc_spans sc @ [next_span (length p) b q]) =
      without_open p q sc @ (if b = ESC then [ESC] else [])"
    and "b = ESC \<Longrightarrow> quiet_from p 0 (sc_spans sc @ [next_span (length p) b q]) =
      without_open p q sc"
proof -
  let ?sp = "next_span (length p) b q"
  have ok: "spans_ok 0 (sc_spans sc @ [?sp]) (length (p @ [b]))"
    by (rule next_span_ok [OF inv asked])
  have op: "sequence_open (fst st)" using asked asking_open by (simp add: asked_def)
  have kept: "\<forall>k \<in> set (q_kept q). k < length p" using inv by (simp add: scan_inv_def)
  then have kepts: "map ((!) (p @ [b])) (q_kept q) = map ((!) p) (q_kept q)"
    by (simp add: nth_append)
  have start: "sp_start ?sp \<le> length p"
    using inv op by (auto simp: scan_inv_def next_span_def split: option.splits)
  have none: "q_start q = None \<Longrightarrow> sc_spans sc = []"
    using inv op by (simp add: scan_inv_def)
  show "quiet_from (p @ [b]) 0 (sc_spans sc @ [?sp]) =
      without_open p q sc @ (if b = ESC then [ESC] else [])"
    using quiet_snoc [OF ok] start kepts none
    by (auto simp: next_span_def without_open_def split: option.splits)
  show "quiet_from p 0 (sc_spans sc @ [?sp]) = without_open p q sc" if "b = ESC"
  proof -
    have "spans_ok 0 (sc_spans sc @ [?sp]) (length p)"
      using ok that by (rule_tac spans_ok_mono) (auto simp: next_span_def)
    from quiet_snoc [OF this] show ?thesis
      using that none by (auto simp: next_span_def without_open_def split: option.splits)
  qed
qed

lemma quiet_drops_query:
  assumes inv: "scan_inv p st q sc" and quiet: "quiet_inv Q A p st clean q sc"
    and asked: "asked st b" and clean
  shows "term_after fresh (Q @ without_open p q sc) = fresh \<and>
    acts fresh (Q @ without_open p q sc) = unasked A"
proof -
  have op: "sequence_open (fst st)" using asked asking_open by (simp add: asked_def)
  have "\<forall>b \<in> set (map ((!) p) (q_kept q)). kept_control b"
    using inv by (auto simp: scan_inv_def)
  note kept = kept_controls [OF this]
  show ?thesis
  proof (cases "q_start q")
    case None
    with quiet op have "sequence_open (fst (term_after fresh Q))"
      "acts fresh Q @ map (\<lambda>k. Byte (p ! k)) (q_kept q) = unasked A"
      by (auto simp: quiet_inv_def)
    with None kept cancel_open [of "term_after fresh Q"] show ?thesis
      by (simp add: without_open_def comp_def)
  next
    case (Some s)
    with quiet op \<open>clean\<close> kept show ?thesis
      by (simp add: quiet_inv_def without_open_def comp_def)
  qed
qed

lemma quiet_inv_byte:
  assumes inv: "scan_inv p st q sc" and quiet: "quiet_inv Q A p st clean q sc"
    and tidy: "asked st b \<Longrightarrow> clean"
  shows "quiet_inv Q (A @ snd (act_byte st b)) (p @ [b]) (fst (act_byte st b))
    (clean_after st clean b)
    (fst (queries_feed_byte (length p) b (q, sc))) (snd (queries_feed_byte (length p) b (q, sc)))"
proof -
  let ?q = "fst (queries_feed_byte (length p) b (q, sc))"
  let ?sc = "snd (queries_feed_byte (length p) b (q, sc))"
  let ?st = "fst (act_byte st b)"
  have fol: "follows q st" and ok: "spans_ok 0 (sc_spans sc) (length p)"
    using inv by (auto simp: scan_inv_def)
  have sps: "sc_spans ?sc = sc_spans sc @ (if asked st b then [next_span (length p) b q] else [])"
    by (rule feed_byte_spans [OF fol])
  note esc = feed_byte_escape [OF fol]
  show ?thesis
  proof (cases "asked st b")
    case True
    note drops = quiet_drops_query [OF inv quiet True tidy [OF True]]
    note spans = quiet_next_span [OF inv True]
    show ?thesis
    proof (cases "b = ESC")
      case b: True
      then show ?thesis
        using drops spans sps True esc asked_acts [OF True]
        by (simp add: quiet_inv_def act_byte_plain sequence_open_def)
    next
      case False
      then show ?thesis
        using drops spans sps True asked_acts [OF True] asked_next [OF True]
        by (simp add: quiet_inv_def sequence_open_def)
    qed
  next
    case False
    have w: "quiet_from (p @ [b]) 0 (sc_spans ?sc) = quiet_from p 0 (sc_spans sc) @ [b]"
      using sps False quiet_append [OF ok] by simp
    have base: "term_after fresh (Q @ quiet_from p 0 (sc_spans sc)) = st"
      "acts fresh (Q @ quiet_from p 0 (sc_spans sc)) = unasked A"
      using quiet by (auto simp: quiet_inv_def Let_def)
    have new: "unasked (A @ snd (act_byte st b)) = unasked A @ snd (act_byte st b)"
      using not_asked_acts [OF False] by simp
    have main: "term_after fresh (Q @ quiet_from (p @ [b]) 0 (sc_spans ?sc)) = ?st"
      "acts fresh (Q @ quiet_from (p @ [b]) 0 (sc_spans ?sc)) =
        unasked (A @ snd (act_byte st b))"
      using w base new by (simp_all flip: append_assoc)
    show ?thesis
    proof (cases "b = ESC")
      case b: True
      have "clean_after st clean b \<Longrightarrow> st = fresh"
        using False b follows_closed [OF fol] by (cases st) (auto simp: clean_after_def
            sequence_open_def)
      then have "clean_after st clean b \<Longrightarrow>
          term_after fresh (Q @ quiet_from p 0 (sc_spans sc)) = fresh \<and>
          acts fresh (Q @ quiet_from p 0 (sc_spans sc)) = unasked (A @ snd (act_byte st b))"
        using base b by (auto simp: act_byte_plain)
      with b main sps False esc show ?thesis
        unfolding quiet_inv_def by (simp del: term_after_append acts_append)
    next
      case nb: False
      show ?thesis
      proof (cases "sequence_open (fst ?st)")
        case True
        note op = feed_byte_open [OF fol True nb]
        have kept: "map (\<lambda>k. Byte ((p @ [b]) ! k)) (q_kept ?q) =
            map (\<lambda>k. Byte (p ! k)) (q_kept q) @ snd (act_byte st b)"
          using inv op(3,4) by (auto simp: scan_inv_def nth_append)
        show ?thesis
        proof (cases "q_start q")
          case None
          with quiet op True main kept new nb sps False show ?thesis
            unfolding quiet_inv_def Let_def clean_after_def
            by (simp add: kept del: map_append flip: append_assoc)
        next
          case (Some s)
          with inv op(1) have "take s (p @ [b]) = take s p" by (simp add: scan_inv_def)
          with Some quiet op(1,2) True main kept new nb sps False show ?thesis
            unfolding quiet_inv_def Let_def clean_after_def
            by (simp add: kept del: map_append flip: append_assoc)
        qed
      next
        case closed: False
        with main show ?thesis by (simp add: quiet_inv_def)
      qed
    qed
  qed
qed

lemma quiet_inv_loop:
  assumes "scan_inv p st q sc" and "quiet_inv Q A p st clean q sc" and "tidy st clean bs"
  shows "quiet_inv Q (A @ acts st bs) (p @ bs) (term_after st bs) (cleans st clean bs)
    (fst (queries_loop (length p) bs (q, sc))) (snd (queries_loop (length p) bs (q, sc)))"
  using assms
proof (induction bs arbitrary: p st q sc A clean)
  case Nil
  then show ?case by simp
next
  case (Cons b bs)
  then have "asked st b \<Longrightarrow> clean" by simp
  from Cons.IH [OF scan_inv_byte [OF Cons.prems(1), of b] quiet_inv_byte [OF Cons.prems(1,2) this]]
    Cons.prems(3)
  show ?case by simp
qed

lemma quiet_inv_start:
  assumes "follows q st" and "term_after fresh Q = st" and "acts fresh Q = unasked A"
  shows "quiet_inv Q A [] st clean (q\<lparr>q_start := None, q_kept := []\<rparr>) scan_default"
  using assms by (simp add: quiet_inv_def scan_default_def)

lemma quiet_stream_draws:
  assumes "follows q st" and "term_after fresh Q = st" and "acts fresh Q = unasked A"
    and "tidy st clean (concat batches)"
  shows "\<exists>w. quiet_stream q batches = Some w \<and>
    term_after fresh (Q @ w) = term_after st (concat batches) \<and>
    acts fresh (Q @ w) = unasked (A @ acts st (concat batches))"
  using assms
proof (induction batches arbitrary: q st Q A clean)
  case Nil
  then show ?case by simp
next
  case (Cons b bs)
  obtain q' sc where one: "queries_feed q b = (q', sc)" by (cases "queries_feed q b")
  define w where "w = quiet_from b 0 (sc_spans sc)"
  have tidy: "tidy st clean b" "tidy (term_after st b) (cleans st clean b) (concat bs)"
    using Cons.prems(4) by (auto simp: tidy_append)
  have "quiet_inv Q (A @ acts st b) b (term_after st b) (cleans st clean b) q' sc"
    using quiet_inv_loop [OF scan_inv_start [OF Cons.prems(1)]
        quiet_inv_start [OF Cons.prems(1-3)] tidy(1)] one
    by (simp add: queries_feed_def)
  then have "term_after fresh (Q @ w) = term_after st b"
    "acts fresh (Q @ w) = unasked (A @ acts st b)"
    by (simp_all add: quiet_inv_def Let_def w_def)
  moreover have "follows q' (term_after st b)"
    using queries_feed_follows(1) [OF Cons.prems(1), of b] one by simp
  moreover have "scan_without sc b = Some w"
    using feed_without [OF Cons.prems(1), of b] one by (simp add: w_def)
  ultimately show ?case
    using Cons.IH [of q' "term_after st b" "Q @ w" "A @ acts st b", OF _ _ _ tidy(2)] one
    by fastforce
qed

text \<open>
  C33. A viewer sent the copies without the queries does
  everything the stream makes a terminal do, in the same order, but for the queries, which it
  never sees; and it ends in the same parser state.  This holds wherever the output is cut, for
  every stream in which no query begins inside a sequence or character left unfinished.
\<close>

theorem quiet_viewer_draws_the_same:
  assumes "tidy fresh True (concat batches)"
  shows "\<exists>w. quiet_stream queries_default batches = Some w \<and>
    acts fresh w = filter (\<lambda>a. \<not> asks a) (acts fresh (concat batches)) \<and>
    term_after fresh w = term_after fresh (concat batches)"
  using quiet_stream_draws [OF follows_default _ _ assms, of "[]" "[]"] by auto

theorem quiet_viewer_draws_the_same_witness:
  "\<exists>w. quiet_stream queries_default
      [ascii ''a'' @ [0x1b] @ ascii ''[6'', [0x0a] @ ascii ''nb'' @ [0x1b] @ ascii '']11;?'',
       [0x1b, 0x5c]] = Some w \<and>
    acts fresh w = filter (\<lambda>a. \<not> asks a) (acts fresh (concat
      [ascii ''a'' @ [0x1b] @ ascii ''[6'', [0x0a] @ ascii ''nb'' @ [0x1b] @ ascii '']11;?'',
       [0x1b, 0x5c]])) \<and>
    term_after fresh w = term_after fresh (concat
      [ascii ''a'' @ [0x1b] @ ascii ''[6'', [0x0a] @ ascii ''nb'' @ [0x1b] @ ascii '']11;?'',
       [0x1b, 0x5c]])"
  by (rule quiet_viewer_draws_the_same) code_simp


end
