(* ===== verification/Control.thy ===== *)
theory Control
  imports Queries
begin

text \<open>
  \<open>crates/pty-host/src/control.rs\<close>: who may type into a session, and for how long.  One record
  holds the generation, the hold in force and how long holds last; every operation first lets
  a hold that has run out lapse, and returns its result with the new state.  The time an
  operation happens is its argument \<open>now\<close>, and a new lease's identifier, a random UUID, is an
  argument of \<open>control_acquire\<close>.  The lemmas show that a lease that was lost never types again,
  that input under a lease is written once and in order, and who may take control from whom.
\<close>

section \<open>Leases\<close>

definition LEASE_TTL :: duration where "LEASE_TTL = secs 30"
definition RENEW_EVERY :: duration where "RENEW_EVERY = secs 10"
definition LOCAL_HOLD :: duration where "LOCAL_HOLD = secs 30"

record holds =
  h_local :: duration
  h_lease :: duration

definition holds_default :: holds where
  "holds_default = \<lparr>h_local = LOCAL_HOLD, h_lease = LEASE_TTL\<rparr>"

definition MAX_HOLDER :: nat where
  "MAX_HOLDER = 128"

datatype controller = Nobody | Local | Leased bytes

record lease =
  lease_id :: string
  lease_generation :: nat
  ttl_ms :: nat
  renew_every_ms :: nat

record lease_ref =
  ref_id :: string
  ref_generation :: nat

definition lease_reference :: "lease \<Rightarrow> lease_ref" where
  "lease_reference l = \<lparr>ref_id = lease_id l, ref_generation = lease_generation l\<rparr>"

datatype refusal =
    Lost
  | OutOfOrder nat nat
  | Held controller
  | BadHolder

datatype delivery = Fresh | Repeat

text \<open>\<open>enum State\<close> of the module.\<close>

datatype hold =
    HNobody
  | HLocal instant
  | HLeased bytes string instant nat

record control =
  c_generation :: nat
  c_state :: hold
  c_holds :: holds

definition control_new :: "holds \<Rightarrow> control" where
  "control_new hs = \<lparr>c_generation = 0, c_state = HNobody, c_holds = hs\<rparr>"

definition control_default :: control where
  "control_default = control_new holds_default"

text \<open>\<open>char::is_control\<close> of some character of a UTF-8 string: a C0 control, \<open>DEL\<close>, or a C1
  control, whose first byte is \<open>0xc2\<close>.\<close>

fun any_control :: "bytes \<Rightarrow> bool" where
  "any_control [] = False"
| "any_control (b # bs) =
    (b < 0x20 \<or> b = DEL \<or> (b = 0xc2 \<and> (case bs of c # _ \<Rightarrow> 0x80 \<le> c \<and> c \<le> 0x9f | [] \<Rightarrow> False))
      \<or> any_control bs)"

definition millis :: "duration \<Rightarrow> nat" where
  "millis d = min (d div 1000000) (2 ^ 32 - 1)"

definition lapsed :: "instant \<Rightarrow> control \<Rightarrow> bool" where
  "lapsed now c =
    (case c_state c of
       HNobody \<Rightarrow> False
     | HLocal t \<Rightarrow> h_local (c_holds c) \<le> now - t
     | HLeased _ _ expires _ \<Rightarrow> expires \<le> now)"

definition control_lapse :: "instant \<Rightarrow> control \<Rightarrow> control" where
  "control_lapse now c =
    (if lapsed now c then c\<lparr>c_generation := c_generation c + 1, c_state := HNobody\<rparr> else c)"

definition control_lapses_at :: "control \<Rightarrow> instant option" where
  "control_lapses_at c =
    (case c_state c of
       HNobody \<Rightarrow> None
     | HLocal t \<Rightarrow> Some (t + h_local (c_holds c))
     | HLeased _ _ expires _ \<Rightarrow> Some expires)"

fun controller_of :: "hold \<Rightarrow> controller" where
  "controller_of HNobody = Nobody"
| "controller_of (HLocal _) = Local"
| "controller_of (HLeased h _ _ _) = Leased h"

definition control_controller :: "instant \<Rightarrow> control \<Rightarrow> controller \<times> control" where
  "control_controller now c = (let c = control_lapse now c in (controller_of (c_state c), c))"

fun is_leased :: "hold \<Rightarrow> bool" where
  "is_leased (HLeased _ _ _ _) = True"
| "is_leased _ = False"

fun is_local :: "hold \<Rightarrow> bool" where
  "is_local (HLocal _) = True"
| "is_local _ = False"

definition control_leased :: "instant \<Rightarrow> control \<Rightarrow> bool \<times> control" where
  "control_leased now c = (let c = control_lapse now c in (is_leased (c_state c), c))"

definition control_local_input :: "instant \<Rightarrow> control \<Rightarrow> bool \<times> control" where
  "control_local_input now c =
    (let c = control_lapse now c; took = is_leased (c_state c);
         c = (if is_local (c_state c) then c else c\<lparr>c_generation := c_generation c + 1\<rparr>)
     in (took, c\<lparr>c_state := HLocal now\<rparr>))"

definition control_lease :: "control \<Rightarrow> string \<Rightarrow> lease" where
  "control_lease c i =
    \<lparr>lease_id = i, lease_generation = c_generation c, ttl_ms = millis (h_lease (c_holds c)),
      renew_every_ms = millis (h_lease (c_holds c) div 3)\<rparr>"

definition control_acquire ::
  "bytes \<Rightarrow> bool \<Rightarrow> string \<Rightarrow> instant \<Rightarrow> control \<Rightarrow> (refusal + lease) \<times> control" where
  "control_acquire holder take_over uuid now c =
    (if holder = [] \<or> MAX_HOLDER < length holder \<or> any_control holder then (Inl BadHolder, c)
     else
       let (who, c) = control_controller now c;
           granted =
             (let c = c\<lparr>c_generation := c_generation c + 1,
                  c_state := HLeased holder uuid (now + h_lease (c_holds c)) 0\<rparr>
              in (Inr (control_lease c uuid), c))
       in case who of
            Local \<Rightarrow> (Inl (Held Local), c)
          | Leased other \<Rightarrow>
              if other \<noteq> holder \<and> \<not> take_over then (Inl (Held (Leased other)), c) else granted
          | Nobody \<Rightarrow> granted)"

definition in_force :: "lease_ref \<Rightarrow> control \<Rightarrow> bool" where
  "in_force ref c \<longleftrightarrow>
    (case c_state c of HLeased _ i _ _ \<Rightarrow> i = ref_id ref | _ \<Rightarrow> False)
    \<and> c_generation c = ref_generation ref"

definition control_check :: "lease_ref \<Rightarrow> instant \<Rightarrow> control \<Rightarrow> (refusal + unit) \<times> control" where
  "control_check ref now c =
    (let c = control_lapse now c in (if in_force ref c then Inr () else Inl Lost, c))"

definition set_expires :: "instant \<Rightarrow> hold \<Rightarrow> hold" where
  "set_expires t h = (case h of HLeased who i _ n \<Rightarrow> HLeased who i t n | _ \<Rightarrow> h)"

definition control_renew :: "lease_ref \<Rightarrow> instant \<Rightarrow> control \<Rightarrow> (refusal + lease) \<times> control" where
  "control_renew ref now c =
    (case control_check ref now c of
       (Inl e, c) \<Rightarrow> (Inl e, c)
     | (Inr _, c) \<Rightarrow>
         (let c = c\<lparr>c_state := set_expires (now + h_lease (c_holds c)) (c_state c)\<rparr>
          in (Inr (control_lease c (ref_id ref)), c)))"

definition control_release :: "lease_ref \<Rightarrow> instant \<Rightarrow> control \<Rightarrow> bool \<times> control" where
  "control_release ref now c =
    (case control_check ref now c of
       (Inl _, c) \<Rightarrow> (False, c)
     | (Inr _, c) \<Rightarrow> (True, c\<lparr>c_generation := c_generation c + 1, c_state := HNobody\<rparr>))"

definition control_input ::
  "lease_ref \<Rightarrow> nat \<Rightarrow> instant \<Rightarrow> control \<Rightarrow> (refusal + delivery) \<times> control" where
  "control_input ref sq now c =
    (case control_check ref now c of
       (Inl e, c) \<Rightarrow> (Inl e, c)
     | (Inr _, c) \<Rightarrow>
         (case c_state c of
            HLeased who i t n \<Rightarrow>
              if sq \<le> n then (Inr Repeat, c)
              else if sq \<noteq> n + 1 then (Inl (OutOfOrder (n + 1) sq), c)
              else (Inr Fresh, c\<lparr>c_state := HLeased who i t sq\<rparr>)
          | _ \<Rightarrow> (Inl Lost, c)))"

section \<open>What is not typing\<close>

definition moved_without_a_button :: "u16 \<Rightarrow> bool" where
  "moved_without_a_button button \<longleftrightarrow>
    button < 64 \<and> button AND 32 \<noteq> 0 \<and> button AND 3 = 3"

definition strip_prefix :: "bytes \<Rightarrow> bytes \<Rightarrow> bytes option" where
  "strip_prefix pre bs = (if prefix pre bs then Some (drop (length pre) bs) else None)"

text \<open>The button, when there are three numbers and no more.\<close>

fun first_of_three :: "nat option list \<Rightarrow> nat option" where
  "first_of_three [Some button, Some _, Some _] = Some button"
| "first_of_three _ = None"

text \<open>An SGR mouse report after its \<open>ESC [\<close>: what follows it, when it is a movement with no
  button held.  A field that is not UTF-8 is no number, so the check that the fields are text
  adds nothing.\<close>

definition mouse_moved :: "bytes \<Rightarrow> bytes option" where
  "mouse_moved body =
    do {
      m \<leftarrow> strip_prefix [0x3c] body;
      let fields = takeWhile (\<lambda>b. b \<noteq> 0x4d) m;
      if 0x4d \<notin> set m then None
      else
        do {
          button \<leftarrow> first_of_three (map (parse_uint 65535) (split_on 0x3b fields));
          if moved_without_a_button (of_nat button) then Some (drop (length fields + 1) m) else None
        }
    }"

lemma mouse_moved_shorter: "mouse_moved body = Some after \<Longrightarrow> length after < length body"
  by (auto simp: mouse_moved_def strip_prefix_def prefix_def bind_eq_Some_conv Let_def
      split: if_splits)

function presence_from :: "bytes \<Rightarrow> bytes \<Rightarrow> bytes option" where
  "presence_from rest focus =
    (if rest = [] then Some focus
     else case strip_prefix [0x1b, 0x5b] rest of
       None \<Rightarrow> None
     | Some body \<Rightarrow>
         if body \<noteq> [] \<and> hd body \<in> {0x49, 0x4f}
         then presence_from (tl body) (focus @ take 3 rest)
         else case mouse_moved body of
           None \<Rightarrow> None
         | Some after \<Rightarrow> presence_from after focus)"
  by pat_completeness auto
termination
  by (relation "measure (\<lambda>(rest, _). length rest)")
    (auto simp: strip_prefix_def prefix_def split: if_splits dest!: mouse_moved_shorter)

declare presence_from.simps [simp del]

definition presence :: "bytes \<Rightarrow> bytes option" where
  "presence input = (if input = [] then None else presence_from input [])"

section \<open>Steps\<close>

text \<open>A call that reaches the record, and the sequence of calls a session makes.\<close>

datatype control_op =
    Look
  | Type_Locally
  | Acquire bytes bool string
  | Check lease_ref
  | Renew lease_ref
  | Release lease_ref
  | Input lease_ref nat

fun control_step :: "control_op \<times> instant \<Rightarrow> control \<Rightarrow> control" where
  "control_step (Look, now) c = snd (control_controller now c)"
| "control_step (Type_Locally, now) c = snd (control_local_input now c)"
| "control_step (Acquire h take_over u, now) c = snd (control_acquire h take_over u now c)"
| "control_step (Check ref, now) c = snd (control_check ref now c)"
| "control_step (Renew ref, now) c = snd (control_renew ref now c)"
| "control_step (Release ref, now) c = snd (control_release ref now c)"
| "control_step (Input ref n, now) c = snd (control_input ref n now c)"

fun lease_owner :: "hold \<Rightarrow> string option" where
  "lease_owner (HLeased _ i _ _) = Some i"
| "lease_owner _ = None"

lemmas control_ops =
  control_controller_def control_leased_def control_local_input_def control_acquire_def
  control_check_def control_renew_def control_release_def control_input_def

lemma lapse_generation: "c_generation c \<le> c_generation (control_lapse now c)"
  by (simp add: control_lapse_def)

lemma lapse_owner:
  "c_generation (control_lapse now c) = c_generation c \<Longrightarrow> control_lapse now c = c"
  by (simp add: control_lapse_def split: if_splits)

lemma lapse_holds [simp]: "c_holds (control_lapse now c) = c_holds c"
  by (simp add: control_lapse_def)

lemma in_force_iff:
  "in_force ref c \<longleftrightarrow>
    lease_owner (c_state c) = Some (ref_id ref) \<and> c_generation c = ref_generation ref"
  by (auto simp: in_force_def split: hold.splits)

lemma local_owner [simp]: "is_local h \<Longrightarrow> lease_owner h = None"
  by (cases h) auto

lemma set_expires_owner [simp]: "lease_owner (set_expires t h) = lease_owner h"
  by (cases h) (auto simp: set_expires_def)

lemma control_step_generation: "c_generation c \<le> c_generation (control_step x c)"
  using lapse_generation [of c "snd x"]
  by (cases x; cases "fst x")
    (auto simp: control_ops Let_def split: prod.splits sum.splits hold.splits controller.splits)

lemma control_step_owner:
  assumes "c_generation (control_step x c) = c_generation c"
  shows "lease_owner (c_state (control_step x c)) = lease_owner (c_state c)"
  using assms lapse_generation [of c "snd x"] lapse_owner [of "snd x" c]
  by (cases x; cases "fst x")
    (auto simp: control_ops Let_def
      split: prod.splits sum.splits hold.splits controller.splits if_splits)

interpretation cf: fencing control_step c_generation "\<lambda>c. lease_owner (c_state c)"
  by unfold_locales (rule control_step_generation, erule control_step_owner)

section \<open>A lease that is gone\<close>

lemma check_lost_iff: "fst (control_check ref now c) = Inl Lost \<longleftrightarrow> \<not> in_force ref (control_lapse now c)"
  by (simp add: control_check_def Let_def)

lemma acquire_granted:
  assumes "control_acquire h take_over u now c = (Inr l, c')"
  shows "c_generation c < c_generation c'" and "c_state c' = HLeased h u (now + h_lease (c_holds c)) 0"
    and "l = control_lease c' u" and "c_holds c' = c_holds c" and "in_force (lease_reference l) c'"
  using assms lapse_generation [of c now]
  by (auto simp: control_acquire_def control_controller_def control_lease_def Let_def
      lease_reference_def in_force_def split: if_splits controller.splits)

lemma not_in_force_later:
  assumes "ref_generation ref \<le> c_generation c" and "\<not> in_force ref c"
  shows "\<not> in_force ref (fold control_step ops c)"
  using cf.lost_for_ever [of "ref_generation ref" c "ref_id ref" ops] assms
  by (simp add: in_force_iff)

lemma not_in_force_lapse:
  "ref_generation ref \<le> c_generation c \<Longrightarrow> \<not> in_force ref c \<Longrightarrow> \<not> in_force ref (control_lapse now c)"
  using not_in_force_later [of ref c "[(Look, now)]"]
  by (simp add: control_controller_def Let_def)

lemma refused_when_lost:
  assumes "\<not> in_force ref (control_lapse now c)"
  shows "control_check ref now c = (Inl Lost, control_lapse now c)"
    and "control_renew ref now c = (Inl Lost, control_lapse now c)"
    and "control_input ref n now c = (Inl Lost, control_lapse now c)"
    and "control_release ref now c = (False, control_lapse now c)"
  using assms
  by (simp_all add: control_check_def control_renew_def control_input_def control_release_def Let_def)

text \<open>C5. A lease that was granted and then, at any later call, found lost is lost for good:
  whatever is called afterwards, in whatever order and by whomever, the lease is never good again.
  Every check, renewal and input under it is refused as lost, its release changes nothing, and
  none of them alters the state beyond letting a hold that ran out lapse.\<close>

theorem lost_lease_never_types_again:
  assumes "control_acquire h take_over u t0 c0 = (Inr l, c1)"
    and "ref = lease_reference l"
    and "fst (control_check ref t1 (fold control_step ops1 c1)) = Inl Lost"
    and "c = fold control_step ops2 (snd (control_check ref t1 (fold control_step ops1 c1)))"
  shows "control_check ref t c = (Inl Lost, control_lapse t c)
    \<and> control_renew ref t c = (Inl Lost, control_lapse t c)
    \<and> control_input ref n t c = (Inl Lost, control_lapse t c)
    \<and> control_release ref t c = (False, control_lapse t c)"
proof -
  let ?c2 = "snd (control_check ref t1 (fold control_step ops1 c1))"
  have gone: "\<not> in_force ref (control_lapse t1 (fold control_step ops1 c1))"
    using assms(3) by (simp add: check_lost_iff)
  then have c2: "?c2 = control_lapse t1 (fold control_step ops1 c1)"
    by (simp add: refused_when_lost)
  have "ref_generation ref = c_generation c1"
    using acquire_granted(5) [OF assms(1)] assms(2) by (simp add: in_force_iff)
  also have "\<dots> \<le> c_generation ?c2"
    using cf.run_mono [of c1 ops1] lapse_generation [of "fold control_step ops1 c1" t1] c2 by simp
  finally have old: "ref_generation ref \<le> c_generation ?c2" .
  then have "ref_generation ref \<le> c_generation c"
    using cf.run_mono [of ?c2 ops2] assms(4) by simp
  moreover have "\<not> in_force ref c"
    using not_in_force_later [OF old] gone c2 assms(4) by simp
  ultimately have "\<not> in_force ref (control_lapse t c)" by (rule not_in_force_lapse)
  then show ?thesis by (simp add: refused_when_lost)
qed

lemmas control_evals = control_ops Let_def control_default_def control_new_def holds_default_def
  LEASE_TTL_def LOCAL_HOLD_def MAX_HOLDER_def DEL_def control_lease_def millis_def
  control_lapse_def lapsed_def in_force_def lease_reference_def set_expires_def

theorem lost_lease_never_types_again_witness:
  "\<exists>l c1 c2 c.
    control_acquire (ascii ''phone'') False ''a'' 0 control_default = (Inr l, c1)
    \<and> c2 = fold control_step [(Type_Locally, 4)] c1
    \<and> fst (control_check (lease_reference l) 5 c2) = Inl Lost
    \<and> c = fold control_step [(Look, secs 60), (Acquire (ascii ''phone'') False ''a'', secs 61)]
            (snd (control_check (lease_reference l) 5 c2))
    \<and> fst (control_input (lease_reference l) 1 (secs 62) c) = Inl Lost
    \<and> fst (control_controller (secs 62) c) = Leased (ascii ''phone'')"
proof -
  let ?l = "\<lparr>lease_id = ''a'', lease_generation = 1, ttl_ms = 30000, renew_every_ms = 10000\<rparr>"
  let ?c1 = "\<lparr>c_generation = 1, c_state = HLeased (ascii ''phone'') ''a'' (secs 30) 0,
    c_holds = holds_default\<rparr>"
  have g: "control_acquire (ascii ''phone'') False ''a'' 0 control_default = (Inr ?l, ?c1)"
    by (simp add: control_evals)
  let ?c2 = "fold control_step [(Type_Locally, 4)] ?c1"
  let ?c = "fold control_step [(Look, secs 60), (Acquire (ascii ''phone'') False ''a'', secs 61)]
    (snd (control_check (lease_reference ?l) 5 ?c2))"
  have lost: "fst (control_check (lease_reference ?l) 5 ?c2) = Inl Lost"
    and who: "fst (control_controller (secs 62) ?c) = Leased (ascii ''phone'')"
    by (simp_all add: control_evals)
  have "control_input (lease_reference ?l) 1 (secs 62) ?c = (Inl Lost, control_lapse (secs 62) ?c)"
    using lost_lease_never_types_again [OF g refl lost refl] by blast
  then have "fst (control_input (lease_reference ?l) 1 (secs 62) ?c) = Inl Lost" by simp
  with g lost who show ?thesis by blast
qed

section \<open>Input under a lease\<close>

text \<open>The numbers of the inputs that were written under a lease, in the order they were written.\<close>

fun written_under :: "lease_ref \<Rightarrow> (control_op \<times> instant) list \<Rightarrow> control \<Rightarrow> nat list" where
  "written_under ref [] c = []"
| "written_under ref (x # xs) c =
    (case x of
       (Input r n, now) \<Rightarrow>
         if r = ref \<and> fst (control_input r n now c) = Inr Fresh then [n] else []
     | _ \<Rightarrow> []) @ written_under ref xs (control_step x c)"

lemma nothing_written_when_lost:
  "ref_generation ref \<le> c_generation c \<Longrightarrow> \<not> in_force ref c \<Longrightarrow> written_under ref xs c = []"
proof (induction xs arbitrary: c)
  case Nil
  then show ?case by simp
next
  case (Cons x xs)
  have "\<not> in_force ref (control_step x c)"
    using not_in_force_later [OF Cons.prems, of "[x]"] by simp
  moreover have "ref_generation ref \<le> c_generation (control_step x c)"
    using Cons.prems(1) control_step_generation [of c x] by simp
  ultimately have "written_under ref xs (control_step x c) = []" by (rule Cons.IH [rotated])
  moreover have "fst (control_input ref n now c) \<noteq> Inr Fresh" for n now
    using not_in_force_lapse [OF Cons.prems] by (simp add: refused_when_lost)
  ultimately show ?case by (auto split: prod.splits control_op.splits)
qed

text \<open>How many inputs have been written under the lease in force.\<close>

fun inputs_so_far :: "hold \<Rightarrow> nat" where
  "inputs_so_far (HLeased _ _ _ n) = n"
| "inputs_so_far _ = 0"

lemma set_expires_inputs [simp]: "inputs_so_far (set_expires t h) = inputs_so_far h"
  by (cases h) (auto simp: set_expires_def)

lemma control_input_fresh:
  "fst (control_input ref n now c) = Inr Fresh \<longleftrightarrow>
    in_force ref (control_lapse now c) \<and> n = inputs_so_far (c_state (control_lapse now c)) + 1"
  by (auto simp: control_input_def control_check_def Let_def in_force_def split: hold.splits)

lemma in_force_unique: "in_force r c \<Longrightarrow> in_force r' c \<Longrightarrow> r = r'"
  by (auto simp: in_force_iff)

lemma in_force_lapse: "in_force ref (control_lapse now c) \<Longrightarrow> in_force ref c \<and> control_lapse now c = c"
  by (auto simp: control_lapse_def in_force_def split: if_splits)

lemma step_inputs:
  assumes "in_force ref c" and "in_force ref (control_step x c)"
  shows "inputs_so_far (c_state (control_step x c)) =
    (case x of (Input r n, now) \<Rightarrow>
       if r = ref \<and> fst (control_input r n now c) = Inr Fresh then n else inputs_so_far (c_state c)
     | _ \<Rightarrow> inputs_so_far (c_state c))"
proof -
  have same: "c_generation (control_step x c) = c_generation c"
    using assms by (simp add: in_force_iff)
  show ?thesis
    using assms same lapse_generation [of c "snd x"] lapse_owner [of "snd x" c] in_force_unique [of ref c]
    by (cases x; cases "fst x")
      (auto simp: control_ops Let_def in_force_def control_input_fresh
        split: prod.splits sum.splits hold.splits controller.splits if_splits)
qed

lemma fresh_keeps: "fst (control_input ref n now c) = Inr Fresh \<Longrightarrow> in_force ref (control_step (Input ref n, now) c)"
  by (auto simp: control_input_def control_check_def Let_def in_force_def split: hold.splits if_splits)

lemma written_from:
  assumes "in_force ref c"
  shows "\<exists>k. written_under ref xs c = [inputs_so_far (c_state c) + 1 ..< inputs_so_far (c_state c) + 1 + k]"
  using assms
proof (induction xs arbitrary: c)
  case Nil
  then show ?case by (auto intro!: exI [of _ 0])
next
  case (Cons x xs)
  let ?c = "control_step x c"
  have fresh: "n = inputs_so_far (c_state c) + 1" if "fst (control_input ref n now c) = Inr Fresh" for n now
    using that by (auto simp: control_input_fresh dest: in_force_lapse)
  show ?case
  proof (cases "in_force ref ?c")
    case True
    then obtain k where k: "written_under ref xs ?c =
        [inputs_so_far (c_state ?c) + 1 ..< inputs_so_far (c_state ?c) + 1 + k]"
      using Cons.IH by blast
    show ?thesis
    proof (cases "\<exists>n now. x = (Input ref n, now) \<and> fst (control_input ref n now c) = Inr Fresh")
      case True
      then obtain n now where x: "x = (Input ref n, now)" "fst (control_input ref n now c) = Inr Fresh"
        by blast
      with fresh have n: "n = inputs_so_far (c_state c) + 1" by blast
      then have "inputs_so_far (c_state ?c) = n"
        using step_inputs [OF Cons.prems \<open>in_force ref ?c\<close>] x by simp
      then have "written_under ref (x # xs) c =
          [inputs_so_far (c_state c) + 1 ..< inputs_so_far (c_state c) + 1 + Suc k]"
        using k x n by (simp add: upt_rec)
      then show ?thesis by blast
    next
      case False
      then have "inputs_so_far (c_state ?c) = inputs_so_far (c_state c)"
        using step_inputs [OF Cons.prems \<open>in_force ref ?c\<close>] by (auto split: prod.splits control_op.splits)
      then show ?thesis
        using k False by (auto split: prod.splits control_op.splits)
    qed
  next
    case False
    have "ref_generation ref \<le> c_generation ?c"
      using Cons.prems control_step_generation [of c x] by (simp add: in_force_iff)
    then have "written_under ref xs ?c = []"
      using False by (rule nothing_written_when_lost)
    then have "written_under ref (x # xs) c = []"
      using False by (auto simp del: control_step.simps split: prod.splits control_op.splits dest!: fresh_keeps)
    then show ?thesis by (auto intro: exI [of _ 0])
  qed
qed

text \<open>C6. However a lease's holder sends its input, whatever it repeats, skips or sends in the wrong
  order, and whatever everyone else does meanwhile, the inputs written under the lease are
  numbers 1, 2, 3 and so on, each once, in that order and without a gap.\<close>

theorem input_written_once_in_order:
  assumes "control_acquire h take_over u t0 c0 = (Inr l, c1)"
  shows "\<exists>k. written_under (lease_reference l) ops c1 = [1 ..< 1 + k]"
proof -
  have "inputs_so_far (c_state c1) = 0" using acquire_granted(2) [OF assms] by simp
  then show ?thesis
    using written_from [OF acquire_granted(5) [OF assms], of ops] by simp
qed

theorem input_written_once_in_order_witness:
  "\<exists>l c1 k. control_acquire (ascii ''phone'') False ''a'' 0 control_default = (Inr l, c1)
    \<and> written_under (lease_reference l)
        [(Input (lease_reference l) 1, 1), (Input (lease_reference l) 1, 2), (Input (lease_reference l) 3, 3),
         (Input (lease_reference l) 2, 4), (Type_Locally, 5), (Input (lease_reference l) 3, 6)] c1 = [1 ..< 1 + k]
    \<and> k = 2"
proof -
  let ?l = "\<lparr>lease_id = ''a'', lease_generation = 1, ttl_ms = 30000, renew_every_ms = 10000\<rparr>"
  let ?c1 = "\<lparr>c_generation = 1, c_state = HLeased (ascii ''phone'') ''a'' (secs 30) 0,
    c_holds = holds_default\<rparr>"
  have g: "control_acquire (ascii ''phone'') False ''a'' 0 control_default = (Inr ?l, ?c1)"
    by (simp add: control_evals)
  let ?ops = "[(Input (lease_reference ?l) 1, 1), (Input (lease_reference ?l) 1, 2), (Input (lease_reference ?l) 3, 3),
    (Input (lease_reference ?l) 2, 4), (Type_Locally, 5), (Input (lease_reference ?l) 3, 6)]"
  have two: "written_under (lease_reference ?l) ?ops ?c1 = [1, 2]"
    by (simp add: control_evals)
  obtain k where k: "written_under (lease_reference ?l) ?ops ?c1 = [1 ..< 1 + k]"
    using input_written_once_in_order [OF g] by blast
  with two have "k = 2" by (metis add_diff_cancel_left' length_Cons length_upt list.size(3) One_nat_def Suc_1)
  with g k show ?thesis by blast
qed

section \<open>Who wins\<close>

lemma local_step:
  assumes "c_state c = HLocal t" and "t0 \<le> t" and "t0 \<le> now" and "now < t0 + h_local (c_holds c)"
  shows "\<exists>t. c_state (control_step (op, now) c) = HLocal t \<and> t0 \<le> t
    \<and> c_holds (control_step (op, now) c) = c_holds c"
proof -
  have "control_lapse now c = c" using assms by (auto simp: control_lapse_def lapsed_def)
  then show ?thesis
    using assms
    by (cases op)
      (auto simp: control_ops Let_def in_force_def split: prod.splits sum.splits hold.splits controller.splits)
qed

lemma local_run:
  assumes "c_state c = HLocal t" and "t0 \<le> t"
    and "\<forall>(op, now) \<in> set ops. t0 \<le> now \<and> now < t0 + h_local (c_holds c)"
  shows "\<exists>t. c_state (fold control_step ops c) = HLocal t \<and> t0 \<le> t
    \<and> c_holds (fold control_step ops c) = c_holds c"
  using assms
proof (induction ops arbitrary: c t)
  case Nil
  then show ?case by simp
next
  case (Cons x ops)
  obtain op now where x: "x = (op, now)" by fastforce
  then obtain t' where "c_state (control_step x c) = HLocal t'" "t0 \<le> t'"
      "c_holds (control_step x c) = c_holds c"
    using local_step [OF Cons.prems(1,2), of now op] Cons.prems(3) by auto
  with Cons.IH [of "control_step x c" t'] Cons.prems(3) show ?case by simp
qed

text \<open>C25. From the moment something is typed at the computer until the local hold has passed without
  more, the person there controls the session, whatever anyone asks in between: every lease
  asked for with a proper name is refused as held locally, also with \<open>take_over\<close> and whoever
  held one before, and no input under any lease is written.\<close>

theorem local_input_wins:
  assumes "\<forall>(op, now) \<in> set ops. t0 \<le> now \<and> now < t0 + h_local (c_holds c0)"
    and "t0 \<le> now" and "now < t0 + h_local (c_holds c0)"
    and "c = fold control_step ops (snd (control_local_input t0 c0))"
  shows "fst (control_controller now c) = Local
    \<and> (h \<noteq> [] \<longrightarrow> length h \<le> MAX_HOLDER \<longrightarrow> \<not> any_control h \<longrightarrow>
        fst (control_acquire h take_over u now c) = Inl (Held Local))
    \<and> fst (control_input ref n now c) = Inl Lost \<and> fst (control_renew ref now c) = Inl Lost"
proof -
  have "c_state (snd (control_local_input t0 c0)) = HLocal t0"
    "c_holds (snd (control_local_input t0 c0)) = c_holds c0"
    by (simp_all add: control_local_input_def Let_def)
  then obtain t where t: "c_state c = HLocal t" "t0 \<le> t" "c_holds c = c_holds c0"
    using local_run [of "snd (control_local_input t0 c0)" t0 t0 ops] assms by auto
  then have "control_lapse now c = c" using assms by (auto simp: control_lapse_def lapsed_def)
  with t show ?thesis
    by (simp add: control_controller_def control_acquire_def refused_when_lost in_force_def Let_def)
qed

theorem local_input_wins_witness:
  "\<exists>c1. c1 = snd (control_acquire (ascii ''phone'') False ''a'' 0 control_default)
    \<and> fst (control_acquire (ascii ''tablet'') True ''b'' (secs 35)
          (fold control_step [(Acquire (ascii ''phone'') True ''c'', secs 20)]
             (snd (control_local_input (secs 10) c1)))) = Inl (Held Local)"
proof -
  let ?c1 = "snd (control_acquire (ascii ''phone'') False ''a'' 0 control_default)"
  let ?ops = "[(Acquire (ascii ''phone'') True ''c'', secs 20)]"
  let ?c = "fold control_step ?ops (snd (control_local_input (secs 10) ?c1))"
  have h: "h_local (c_holds ?c1) = secs 30" by (simp add: control_evals)
  have "\<forall>(op, now) \<in> set ?ops. secs 10 \<le> now \<and> now < secs 10 + h_local (c_holds ?c1)"
    and "secs 10 \<le> secs 35" and "secs 35 < secs 10 + h_local (c_holds ?c1)"
    by (simp_all add: h del: ascii_Cons)
  from local_input_wins [OF this refl, of "ascii ''tablet''" True "''b''" "\<lparr>ref_id = ''a'', ref_generation = 1\<rparr>" 1]
  have "ascii ''tablet'' \<noteq> [] \<longrightarrow> length (ascii ''tablet'') \<le> MAX_HOLDER \<longrightarrow> \<not> any_control (ascii ''tablet'')
    \<longrightarrow> fst (control_acquire (ascii ''tablet'') True ''b'' (secs 35) ?c) = Inl (Held Local)"
    by blast
  moreover have "ascii ''tablet'' \<noteq> []" "length (ascii ''tablet'') \<le> MAX_HOLDER" "\<not> any_control (ascii ''tablet'')"
    by (simp_all add: MAX_HOLDER_def DEL_def)
  ultimately have "fst (control_acquire (ascii ''tablet'') True ''b'' (secs 35) ?c) = Inl (Held Local)"
    by blast
  then show ?thesis by blast
qed

text \<open>The calls that leave a lease of \<open>who\<close> alone: what others ask for without taking over, calls
  under any lease but a release of this one, and looking.\<close>

fun leaves :: "lease_ref \<Rightarrow> bytes \<Rightarrow> control_op \<Rightarrow> bool" where
  "leaves ref who Type_Locally = False"
| "leaves ref who (Acquire h take_over u) = (h \<noteq> who \<and> \<not> take_over)"
| "leaves ref who (Release r) = (r \<noteq> ref)"
| "leaves ref who _ = True"

text \<open>Calls of which each comes before the lease, last renewed at \<open>since\<close>, has run out.\<close>

fun timely :: "lease_ref \<Rightarrow> bytes \<Rightarrow> duration \<Rightarrow> instant \<Rightarrow> (control_op \<times> instant) list \<Rightarrow> bool" where
  "timely ref who ttl since [] = True"
| "timely ref who ttl since ((op, now) # xs) =
    (now < since + ttl \<and> leaves ref who op \<and> timely ref who ttl (if op = Renew ref then now else since) xs)"

fun last_renewed :: "lease_ref \<Rightarrow> instant \<Rightarrow> (control_op \<times> instant) list \<Rightarrow> instant" where
  "last_renewed ref since [] = since"
| "last_renewed ref since ((op, now) # xs) = last_renewed ref (if op = Renew ref then now else since) xs"

lemma lease_ref_eq: "r = r' \<longleftrightarrow> ref_id r = ref_id r' \<and> ref_generation r = ref_generation (r' :: lease_ref)"
  by auto

lemma leaves_step:
  assumes "c_state c = HLeased who i (since + h_lease (c_holds c)) n" and "in_force ref c"
    and "now < since + h_lease (c_holds c)" and "leaves ref who op"
  shows "\<exists>n. c_state (control_step (op, now) c) =
        HLeased who i ((if op = Renew ref then now else since) + h_lease (c_holds c)) n
      \<and> in_force ref (control_step (op, now) c) \<and> c_holds (control_step (op, now) c) = c_holds c"
proof -
  have "control_lapse now c = c" using assms by (auto simp: control_lapse_def lapsed_def)
  moreover have other: "\<not> in_force r c" if "r \<noteq> ref" for r
    using in_force_unique [OF assms(2)] that by blast
  ultimately show ?thesis
    using assms other
    by (cases op)
      (auto simp: control_ops Let_def in_force_iff set_expires_def lease_ref_eq split: if_splits)
qed

lemma timely_run:
  assumes "c_state c = HLeased who i (since + h_lease (c_holds c)) n" and "in_force ref c"
    and "timely ref who (h_lease (c_holds c)) since ops"
  shows "\<exists>n. c_state (fold control_step ops c) =
        HLeased who i (last_renewed ref since ops + h_lease (c_holds c)) n
      \<and> in_force ref (fold control_step ops c) \<and> c_holds (fold control_step ops c) = c_holds c"
  using assms
proof (induction ops arbitrary: c since n)
  case Nil
  then show ?case by simp
next
  case (Cons x ops)
  obtain op now where x: "x = (op, now)" by fastforce
  let ?since = "if op = Renew ref then now else since"
  obtain n' where n': "c_state (control_step x c) = HLeased who i (?since + h_lease (c_holds c)) n'"
      "in_force ref (control_step x c)" "c_holds (control_step x c) = c_holds c"
    using leaves_step [OF Cons.prems(1,2), of now op] Cons.prems(3) x by auto
  with Cons.IH [of "control_step x c" ?since n'] Cons.prems(3) x show ?case by simp
qed

text \<open> A lease is kept by renewing: as long as nobody types locally, takes over, asks again in the
  holder's name or releases it, and the calls come before it has run out, the lease stays good
  until its time has passed since the last renewal, and at that moment, not before, it is lost
  and control is nobody's.\<close>

theorem lease_kept_by_renewing:
  assumes "control_acquire who take_over u t0 c0 = (Inr l, c1)" and "ref = lease_reference l"
    and "timely ref who (h_lease (c_holds c1)) t0 ops"
    and "c = fold control_step ops c1"
  shows "(fst (control_check ref now c) = Inr () \<longleftrightarrow> now < last_renewed ref t0 ops + h_lease (c_holds c1))
    \<and> fst (control_controller now c) =
        (if now < last_renewed ref t0 ops + h_lease (c_holds c1) then Leased who else Nobody)"
proof -
  note g = acquire_granted [OF assms(1)]
  obtain n where "c_state c = HLeased who u (last_renewed ref t0 ops + h_lease (c_holds c1)) n" "in_force ref c"
    using timely_run [of c1 who u t0 0 ref ops] g assms by auto
  then show ?thesis
    by (auto simp: control_check_def control_controller_def control_lapse_def lapsed_def Let_def in_force_def)
qed

theorem lease_kept_by_renewing_witness:
  "\<exists>l c1. control_acquire (ascii ''phone'') False ''a'' 0 control_default = (Inr l, c1)
    \<and> fst (control_check (lease_reference l) (secs 69)
        (fold control_step [(Renew (lease_reference l), secs 20), (Acquire (ascii ''tablet'') False ''b'', secs 30),
          (Renew (lease_reference l), secs 40)] c1)) = Inr ()"
proof -
  let ?l = "\<lparr>lease_id = ''a'', lease_generation = 1, ttl_ms = 30000, renew_every_ms = 10000\<rparr>"
  let ?c1 = "\<lparr>c_generation = 1, c_state = HLeased (ascii ''phone'') ''a'' (secs 30) 0,
    c_holds = holds_default\<rparr>"
  have g: "control_acquire (ascii ''phone'') False ''a'' 0 control_default = (Inr ?l, ?c1)"
    by (simp add: control_evals)
  let ?ops = "[(Renew (lease_reference ?l), secs 20), (Acquire (ascii ''tablet'') False ''b'', secs 30),
    (Renew (lease_reference ?l), secs 40)]"
  have "timely (lease_reference ?l) (ascii ''phone'') (h_lease (c_holds ?c1)) 0 ?ops"
    by (simp add: control_evals)
  from lease_kept_by_renewing [OF g refl this refl, of "secs 69"]
  have "fst (control_check (lease_reference ?l) (secs 69) (fold control_step ?ops ?c1)) = Inr ()"
    by (simp add: holds_default_def LEASE_TTL_def)
  with g show ?thesis by blast
qed

section \<open>What presence reports are\<close>

text \<open>A report on its own: focus coming or going, or the pointer passing, whose fields are three
  numbers of a movement with no button held.\<close>

definition focus_report :: "bytes \<Rightarrow> bool" where
  "focus_report r \<longleftrightarrow> r = [0x1b, 0x5b, 0x49] \<or> r = [0x1b, 0x5b, 0x4f]"

definition hover_fields :: "bytes \<Rightarrow> bool" where
  "hover_fields fs \<longleftrightarrow> 0x4d \<notin> set fs \<and>
    (\<exists>button x y. map (parse_uint 65535) (split_on 0x3b fs) = [Some button, Some x, Some y]
      \<and> moved_without_a_button (of_nat button))"

definition hover_report :: "bytes \<Rightarrow> bool" where
  "hover_report r \<longleftrightarrow> (\<exists>fs. r = [0x1b, 0x5b, 0x3c] @ fs @ [0x4d] \<and> hover_fields fs)"

lemma strip_prefix_Some [simp]: "strip_prefix pre bs = Some r \<longleftrightarrow> bs = pre @ r"
  by (auto simp: strip_prefix_def prefix_def)

lemma takeWhile_split: "x \<in> set m \<Longrightarrow> m = takeWhile (\<lambda>b. b \<noteq> x) m @ x # drop (Suc (length (takeWhile (\<lambda>b. b \<noteq> x) m))) m"
  by (induction m) auto

lemma takeWhile_until: "x \<notin> set fs \<Longrightarrow> takeWhile (\<lambda>b. b \<noteq> x) (fs @ x # r) = fs"
  by (induction fs) auto

lemma not_before [simp]: "x \<notin> set (takeWhile (\<lambda>b. b \<noteq> x) m)"
  by (auto dest: set_takeWhileD)

lemma first_of_three_Some:
  "first_of_three ns = Some b \<longleftrightarrow> (\<exists>x y. ns = [Some b, Some x, Some y])"
  by (induction ns rule: first_of_three.induct) auto

lemma mouse_moved_iff:
  "mouse_moved body = Some r \<longleftrightarrow> (\<exists>fs. body = [0x3c] @ fs @ 0x4d # r \<and> hover_fields fs)"
proof
  assume "mouse_moved body = Some r"
  then obtain m where m: "body = 0x3c # m" "0x4d \<in> set m" "hover_fields (takeWhile (\<lambda>b. b \<noteq> 0x4d) m)"
    "r = drop (Suc (length (takeWhile (\<lambda>b. b \<noteq> 0x4d) m))) m"
    by (auto simp: mouse_moved_def bind_eq_Some_conv Let_def hover_fields_def first_of_three_Some
        split: if_splits dest: set_takeWhileD)
  with takeWhile_split [OF m(2)] show "\<exists>fs. body = [0x3c] @ fs @ 0x4d # r \<and> hover_fields fs"
    by (metis append_Cons append_Nil)
next
  assume "\<exists>fs. body = [0x3c] @ fs @ 0x4d # r \<and> hover_fields fs"
  then obtain fs where fs: "body = 0x3c # (fs @ 0x4d # r)" "hover_fields fs" by auto
  then have "takeWhile (\<lambda>b. b \<noteq> 0x4d) (fs @ 0x4d # r) = fs" by (simp add: hover_fields_def takeWhile_until)
  moreover obtain b x y where "map (parse_uint 65535) (split_on 0x3b fs) = [Some b, Some x, Some y]"
    "moved_without_a_button (of_nat b)"
    using fs(2) by (auto simp: hover_fields_def)
  ultimately show "mouse_moved body = Some r"
    by (simp add: fs(1) mouse_moved_def strip_prefix_def)
qed

lemma presence_from_focus:
  "focus_report r \<Longrightarrow> presence_from (r @ rest) focus = presence_from rest (focus @ r)"
  by (auto simp: focus_report_def presence_from.simps [of "_ # _"] strip_prefix_def)

lemma presence_from_hover:
  assumes "hover_report r"
  shows "presence_from (r @ rest) focus = presence_from rest focus"
proof -
  obtain fs where fs: "r = [0x1b, 0x5b, 0x3c] @ fs @ [0x4d]" "hover_fields fs"
    using assms by (auto simp: hover_report_def)
  then have "mouse_moved ([0x3c] @ fs @ 0x4d # rest) = Some rest"
    by (subst mouse_moved_iff) auto
  with fs show ?thesis
    by (simp add: presence_from.simps [of "_ # _"] strip_prefix_def)
qed

lemma presence_from_sound:
  "presence_from rest focus = Some f \<Longrightarrow>
    \<exists>rs. rest = concat rs \<and> (\<forall>r\<in>set rs. focus_report r \<or> hover_report r) \<and> f = focus @ concat (filter focus_report rs)"
proof (induction rest focus rule: presence_from.induct)
  case (1 rest focus)
  note d = "1.prems" [unfolded presence_from.simps [of rest]]
  consider "rest = []" | body where "rest = [0x1b, 0x5b] @ body" "body \<noteq> []" "hd body \<in> {0x49, 0x4f}"
    | body r where "rest = [0x1b, 0x5b] @ body" "\<not> (body \<noteq> [] \<and> hd body \<in> {0x49, 0x4f})" "mouse_moved body = Some r"
    using d by (auto split: if_splits option.splits)
  then show ?case
  proof cases
    case 1
    with d show ?thesis by (auto intro: exI [of _ "[]"])
  next
    case (2 body)
    let ?r = "[0x1b, 0x5b, hd body]"
    have r: "focus_report ?r" "rest = ?r @ tl body" using 2 by (auto simp: focus_report_def)
    have t: "take 3 rest = ?r" using 2 by (cases body) auto
    have "presence_from (tl body) (focus @ take 3 rest) = Some f"
      using d 2 by (simp add: strip_prefix_def)
    then obtain rs where "tl body = concat rs" "\<forall>r\<in>set rs. focus_report r \<or> hover_report r"
      "f = (focus @ ?r) @ concat (filter focus_report rs)"
      using "1.IH"(1) [of body] 2 unfolding t by auto
    with r show ?thesis by (intro exI [of _ "?r # rs"]) auto
  next
    case (3 body r)
    obtain fs where fs: "body = [0x3c] @ fs @ 0x4d # r" "hover_fields fs"
      using 3(3) mouse_moved_iff by blast
    let ?r = "[0x1b, 0x5b, 0x3c] @ fs @ [0x4d]"
    have r: "hover_report ?r" "\<not> focus_report ?r" "rest = ?r @ r"
      using fs 3 by (auto simp: hover_report_def focus_report_def)
    have "presence_from r focus = Some f" using d 3 by (auto simp: strip_prefix_def split: if_splits)
    then obtain rs where "r = concat rs" "\<forall>r\<in>set rs. focus_report r \<or> hover_report r"
      "f = focus @ concat (filter focus_report rs)"
      using "1.IH"(2) [of body] 3 by auto
    with r show ?thesis by (intro exI [of _ "?r # rs"]) auto
  qed
qed

lemma presence_from_complete:
  "\<forall>r\<in>set rs. focus_report r \<or> hover_report r \<Longrightarrow>
    presence_from (concat rs) focus = Some (focus @ concat (filter focus_report rs))"
proof (induction rs arbitrary: focus)
  case Nil
  then show ?case by (simp add: presence_from.simps)
next
  case (Cons r rs)
  have "\<not> focus_report r" if "hover_report r"
    using that by (auto simp: hover_report_def focus_report_def)
  with Cons show ?case by (auto simp: presence_from_focus presence_from_hover)
qed

lemma presence_iff:
  "presence bs = Some f \<longleftrightarrow>
    (\<exists>rs. rs \<noteq> [] \<and> bs = concat rs \<and> (\<forall>r\<in>set rs. focus_report r \<or> hover_report r)
      \<and> f = concat (filter focus_report rs))"
proof
  assume "presence bs = Some f"
  then have "bs \<noteq> []" "presence_from bs [] = Some f" by (auto simp: presence_def split: if_splits)
  moreover from presence_from_sound [OF this(2)]
  obtain rs where "bs = concat rs" "\<forall>r\<in>set rs. focus_report r \<or> hover_report r"
    "f = concat (filter focus_report rs)" by auto
  ultimately show "\<exists>rs. rs \<noteq> [] \<and> bs = concat rs
      \<and> (\<forall>r\<in>set rs. focus_report r \<or> hover_report r) \<and> f = concat (filter focus_report rs)"
    by (intro exI [of _ rs]) auto
next
  assume "\<exists>rs. rs \<noteq> [] \<and> bs = concat rs \<and> (\<forall>r\<in>set rs. focus_report r \<or> hover_report r)
      \<and> f = concat (filter focus_report rs)"
  then obtain rs where rs: "rs \<noteq> []" "bs = concat rs" "\<forall>r\<in>set rs. focus_report r \<or> hover_report r"
    "f = concat (filter focus_report rs)" by blast
  then have "bs \<noteq> []" by (cases rs) (auto simp: focus_report_def hover_report_def)
  with rs show "presence bs = Some f"
    using presence_from_complete [of rs "[]"] by (simp add: presence_def)
qed

text \<open> Input does not count as typing exactly when it is one or more whole reports, one after the
  other, each of focus coming or going or of the pointer passing with no button held; what is
  then still passed on is the focus reports alone, in order.  Anything else in the input, a key,
  a press, a wheel, a drag or half a report, makes all of it typing.\<close>

theorem presence_exact:
  "presence bs = Some f \<longleftrightarrow>
    (\<exists>rs. rs \<noteq> [] \<and> bs = concat rs \<and> list_all (\<lambda>r. focus_report r \<or> hover_report r) rs
      \<and> f = concat (filter focus_report rs))"
  by (simp add: presence_iff list_all_iff)

end
