(* ===== verification/Types.thy ===== *)
theory Types
  imports Control
begin

text \<open>
  \<open>crates/pty-host/src/types.rs\<close>: what crosses the boundary of the host.  Identifiers are strings,
  attachment ids and item numbers are natural numbers (a \<open>u32\<close> and a \<open>u64\<close> that only count up),
  and text that the host only passes on is its UTF-8 bytes.
\<close>

type_synonym session_id = string
type_synonym attachment_id = nat
type_synonym output_seq = nat

record term_size =
  cols :: u16
  rows :: u16

definition DEFAULT_SIZE :: term_size where
  "DEFAULT_SIZE = \<lparr>cols = 80, rows = 24\<rparr>"

definition sanitized :: "term_size \<Rightarrow> term_size" where
  "sanitized s = \<lparr>cols = max (cols s) 2, rows = max (rows s) 1\<rparr>"

record exit_info =
  exit_code :: u32
  exit_success :: bool
  exit_signal :: "string option"

datatype session_state = Running | Exited exit_info

datatype numbered =
    Snapshot output_seq term_size bytes
  | Resumed output_seq term_size
  | Output output_seq bytes
  | Resized output_seq term_size
  | Controlled controller
  | Ended exit_info

record pending_prompt =
  prompt_text :: bytes
  prompt_quiet_ms :: nat

record launch_plan =
  plan_program :: bytes
  plan_args :: "bytes list"
  plan_cwd :: "bytes option"
  plan_env :: "(bytes \<times> bytes) list"
  plan_clear_env :: bool
  plan_size :: term_size
  plan_labels :: "(bytes \<times> bytes) list"
  plan_prompt :: "pending_prompt option"

record session_info =
  info_id :: session_id
  info_program :: bytes
  info_args :: "bytes list"
  info_cwd :: "bytes option"
  info_pid :: "nat option"
  info_size :: term_size
  info_labels :: "(bytes \<times> bytes) list"
  info_state :: session_state
  info_has_output :: bool
  info_busy :: bool
  info_idle_ms :: nat

datatype host_event =
    SessionEnded session_id exit_info
  | Busy session_id
  | Quiet session_id nat

datatype host_error =
    UnknownSession session_id
  | SessionExited session_id
  | OpenPty string
  | Spawn bytes string
  | LeaseLost session_id
  | ControlHeld session_id controller
  | InputOutOfOrder session_id nat nat
  | InvalidHolder
  | ControlUnavailable
  | Io string

lemma sanitized_positive: "0 < rows (sanitized s)" "2 \<le> cols (sanitized s)"
  by (auto simp: sanitized_def max_def not_le intro: order.strict_trans [of 0 1])

lemma sanitized_idem [simp]: "sanitized (sanitized s) = sanitized s"
  by (simp add: sanitized_def)

end
