(* ===== verification/Snapshot.thy ===== *)
theory Snapshot
  imports Types
begin

text \<open>
  \<open>crates/pty-host/src/snapshot.rs\<close>: the headless terminal a session keeps, and the snapshot made
  from it.  The terminal emulator is the \<open>vt100\<close> crate, which is not part of the repository: its
  functions are the fields of the record \<open>vt\<close>, an argument of the definitions, over a type of
  parser states the model leaves open.  What the code relies on is stated where it is used: that
  feeding a parser in two calls is feeding it at once, when the first call ends between characters
  (the module's comment explains why only then), and that a view scrolled back by \<open>n\<close> starts with
  the history's last \<open>n\<close> lines.
\<close>

section \<open>The terminal emulator\<close>

record 'p vt =
  vt_new :: "u16 \<Rightarrow> u16 \<Rightarrow> nat \<Rightarrow> 'p"
  vt_process :: "bytes \<Rightarrow> 'p \<Rightarrow> 'p"
  vt_size :: "'p \<Rightarrow> u16 \<times> u16"
  vt_set_size :: "u16 \<Rightarrow> u16 \<Rightarrow> 'p \<Rightarrow> 'p"
  vt_alternate :: "'p \<Rightarrow> bool"
  vt_bracketed_paste :: "'p \<Rightarrow> bool"
  vt_cursor :: "'p \<Rightarrow> u16 \<times> u16"
  vt_set_scrollback :: "nat \<Rightarrow> 'p \<Rightarrow> 'p"
  vt_scrollback :: "'p \<Rightarrow> nat"
  vt_rows_formatted :: "u16 \<Rightarrow> u16 \<Rightarrow> 'p \<Rightarrow> bytes list"
  vt_rows :: "u16 \<Rightarrow> u16 \<Rightarrow> 'p \<Rightarrow> bytes list"
  vt_state_formatted :: "'p \<Rightarrow> bytes"

definition USIZE_MAX :: nat where
  "USIZE_MAX = 2 ^ 64 - 1"

section \<open>Snapshots\<close>

record 'p headless =
  h_parser :: 'p
  h_unfinished :: unfinished
  h_held :: bytes

definition headless_new :: "'p vt \<Rightarrow> u16 \<Rightarrow> u16 \<Rightarrow> nat \<Rightarrow> 'p headless" where
  "headless_new vt r c scrollback =
    \<lparr>h_parser = vt_new vt r c scrollback, h_unfinished = unfinished_default, h_held = []\<rparr>"

definition headless_feed :: "'p vt \<Rightarrow> bytes \<Rightarrow> 'p headless \<Rightarrow> 'p headless" where
  "headless_feed vt batch h =
    (let u = unfinished_feed (h_unfinished h) batch;
         input = h_held h @ batch;
         cut = (if in_character u then length input - length (u_bytes u) else length input)
     in \<lparr>h_parser = vt_process vt (take cut input) (h_parser h),
          h_unfinished = u,
          h_held = drop cut input\<rparr>)"

text \<open>The loop both readers of the scrollback share: from \<open>offset\<close> lines back, a page at a time.
  With a page of no lines it would not end, so it is a partial function; its result is the lines
  and the parser with its view where the loop left it.\<close>

partial_function (option) pages ::
  "'p vt \<Rightarrow> ('p \<Rightarrow> bytes list) \<Rightarrow> nat \<Rightarrow> nat \<Rightarrow> bytes list \<Rightarrow> 'p \<Rightarrow> (bytes list \<times> 'p) option" where
  "pages vt lines_of page offset acc p =
    (if offset = 0 then Some (acc, p)
     else
       let p = vt_set_scrollback vt offset p; n = min offset page
       in pages vt lines_of page (offset - n) (acc @ take n (lines_of p)) p)"

definition read_history ::
  "'p vt \<Rightarrow> ('p \<Rightarrow> bytes list) \<Rightarrow> u16 \<Rightarrow> 'p \<Rightarrow> (bytes list \<times> 'p) option" where
  "read_history vt lines_of r p =
    (let p = vt_set_scrollback vt USIZE_MAX p; total = vt_scrollback vt p
     in do {
       (history, p) \<leftarrow> pages vt lines_of (unat r) total [] p;
       Some (history, vt_set_scrollback vt 0 p)
     })"

definition scrollback_rows :: "'p vt \<Rightarrow> u16 \<Rightarrow> u16 \<Rightarrow> 'p \<Rightarrow> (bytes list \<times> 'p) option" where
  "scrollback_rows vt r c p = read_history vt (vt_rows_formatted vt 0 c) r p"

definition render :: "'p vt \<Rightarrow> 'p \<Rightarrow> (bytes \<times> 'p) option" where
  "render vt p =
    (let (r, c) = vt_size vt p in do {
       (history, p) \<leftarrow> (if vt_alternate vt p then Some ([], p)
         else do {
           (history, p) \<leftarrow> scrollback_rows vt r c p;
           Some (if history = [] then []
              else concat (map (\<lambda>row. row @ [0x1b, 0x5b, 0x6d, 0x0d, 0x0a]) history)
                @ replicate (unat r) 0x0a, p)
         });
       Some ([0x1b, 0x63] @ history
         @ (if vt_alternate vt p then [0x1b, 0x5b, 0x3f, 0x31, 0x30, 0x34, 0x39, 0x68] else [])
         @ vt_state_formatted vt p, p)
     })"

definition headless_snapshot :: "'p vt \<Rightarrow> 'p headless \<Rightarrow> (bytes \<times> 'p headless) option" where
  "headless_snapshot vt h =
    do {
      (out, p) \<leftarrow> render vt (h_parser h);
      Some (out @ u_bytes (h_unfinished h), h\<lparr>h_parser := p\<rparr>)
    }"

definition headless_set_size :: "'p vt \<Rightarrow> u16 \<Rightarrow> u16 \<Rightarrow> 'p headless \<Rightarrow> 'p headless" where
  "headless_set_size vt r c h = h\<lparr>h_parser := vt_set_size vt r c (h_parser h)\<rparr>"

section \<open>Reading a snapshot back\<close>

definition SCROLLBACK_FOR_READING :: nat where
  "SCROLLBACK_FOR_READING = 10000"

definition read_scrollback :: "'p vt \<Rightarrow> u16 \<Rightarrow> u16 \<Rightarrow> 'p \<Rightarrow> (bytes list \<times> 'p) option" where
  "read_scrollback vt r c p = read_history vt (vt_rows vt 0 c) r p"

text \<open>\<open>line.trim().is_empty()\<close>.\<close>

function blank_line :: "bytes \<Rightarrow> bool" where
  "blank_line line =
    (if line = [] then True
     else if blank_char line = 0 then False
     else blank_line (drop (blank_char line) line))"
  by pat_completeness auto
termination by (relation "measure length") (auto simp: length_greater_0_conv)

declare blank_line.simps [simp del]

definition drop_blank_end :: "bytes list \<Rightarrow> bytes list" where
  "drop_blank_end ls = rev (dropWhile blank_line (rev ls))"

fun join_lines :: "bytes list \<Rightarrow> bytes" where
  "join_lines [] = []"
| "join_lines [l] = l"
| "join_lines (l # ls) = l @ 0x0a # join_lines ls"

definition to_text :: "'p vt \<Rightarrow> bytes \<Rightarrow> u16 \<Rightarrow> u16 \<Rightarrow> bytes option" where
  "to_text vt snap r c =
    (let viewer = vt_process vt snap (vt_new vt r c SCROLLBACK_FOR_READING) in do {
       (history, viewer) \<leftarrow> read_scrollback vt r c viewer;
       Some (join_lines (drop_blank_end (drop_blank_end history @ vt_rows vt 0 c viewer)))
     })"

section \<open>The snapshot does not depend on where the output was cut\<close>

text \<open>What the code relies on: a call that ends between characters can be joined with the next.\<close>

definition joins :: "'p vt \<Rightarrow> 'p \<Rightarrow> bool" where
  "joins vt p \<longleftrightarrow> vt_process vt [] p = p \<and>
    (\<forall>xs ys. \<not> is_utf8 (run Ground xs) \<longrightarrow>
      vt_process vt ys (vt_process vt xs p) = vt_process vt (xs @ ys) p)"

text \<open>The headless terminal that was given \<open>data\<close>, however it was cut.\<close>

definition held_of :: "bytes \<Rightarrow> bytes" where
  "held_of data = (if is_utf8 (run Ground data) then u_bytes (unfinished_after data) else [])"

definition headless_of :: "'p vt \<Rightarrow> 'p \<Rightarrow> bytes \<Rightarrow> 'p headless" where
  "headless_of vt p data =
    \<lparr>h_parser = vt_process vt (take (length data - length (held_of data)) data) p,
      h_unfinished = unfinished_after data, h_held = held_of data\<rparr>"

lemma held_suffix:
  assumes "unbroken Ground data"
  shows "\<exists>pre. data = pre @ held_of data \<and> \<not> is_utf8 (run Ground pre)"
  using char_suffix [of data] assms
  by (cases "is_utf8 (run Ground data)") (auto simp: held_of_def)

lemma held_grows:
  "unbroken Ground (data @ batch) \<Longrightarrow> length (held_of (data @ batch)) \<le> length (held_of data) + length batch"
proof (induction batch rule: rev_induct)
  case Nil
  then show ?case by simp
next
  case (snoc b batch)
  then have "unbroken Ground ((data @ batch) @ [b])" "unbroken Ground (data @ batch)"
    by (simp_all add: unbroken_append)
  with snoc.IH char_bytes [of "data @ batch" b] show ?case
    by (auto simp: held_of_def split: if_splits)
qed

lemma headless_feed_of:
  assumes "joins vt p" and "unbroken Ground (data @ batch)"
  shows "headless_feed vt batch (headless_of vt p data) = headless_of vt p (data @ batch)"
proof -
  let ?u = "unfinished_after (data @ batch)" and ?input = "held_of data @ batch"
  obtain pre where pre: "data = pre @ held_of data" "\<not> is_utf8 (run Ground pre)"
    using held_suffix [of data] assms(2) by (auto simp: unbroken_append)
  obtain pre' where pre': "data @ batch = pre' @ held_of (data @ batch)"
    using held_suffix [OF assms(2)] by blast
  have le: "length (held_of (data @ batch)) \<le> length ?input"
    using held_grows [OF assms(2)] by simp
  have all: "pre @ ?input = pre' @ held_of (data @ batch)"
    using pre(1) pre' by (metis append.assoc)
  define cut where "cut = length ?input - length (held_of (data @ batch))"
  have split: "pre' = pre @ take cut ?input" "held_of (data @ batch) = drop cut ?input"
  proof -
    have len: "length pre + length ?input = length pre' + length (held_of (data @ batch))"
      using arg_cong [OF all, of length] by simp
    with le have n: "length pre' = length pre + cut"
      unfolding cut_def by arith
    have "pre' = take (length pre + cut) (pre' @ held_of (data @ batch))"
      and "held_of (data @ batch) = drop (length pre + cut) (pre' @ held_of (data @ batch))"
      by (simp_all flip: n)
    then have "pre' = take (length pre + cut) (pre @ ?input)"
      and "held_of (data @ batch) = drop (length pre + cut) (pre @ ?input)"
      unfolding all by blast+
    then show "pre' = pre @ take cut ?input" "held_of (data @ batch) = drop cut ?input"
      by simp_all
  qed
  have cut: "(if in_character ?u then length ?input - length (u_bytes ?u) else length ?input) = cut"
    by (simp add: cut_def held_of_def in_character_def)
  have prior: "take (length data - length (held_of data)) data = pre"
    using pre(1) by (metis append_eq_conv_conj diff_add_inverse2 length_append)
  have after': "take (length (data @ batch) - length (held_of (data @ batch))) (data @ batch) = pre'"
    using pre' by (metis append_eq_conv_conj diff_add_inverse2 length_append)
  have "headless_feed vt batch (headless_of vt p data) =
      \<lparr>h_parser = vt_process vt (take cut ?input) (vt_process vt pre p),
        h_unfinished = ?u, h_held = drop cut ?input\<rparr>"
    unfolding headless_feed_def headless_of_def Let_def prior
    by (simp only: headless.simps unfinished_feed_append [symmetric] cut)
  also have "vt_process vt (take cut ?input) (vt_process vt pre p) = vt_process vt pre' p"
    using assms(1) pre(2) split(1) by (simp add: joins_def)
  finally show ?thesis
    unfolding headless_of_def after' by (simp only: split(2))
qed

lemma headless_batches:
  assumes "joins vt p" and "unbroken Ground (data @ concat batches)"
  shows "fold (headless_feed vt) batches (headless_of vt p data) = headless_of vt p (data @ concat batches)"
  using assms(2)
proof (induction batches arbitrary: data)
  case Nil
  then show ?case by simp
next
  case (Cons b bs)
  then have "unbroken Ground (data @ b)" by (simp add: unbroken_append)
  with Cons show ?case by (simp add: headless_feed_of [OF assms(1)])
qed

text \<open> However a program's output is cut into batches, also inside characters and escape sequences,
  the headless terminal ends in the same state: the parser has seen everything up to the
  character the output ends inside, which is held back, and the open sequence is the one of the
  whole output.  So what a viewer that attaches is sent does not depend on the cutting.  The
  emulator is only relied on to join two calls when the first ends between characters, and the
  output's characters are to be whole but for the last.\<close>

theorem headless_sees_one_stream:
  assumes "joins vt (vt_new vt r c n)" and "unbroken Ground (concat batches)"
  shows "\<exists>seen held.
    fold (headless_feed vt) batches (headless_new vt r c n) =
      \<lparr>h_parser = vt_process vt seen (vt_new vt r c n),
        h_unfinished = unfinished_after (concat batches), h_held = held\<rparr>
    \<and> concat batches = seen @ held \<and> \<not> is_utf8 (run Ground seen)
    \<and> (held \<noteq> [] \<longleftrightarrow> is_utf8 (run Ground (concat batches)))"
proof -
  let ?data = "concat batches" and ?p = "vt_new vt r c n"
  have "headless_new vt r c n = headless_of vt ?p []"
    using assms(1) by (simp add: headless_new_def headless_of_def held_of_def joins_def run_def)
  then have f: "fold (headless_feed vt) batches (headless_new vt r c n) = headless_of vt ?p ?data"
    using headless_batches [of vt ?p "[]" batches] assms by simp
  obtain pre where pre: "?data = pre @ held_of ?data" "\<not> is_utf8 (run Ground pre)"
    using held_suffix [OF assms(2)] by blast
  then have "take (length ?data - length (held_of ?data)) ?data = pre"
    by (metis append_eq_conv_conj diff_add_inverse2 length_append)
  moreover have "held_of ?data \<noteq> [] \<longleftrightarrow> is_utf8 (run Ground ?data)"
    using pre by (auto simp: held_of_def)
  ultimately show ?thesis using f pre by (auto simp: headless_of_def)
qed

definition tape :: "bytes vt" where
  "tape = \<lparr>vt_new = \<lambda>_ _ _. [], vt_process = \<lambda>b p. p @ b, vt_size = \<lambda>_. (24, 80), vt_set_size = \<lambda>_ _ p. p,
    vt_alternate = \<lambda>_. False, vt_bracketed_paste = \<lambda>_. False, vt_cursor = \<lambda>_. (0, 0),
    vt_set_scrollback = \<lambda>_ p. p, vt_scrollback = \<lambda>_. 0, vt_rows_formatted = \<lambda>_ _ _. [],
    vt_rows = \<lambda>_ _ _. [], vt_state_formatted = \<lambda>p. p\<rparr>"

theorem headless_sees_one_stream_witness:
  "joins tape (vt_new tape 24 80 0)
    \<and> unbroken Ground (concat [[0xe2], [0x82, 0xac, 0x1b], [0x5b, 0x6d, 0xc3]])
    \<and> h_held (fold (headless_feed tape) [[0xe2], [0x82, 0xac, 0x1b], [0x5b, 0x6d, 0xc3]]
        (headless_new tape 24 80 0)) \<noteq> []"
proof -
  let ?b = "[[0xe2], [0x82, 0xac, 0x1b], [0x5b, 0x6d, 0xc3]] :: bytes list"
  have j: "joins tape (vt_new tape 24 80 0)" by (simp add: joins_def tape_def)
  have u: "unbroken Ground (concat ?b)" and c: "is_utf8 (run Ground (concat ?b))" by code_simp+
  from headless_sees_one_stream [OF j u] c j u show ?thesis by auto
qed

section \<open>Reading the scrollback\<close>

text \<open>What the code relies on: the view goes back at most to the oldest line, and scrolled back by
  \<open>offset\<close> it starts with the history's last \<open>offset\<close> lines, as many of them as the page shows.\<close>

definition scrolls :: "'p vt \<Rightarrow> ('p \<Rightarrow> bytes list) \<Rightarrow> ('p \<Rightarrow> bytes list) \<Rightarrow> nat \<Rightarrow> bool" where
  "scrolls vt lines_of hist page \<longleftrightarrow>
    (\<forall>p off. hist (vt_set_scrollback vt off p) = hist p
      \<and> vt_scrollback vt (vt_set_scrollback vt off p) = min off (length (hist p))
      \<and> length (hist p) \<le> USIZE_MAX
      \<and> (off \<le> length (hist p) \<longrightarrow>
          take (min off page) (lines_of (vt_set_scrollback vt off p)) =
          take (min off page) (drop (length (hist p) - off) (hist p))))"

lemma pages_history:
  assumes "scrolls vt lines_of hist page" and "0 < page" and "offset \<le> length (hist p)"
  shows "\<exists>p'. pages vt lines_of page offset acc p = Some (acc @ drop (length (hist p) - offset) (hist p), p')
    \<and> hist p' = hist p"
  using assms(3)
proof (induction offset arbitrary: acc p rule: less_induct)
  case (less offset)
  show ?case
  proof (cases "offset = 0")
    case True
    then show ?thesis by (simp add: pages.simps)
  next
    case False
    let ?p = "vt_set_scrollback vt offset p" and ?n = "min offset page"
    have law: "hist ?p = hist p"
      "take ?n (lines_of ?p) = take ?n (drop (length (hist p) - offset) (hist p))"
      using assms(1) less.prems by (auto simp: scrolls_def)
    let ?acc = "acc @ take ?n (lines_of ?p)"
    have "offset - ?n < offset" using False assms(2) by simp
    moreover have "offset - ?n \<le> length (hist ?p)" using less.prems law(1) by simp
    ultimately have "\<exists>p'. pages vt lines_of page (offset - ?n) ?acc ?p =
        Some (?acc @ drop (length (hist ?p) - (offset - ?n)) (hist ?p), p') \<and> hist p' = hist ?p"
      by (rule less.IH)
    then obtain p' where p': "pages vt lines_of page (offset - ?n) ?acc ?p =
        Some (?acc @ drop (length (hist p) - (offset - ?n)) (hist p), p')" "hist p' = hist p"
      unfolding law(1) by blast
    have "length (hist p) - (offset - ?n) = ?n + (length (hist p) - offset)"
      using less.prems by linarith
    then have rest: "take ?n (lines_of ?p) @ drop (length (hist p) - (offset - ?n)) (hist p) =
        drop (length (hist p) - offset) (hist p)"
      using law(2) by (simp flip: drop_drop)
    have "pages vt lines_of page offset acc p = pages vt lines_of page (offset - ?n) ?acc ?p"
      using False by (subst pages.simps) (simp add: Let_def)
    with p' rest show ?thesis by simp
  qed
qed

text \<open> Reading the scrollback page by page returns, for every screen with at least one row, and
  gives each line of the history once, oldest first, whatever the number of lines and of rows.\<close>

theorem scrollback_read_whole:
  assumes "scrolls vt (vt_rows_formatted vt 0 c) hist (unat r)" and "0 < r"
  shows "\<exists>p'. scrollback_rows vt r c p = Some (hist p, p')"
proof -
  let ?p = "vt_set_scrollback vt USIZE_MAX p"
  have law: "hist ?p = hist p" "vt_scrollback vt ?p = length (hist p)"
    using assms(1) by (auto simp: scrolls_def min_absorb2)
  have "0 < unat r" using assms(2) by (simp add: unat_gt_0)
  from pages_history [OF assms(1) this, of "length (hist p)" ?p "[]"] law
  show ?thesis by (auto simp: scrollback_rows_def read_history_def Let_def)
qed

text \<open>An emulator of five lines of history and a screen of two rows.\<close>

definition five_lines :: "bytes list" where
  "five_lines = [[0x61], [0x62], [0x63], [0x64], [0x65]]"

definition scroller :: "nat vt" where
  "scroller = \<lparr>vt_new = \<lambda>_ _ _. 0, vt_process = \<lambda>_ p. p, vt_size = \<lambda>_. (2, 80), vt_set_size = \<lambda>_ _ p. p,
    vt_alternate = \<lambda>_. False, vt_bracketed_paste = \<lambda>_. False, vt_cursor = \<lambda>_. (0, 0),
    vt_set_scrollback = \<lambda>n _. min n 5, vt_scrollback = \<lambda>p. p,
    vt_rows_formatted = \<lambda>_ _ p. take 2 (drop (5 - p) (five_lines @ [[0x66], [0x67]])),
    vt_rows = \<lambda>_ _ _. [], vt_state_formatted = \<lambda>_. []\<rparr>"

theorem scrollback_read_whole_witness:
  "scrolls scroller (vt_rows_formatted scroller 0 80) (\<lambda>_. five_lines) (unat (2 :: u16))
    \<and> (\<exists>p'. scrollback_rows scroller 2 80 0 = Some (five_lines, p'))"
proof -
  have s: "scrolls scroller (vt_rows_formatted scroller 0 80) (\<lambda>_. five_lines) (unat (2 :: u16))"
  proof -
    have "length five_lines = 5" by (simp add: five_lines_def)
    moreover have "take (min off 2) (drop (5 - off) (five_lines @ [[0x66], [0x67]])) =
      take (min off 2) (drop (5 - off) five_lines)" if "off \<le> 5" for off
    proof -
      from that have "off = 0 \<or> off = 1 \<or> off = 2 \<or> off = 3 \<or> off = 4 \<or> off = 5" by linarith
      then show ?thesis by (elim disjE) (simp_all add: five_lines_def)
    qed
    ultimately show ?thesis by (simp add: scrolls_def scroller_def USIZE_MAX_def del: drop_append)
  qed
  with scrollback_read_whole [OF s] show ?thesis by simp
qed

end
