(* ===== verification/Replay.thy ===== *)
theory Replay
  imports Snapshot
begin

text \<open>
  \<open>crates/pty-host/src/replay.rs\<close>: the last stretch of a session's numbered stream.  \<open>replay\<close> is
  the struct, \<open>replay_push\<close> and \<open>replay_since\<close> its operations.  The specification is the whole
  stream as a list: what is kept is the longest end of it that fits, and \<open>since\<close> answers exactly
  what the whole stream would.
\<close>

section \<open>The kept stretch\<close>

definition REPLAY_BYTES :: nat where "REPLAY_BYTES = 256 * 1024"
definition RESIZE_COST :: nat where "RESIZE_COST = 16"

datatype kept = KOutput bytes | KResized term_size

record replay =
  r_base :: output_seq
  r_base_size :: term_size
  r_items :: "kept list"
  r_bytes :: nat

fun cost :: "kept \<Rightarrow> nat" where
  "cost (KOutput bs) = length bs"
| "cost (KResized _) = RESIZE_COST"

fun resized_to :: "term_size \<Rightarrow> kept \<Rightarrow> term_size" where
  "resized_to sz (KResized s) = s"
| "resized_to sz (KOutput _) = sz"

definition replay_new :: "output_seq \<Rightarrow> term_size \<Rightarrow> replay" where
  "replay_new sq sz = \<lparr>r_base = sq, r_base_size = sz, r_items = [], r_bytes = 0\<rparr>"

text \<open>The loop of \<open>push\<close>, on the items still kept.\<close>

fun replay_trim :: "kept list \<Rightarrow> nat \<Rightarrow> output_seq \<Rightarrow> term_size \<Rightarrow> replay" where
  "replay_trim [] n base sz = \<lparr>r_base = base, r_base_size = sz, r_items = [], r_bytes = n\<rparr>"
| "replay_trim (oldest # items) n base sz =
    (if REPLAY_BYTES < n
     then replay_trim items (n - cost oldest) (base + 1) (resized_to sz oldest)
     else \<lparr>r_base = base, r_base_size = sz, r_items = oldest # items, r_bytes = n\<rparr>)"

definition replay_push :: "kept \<Rightarrow> replay \<Rightarrow> replay" where
  "replay_push item r =
    replay_trim (r_items r @ [item]) (r_bytes r + cost item) (r_base r) (r_base_size r)"

definition replay_output :: "bytes \<Rightarrow> replay \<Rightarrow> replay" where
  "replay_output bs r = replay_push (KOutput bs) r"

definition replay_resized :: "term_size \<Rightarrow> replay \<Rightarrow> replay" where
  "replay_resized sz r = replay_push (KResized sz) r"

fun numbered_item :: "output_seq \<Rightarrow> kept \<Rightarrow> numbered" where
  "numbered_item sq (KOutput bs) = Output sq bs"
| "numbered_item sq (KResized sz) = Resized sq sz"

definition replay_since :: "replay \<Rightarrow> output_seq \<Rightarrow> (term_size \<times> numbered list) option" where
  "replay_since r after =
    (if after < r_base r \<or> length (r_items r) < after - r_base r then None
     else
       let skip = after - r_base r;
           sz = foldl resized_to (r_base_size r) (take skip (r_items r))
       in Some (sz, map (\<lambda>(at, item). numbered_item (r_base r + at + 1) item)
            (drop skip (enumerate 0 (r_items r)))))"

section \<open>The stream it is the end of\<close>

text \<open>The items of a stream, numbered from \<open>n\<close> on.\<close>

fun numbered_from :: "output_seq \<Rightarrow> kept list \<Rightarrow> numbered list" where
  "numbered_from n [] = []"
| "numbered_from n (item # items) = numbered_item n item # numbered_from (n + 1) items"

abbreviation costs :: "kept list \<Rightarrow> nat" where
  "costs items \<equiv> sum_list (map cost items)"

text \<open>What a \<open>replay\<close> started at \<open>sq\<close> and \<open>size\<close> keeps of the items that came since.\<close>

definition keeps :: "output_seq \<Rightarrow> term_size \<Rightarrow> kept list \<Rightarrow> replay \<Rightarrow> bool" where
  "keeps sq sz items r \<longleftrightarrow>
    (\<exists>gone. items = gone @ r_items r \<and> r_base r = sq + length gone
      \<and> r_base_size r = foldl resized_to sz gone
      \<and> r_bytes r = costs (r_items r) \<and> r_bytes r \<le> REPLAY_BYTES
      \<and> (gone = [] \<or> REPLAY_BYTES < cost (last gone) + costs (r_items r)))"

lemma numbered_from_append:
  "numbered_from n (xs @ ys) = numbered_from n xs @ numbered_from (n + length xs) ys"
  by (induction xs arbitrary: n) auto

lemma numbered_from_enumerate:
  "map (\<lambda>(at, item). numbered_item (b + at + 1) item) (enumerate k xs) = numbered_from (b + k + 1) xs"
  by (induction xs arbitrary: k) auto

lemma drop_enumerate: "drop n (enumerate k xs) = enumerate (k + n) (drop n xs)"
  by (induction xs arbitrary: n k) (auto simp: drop_Cons split: nat.splits)

lemma keeps_trim:
  assumes "items = gone @ its" and "base = sq + length gone" and "sz' = foldl resized_to sz gone"
    and "n = costs its"
    and "gone = [] \<or> REPLAY_BYTES < cost (last gone) + costs its"
  shows "keeps sq sz items (replay_trim its n base sz')"
  using assms
proof (induction its arbitrary: gone n base sz')
  case Nil
  then show ?case by (auto simp: keeps_def intro!: exI [of _ gone])
next
  case (Cons x its)
  show ?case
  proof (cases "REPLAY_BYTES < n")
    case True
    have "keeps sq sz items (replay_trim its (n - cost x) (base + 1) (resized_to sz' x))"
      using Cons.prems True by (intro Cons.IH [of "gone @ [x]"]) auto
    with True show ?thesis by simp
  next
    case False
    with Cons.prems show ?thesis by (auto simp: keeps_def intro!: exI [of _ gone])
  qed
qed

lemma keeps_new: "keeps sq sz [] (replay_new sq sz)"
  by (simp add: keeps_def replay_new_def)

lemma keeps_push: "keeps sq sz items r \<Longrightarrow> keeps sq sz (items @ [x]) (replay_push x r)"
  unfolding replay_push_def keeps_def [of sq sz items]
  by (elim exE conjE, rule keeps_trim) auto

lemma keeps_run: "keeps sq sz items (fold replay_push items (replay_new sq sz))"
proof (induction items rule: rev_induct)
  case Nil
  then show ?case by (simp add: keeps_new)
next
  case (snoc x xs)
  then show ?case by (simp add: keeps_push)
qed

lemma keeps_since:
  assumes "keeps sq sz items r"
  shows "replay_since r after =
    (if r_base r \<le> after \<and> after \<le> sq + length items
     then Some (foldl resized_to sz (take (after - sq) items),
       numbered_from (after + 1) (drop (after - sq) items))
     else None)"
proof -
  obtain gone where g: "items = gone @ r_items r" "r_base r = sq + length gone"
    "r_base_size r = foldl resized_to sz gone"
    using assms by (auto simp: keeps_def)
  show ?thesis
  proof (cases "r_base r \<le> after \<and> after \<le> sq + length items")
    case True
    define skip where "skip = after - r_base r"
    have s: "after - sq = length gone + skip" "after = r_base r + skip" "skip \<le> length (r_items r)"
      using True g by (auto simp: skip_def)
    have "map (\<lambda>(at, item). numbered_item (r_base r + at + 1) item) (drop skip (enumerate 0 (r_items r)))
      = numbered_from (after + 1) (drop skip (r_items r))"
      using numbered_from_enumerate [of "r_base r" skip "drop skip (r_items r)"] s
      by (simp add: drop_enumerate)
    with s g True show ?thesis
      by (simp add: replay_since_def Let_def skip_def [symmetric])
  next
    case False
    with g show ?thesis by (auto simp: replay_since_def)
  qed
qed

text \<open>C30. What is kept of a stream is the longest end of it that fits in \<open>REPLAY_BYTES\<close>, and asking
  for the items since one of them answers exactly what the whole stream would, with the numbers
  they had and the size the terminal was at, when none of them is gone, and nothing otherwise.\<close>

theorem replay_answers_as_the_stream:
  "let r = fold replay_push items (replay_new sq sz) in
    replay_since r after =
      (if r_base r \<le> after \<and> after \<le> sq + length items
       then Some (foldl resized_to sz (take (after - sq) items),
         numbered_from (after + 1) (drop (after - sq) items))
       else None)
    \<and> sq \<le> r_base r \<and> costs (drop (r_base r - sq) items) \<le> REPLAY_BYTES
    \<and> (sq = r_base r \<or> REPLAY_BYTES < costs (drop (r_base r - sq - 1) items))"
proof -
  let ?r = "fold replay_push items (replay_new sq sz)"
  obtain gone where g: "items = gone @ r_items ?r" "r_base ?r = sq + length gone"
    "costs (r_items ?r) \<le> REPLAY_BYTES"
    "gone = [] \<or> REPLAY_BYTES < cost (last gone) + costs (r_items ?r)"
    using keeps_run [of sq sz items] by (auto simp: keeps_def)
  have rest: "drop (length gone) items = r_items ?r" using g(1) by (metis append_eq_conv_conj)
  have "drop (length gone - 1) items = last gone # r_items ?r" if "gone \<noteq> []"
    using that g(1) by (metis append.assoc append_Cons append_Nil append_butlast_last_id append_eq_conv_conj length_butlast)
  then have "gone = [] \<or> REPLAY_BYTES < costs (drop (length gone - 1) items)"
    using g(4) by (cases "gone = []") simp_all
  with g rest show ?thesis
    by (auto simp: Let_def keeps_since [OF keeps_run])
qed

end
