(* ===== verification/Session.thy ===== *)
theory Session
  imports Replay
begin

text \<open>
  \<open>crates/pty-host/src/session.rs\<close>: one session, what its viewers are sent and what its program
  is written.  \<open>view\<close> is what the view lock guards, \<open>session\<close> the rest; the calls of \<open>Session\<close> are
  functions from a session to its result and the session after it.  What the operating system
  does in a call (the clock's readings in order, whether a write, a resize or a kill fails, a
  fresh UUID) is the record \<open>os\<close>, the terminal emulator the record \<open>vt\<close>.  A viewer is the list of
  what its sink was called with and the sink's answer as a function of that list, so a sink may
  close at any call.  What reaches the program and the other threads is kept in lists:
  \<open>s_written\<close> (one entry per write), \<open>s_pty_sizes\<close>, \<open>s_kills\<close>, \<open>s_wakes\<close>.
\<close>

section \<open>State\<close>

definition SCROLLBACK_LINES :: nat where "SCROLLBACK_LINES = 10000"
definition REPLY_WINDOW :: duration where "REPLY_WINDOW = secs 2"

datatype viewer =
    Terminal "bytes list" "bytes list \<Rightarrow> bool"
  | Numbered "numbered list" "numbered list \<Rightarrow> bool"

record 'p view =
  v_terminal :: "'p headless"
  v_size :: term_size
  v_sinks :: "(attachment_id \<times> viewer) list"
  v_next :: attachment_id
  v_seq :: output_seq
  v_state :: session_state
  v_last_output :: instant
  v_has_output :: bool
  v_busy :: bool
  v_control :: control
  v_queries :: queries
  v_local_size :: term_size
  v_answers_until :: "instant option"
  v_replay :: "replay option"
  v_announced :: controller

record 'p session =
  s_id :: session_id
  s_plan :: launch_plan
  s_pid :: "nat option"
  s_master :: bool
  s_writer :: bool
  s_view :: "'p view"
  s_written :: "bytes list"
  s_pty_sizes :: "term_size list"
  s_kills :: nat
  s_wakes :: nat

record os =
  os_clock :: "nat \<Rightarrow> instant"
  os_write :: "bytes \<Rightarrow> (nat \<times> string) option"
  os_resize :: "string option"
  os_kill :: "string option"
  os_windows :: bool
  os_uuid :: string

definition session_new ::
  "'p vt \<Rightarrow> launch_plan \<Rightarrow> session_id \<Rightarrow> nat option \<Rightarrow> holds \<Rightarrow> instant \<Rightarrow> 'p session" where
  "session_new vt plan i pid hs now =
    (let sz = sanitized (plan_size plan) in
     \<lparr>s_id = i, s_plan = plan, s_pid = pid, s_master = True, s_writer = True,
      s_view = \<lparr>v_terminal = headless_new vt (rows sz) (cols sz) SCROLLBACK_LINES, v_size = sz,
        v_sinks = [], v_next = 1, v_seq = 0, v_state = Running, v_last_output = now,
        v_has_output = False, v_busy = False, v_control = control_new hs,
        v_queries = queries_default, v_local_size = sz, v_answers_until = None, v_replay = None,
        v_announced = Nobody\<rparr>,
      s_written = [], s_pty_sizes = [], s_kills = 0, s_wakes = 0\<rparr>)"

section \<open>Viewers\<close>

fun offer_bytes :: "bytes \<Rightarrow> viewer \<Rightarrow> bool \<times> viewer" where
  "offer_bytes bs (Terminal log sink) = (sink (log @ [bs]), Terminal (log @ [bs]) sink)"
| "offer_bytes bs (Numbered log sink) = (True, Numbered log sink)"

fun offer_item :: "numbered \<Rightarrow> viewer \<Rightarrow> bool \<times> viewer" where
  "offer_item item (Numbered log sink) = (sink (log @ [item]), Numbered (log @ [item]) sink)"
| "offer_item item (Terminal log sink) = (True, Terminal log sink)"

text \<open>\<open>open = open && sink(item)\<close> for each item: nothing more is sent once the sink has closed.\<close>

fun offer_while_open :: "numbered list \<Rightarrow> bool \<times> viewer \<Rightarrow> bool \<times> viewer" where
  "offer_while_open [] ov = ov"
| "offer_while_open (item # items) (opn, v) =
    offer_while_open items (if opn then offer_item item v else (False, v))"

text \<open>\<open>sinks.retain_mut(f)\<close>: every viewer in order, kept when \<open>f\<close> says so.\<close>

definition retain :: "(attachment_id \<Rightarrow> viewer \<Rightarrow> bool \<times> viewer) \<Rightarrow>
    (attachment_id \<times> viewer) list \<Rightarrow> (attachment_id \<times> viewer) list" where
  "retain f sinks =
    concat (map (\<lambda>(i, v). case f i v of (keep, v) \<Rightarrow> if keep then [(i, v)] else []) sinks)"

fun is_terminal :: "viewer \<Rightarrow> bool" where
  "is_terminal (Terminal _ _) = True"
| "is_terminal (Numbered _ _) = False"

definition view_next_attachment :: "'p view \<Rightarrow> attachment_id \<times> 'p view" where
  "view_next_attachment v = (v_next v, v\<lparr>v_next := v_next v + 1\<rparr>)"

definition responder :: "instant \<Rightarrow> 'p view \<Rightarrow> attachment_id option \<times> 'p view" where
  "responder now v =
    (case control_leased now (v_control v) of
       (leased, c) \<Rightarrow>
         (if leased then None
          else map_option fst (find (\<lambda>(i, w). is_terminal w) (rev (v_sinks v))),
          v\<lparr>v_control := c\<rparr>))"

definition announce :: "instant \<Rightarrow> 'p view \<Rightarrow> 'p view" where
  "announce now v =
    (case control_controller now (v_control v) of
       (who, c) \<Rightarrow>
         let v = v\<lparr>v_control := c\<rparr> in
         if who = v_announced v then v
         else v\<lparr>v_announced := who,
           v_sinks := retain (\<lambda>_ w. offer_item (Controlled who) w) (v_sinks v)\<rparr>)"

abbreviation on_view :: "('p view \<Rightarrow> 'p view) \<Rightarrow> 'p session \<Rightarrow> 'p session" where
  "on_view f s \<equiv> s\<lparr>s_view := f (s_view s)\<rparr>"

abbreviation set_control :: "control \<Rightarrow> 'p session \<Rightarrow> 'p session" where
  "set_control c s \<equiv> on_view (v_control_update (\<lambda>_. c)) s"

section \<open>Attaching\<close>

definition session_info_of :: "instant \<Rightarrow> 'p session \<Rightarrow> session_info" where
  "session_info_of now s =
    (let v = s_view s in
     \<lparr>info_id = s_id s, info_program = plan_program (s_plan s), info_args = plan_args (s_plan s),
      info_cwd = plan_cwd (s_plan s), info_pid = s_pid s, info_size = v_size v,
      info_labels = plan_labels (s_plan s), info_state = v_state v, info_has_output = v_has_output v,
      info_busy = v_busy v, info_idle_ms = millis (now - v_last_output v)\<rparr>)"

text \<open>\<open>None\<close> when the snapshot never ends, see \<open>Snapshot\<close>.\<close>

definition session_attach ::
  "'p vt \<Rightarrow> (bytes list \<Rightarrow> bool) \<Rightarrow> 'p session \<Rightarrow> (attachment_id \<times> 'p session) option" where
  "session_attach vt sink s =
    (let (i, v) = view_next_attachment (s_view s) in do {
       (snap, h) \<leftarrow> headless_snapshot vt (v_terminal v);
       let v = v\<lparr>v_terminal := h\<rparr>;
       let (keep, w) = offer_bytes snap (Terminal [] sink);
       Some (i, s\<lparr>s_view := (if keep then v\<lparr>v_sinks := v_sinks v @ [(i, w)]\<rparr> else v)\<rparr>)
     })"

text \<open>What a numbered viewer is sent first: the items since \<open>after\<close> when they are all still kept,
  and a snapshot otherwise.\<close>

definition opening_items ::
  "'p vt \<Rightarrow> output_seq option \<Rightarrow> replay \<Rightarrow> 'p view \<Rightarrow> (numbered list \<times> 'p view) option" where
  "opening_items vt after replay v =
    (case do { n \<leftarrow> after; r \<leftarrow> replay_since replay n; Some (n, r) } of
       Some (n, sz, items) \<Rightarrow> Some (Resumed n sz # items, v)
     | None \<Rightarrow> do {
         (snap, h) \<leftarrow> headless_snapshot vt (v_terminal v);
         Some ([Snapshot (v_seq v) (v_size v) snap], v\<lparr>v_terminal := h\<rparr>)
       })"

definition replay_or_new :: "'p view \<Rightarrow> replay" where
  "replay_or_new v = (case v_replay v of Some r \<Rightarrow> r | None \<Rightarrow> replay_new (v_seq v) (v_size v))"

definition session_attach_numbered ::
  "'p vt \<Rightarrow> os \<Rightarrow> output_seq option \<Rightarrow> (numbered list \<Rightarrow> bool) \<Rightarrow> 'p session \<Rightarrow>
    (attachment_id \<times> 'p session) option" where
  "session_attach_numbered vt os after sink s =
    (let (i, v) = view_next_attachment (s_view s);
         replay = replay_or_new v
     in do {
       (items, v) \<leftarrow> opening_items vt after replay (v\<lparr>v_replay := Some replay\<rparr>);
       let ow = offer_while_open items (True, Numbered [] sink);
       let v = announce (os_clock os 0) v;
       let ow = offer_while_open [Controlled (v_announced v)] ow;
       let (opn, w) = (case v_state v of
           Exited exit \<Rightarrow> offer_while_open [Ended exit] ow
         | Running \<Rightarrow> ow);
       Some (i, s\<lparr>s_view := (if opn then v\<lparr>v_sinks := v_sinks v @ [(i, w)]\<rparr> else v)\<rparr>)
     })"

definition session_detach :: "attachment_id \<Rightarrow> 'p session \<Rightarrow> 'p session" where
  "session_detach i s = on_view (v_sinks_update (filter (\<lambda>(j, _). j \<noteq> i))) s"

section \<open>Writing to the program\<close>

text \<open>\<open>text.replace(pat, rep)\<close> for a pattern that is not empty: left to right, without looking
  again at what it has put in or joined.\<close>

function replace_all :: "bytes \<Rightarrow> bytes \<Rightarrow> bytes \<Rightarrow> bytes" where
  "replace_all pat rep bs =
    (if bs = [] then []
     else if pat \<noteq> [] \<and> prefix pat bs then rep @ replace_all pat rep (drop (length pat) bs)
     else hd bs # replace_all pat rep (tl bs))"
  by pat_completeness auto
termination by (relation "measure (\<lambda>(pat, rep, bs). length bs)") auto

declare replace_all.simps [simp del]

definition PASTE_START :: bytes where "PASTE_START = [0x1b, 0x5b, 0x32, 0x30, 0x30, 0x7e]"
definition PASTE_END :: bytes where "PASTE_END = [0x1b, 0x5b, 0x32, 0x30, 0x31, 0x7e]"

definition pasted :: "bytes \<Rightarrow> bool \<Rightarrow> bytes" where
  "pasted txt bracketed =
    (let normalized = replace_all [0x0d, 0x0a] [0x0a] txt in
     if bracketed then PASTE_START @ replace_all PASTE_END [] normalized @ PASTE_END
     else replace_all [0x0a] [0x0d] normalized)"

definition session_write :: "os \<Rightarrow> bytes \<Rightarrow> 'p session \<Rightarrow> (host_error + unit) \<times> 'p session" where
  "session_write os data s =
    (if \<not> s_writer s then (Inl (SessionExited (s_id s)), s)
     else case os_write os data of
       None \<Rightarrow> (Inr (), s\<lparr>s_written := s_written s @ [data]\<rparr>)
     | Some (n, reason) \<Rightarrow> (Inl (Io reason), s\<lparr>s_written := s_written s @ [take n data]\<rparr>))"

definition bracketed_paste :: "'p vt \<Rightarrow> 'p session \<Rightarrow> bool" where
  "bracketed_paste vt s = vt_bracketed_paste vt (h_parser (v_terminal (s_view s)))"

definition session_paste :: "'p vt \<Rightarrow> os \<Rightarrow> bytes \<Rightarrow> 'p session \<Rightarrow> (host_error + unit) \<times> 'p session" where
  "session_paste vt os txt s = session_write os (pasted txt (bracketed_paste vt s)) s"

section \<open>Control\<close>

fun refused :: "session_id \<Rightarrow> refusal \<Rightarrow> host_error" where
  "refused i Lost = LeaseLost i"
| "refused i (OutOfOrder expected got) = InputOutOfOrder i expected got"
| "refused i (Held by) = ControlHeld i by"
| "refused i BadHolder = InvalidHolder"

definition apply_size :: "'p vt \<Rightarrow> os \<Rightarrow> term_size \<Rightarrow> 'p session \<Rightarrow> (host_error + unit) \<times> 'p session" where
  "apply_size vt os sz s =
    (if v_size (s_view s) = sz then (Inr (), s)
     else case (if s_master s then os_resize os else None) of
       Some reason \<Rightarrow> (Inl (Io reason), s)
     | None \<Rightarrow>
         let s = (if s_master s then s\<lparr>s_pty_sizes := s_pty_sizes s @ [sz]\<rparr> else s);
             v = s_view s; sq = v_seq v + 1
         in (Inr (), s\<lparr>s_view := v\<lparr>v_size := sz,
               v_terminal := headless_set_size vt (rows sz) (cols sz) (v_terminal v),
               v_seq := sq,
               v_replay := map_option (replay_resized sz) (v_replay v),
               v_sinks := retain (\<lambda>_ w. offer_item (Resized sq sz) w) (v_sinks v)\<rparr>\<rparr>))"

text \<open>\<open>controlling\<close>: \<open>f\<close> under the view lock at one reading of the clock, then the announcement,
  then a wake when a hold lapses sooner than before.\<close>

definition controlling ::
  "instant \<Rightarrow> (instant \<Rightarrow> 'p session \<Rightarrow> (host_error + 'a) \<times> 'p session) \<Rightarrow> 'p session \<Rightarrow>
    (host_error + 'a) \<times> 'p session" where
  "controlling now f s =
    (let prior = control_lapses_at (v_control (s_view s));
         (res, s) = f now s;
         s = on_view (announce now) s
     in (res,
         case control_lapses_at (v_control (s_view s)) of
           None \<Rightarrow> s
         | Some after \<Rightarrow>
             if (case prior of None \<Rightarrow> True | Some p \<Rightarrow> after < p) then s\<lparr>s_wakes := s_wakes s + 1\<rparr>
             else s))"

definition take_local_control ::
  "'p vt \<Rightarrow> os \<Rightarrow> instant \<Rightarrow> 'p session \<Rightarrow> (host_error + unit) \<times> 'p session" where
  "take_local_control vt os now s =
    controlling now (\<lambda>now s.
      let s = set_control (snd (control_local_input now (v_control (s_view s)))) s
      in apply_size vt os (v_local_size (s_view s)) s) s"

definition session_local_write ::
  "'p vt \<Rightarrow> os \<Rightarrow> bytes \<Rightarrow> 'p session \<Rightarrow> (host_error + unit) \<times> 'p session" where
  "session_local_write vt os data s =
    (case presence data of
       Some focus \<Rightarrow>
         (case control_leased (os_clock os 0) (v_control (s_view s)) of
            (leased, c) \<Rightarrow> session_write os (if leased then focus else data) (set_control c s))
     | None \<Rightarrow>
         let (answering, k) =
           (case v_answers_until (s_view s) of
              None \<Rightarrow> (False, 0)
            | Some until \<Rightarrow> (os_clock os 0 < until \<and> is_reply data, 1))
         in if answering then session_write os data s
            else case take_local_control vt os (os_clock os k) s of
              (Inl e, s) \<Rightarrow> (Inl e, s)
            | (Inr _, s) \<Rightarrow> session_write os data s)"

definition session_local_paste ::
  "'p vt \<Rightarrow> os \<Rightarrow> bytes \<Rightarrow> 'p session \<Rightarrow> (host_error + unit) \<times> 'p session" where
  "session_local_paste vt os txt s =
    (case take_local_control vt os (os_clock os 0) s of
       (Inl e, s) \<Rightarrow> (Inl e, s)
     | (Inr _, s) \<Rightarrow> session_paste vt os txt s)"

definition session_unattended ::
  "'p vt \<Rightarrow> os \<Rightarrow> bytes \<Rightarrow> bool \<Rightarrow> 'p session \<Rightarrow> (host_error + unit) \<times> 'p session" where
  "session_unattended vt os txt paste s =
    (case controlling (os_clock os 0) (\<lambda>now s.
        case control_leased now (v_control (s_view s)) of
          (leased, c) \<Rightarrow>
            let s = set_control c s in
            if leased then
              (case control_controller now c of
                 (by, c) \<Rightarrow> (Inl (refused (s_id s) (Held by)), set_control c s))
            else (Inr (if paste then pasted txt (bracketed_paste vt s) else txt), s)) s of
       (Inl e, s) \<Rightarrow> (Inl e, s)
     | (Inr payload, s) \<Rightarrow> session_write os payload s)"

definition session_resize ::
  "'p vt \<Rightarrow> os \<Rightarrow> term_size \<Rightarrow> 'p session \<Rightarrow> (host_error + unit) \<times> 'p session" where
  "session_resize vt os sz s =
    (let sz = sanitized sz in
     controlling (os_clock os 0) (\<lambda>now s.
       let s = on_view (v_local_size_update (\<lambda>_. sz)) s in
       case control_leased now (v_control (s_view s)) of
         (leased, c) \<Rightarrow>
           let s = set_control c s in if leased then (Inr (), s) else apply_size vt os sz s) s)"

definition session_controller :: "os \<Rightarrow> 'p session \<Rightarrow> controller \<times> 'p session" where
  "session_controller os s =
    (let s = on_view (announce (os_clock os 0)) s in (v_announced (s_view s), s))"

definition session_acquire ::
  "os \<Rightarrow> bytes \<Rightarrow> bool \<Rightarrow> 'p session \<Rightarrow> (host_error + lease) \<times> 'p session" where
  "session_acquire os who take_over s =
    controlling (os_clock os 0) (\<lambda>now s.
      case v_state (s_view s) of
        Exited _ \<Rightarrow> (Inl (SessionExited (s_id s)), s)
      | Running \<Rightarrow>
          (case control_acquire who take_over (os_uuid os) now (v_control (s_view s)) of
             (Inl r, c) \<Rightarrow> (Inl (refused (s_id s) r), set_control c s)
           | (Inr l, c) \<Rightarrow> (Inr l, set_control c s))) s"

definition session_renew :: "os \<Rightarrow> lease_ref \<Rightarrow> 'p session \<Rightarrow> (host_error + lease) \<times> 'p session" where
  "session_renew os ref s =
    controlling (os_clock os 0) (\<lambda>now s.
      case control_renew ref now (v_control (s_view s)) of
        (Inl r, c) \<Rightarrow> (Inl (refused (s_id s) r), set_control c s)
      | (Inr l, c) \<Rightarrow> (Inr l, set_control c s)) s"

definition session_release ::
  "'p vt \<Rightarrow> os \<Rightarrow> lease_ref \<Rightarrow> 'p session \<Rightarrow> (host_error + unit) \<times> 'p session" where
  "session_release vt os ref s =
    controlling (os_clock os 0) (\<lambda>now s.
      case control_release ref now (v_control (s_view s)) of
        (released, c) \<Rightarrow>
          let s = set_control c s in
          if released then apply_size vt os (v_local_size (s_view s)) s else (Inr (), s)) s"

definition session_input ::
  "'p vt \<Rightarrow> os \<Rightarrow> lease_ref \<Rightarrow> nat \<Rightarrow> bytes \<Rightarrow> bool \<Rightarrow> 'p session \<Rightarrow> (host_error + unit) \<times> 'p session" where
  "session_input vt os ref sq data paste s =
    (case controlling (os_clock os 0) (\<lambda>now s.
        case control_input ref sq now (v_control (s_view s)) of
          (r, c) \<Rightarrow>
            let s = set_control c s in
            case r of
              Inr Fresh \<Rightarrow> (Inr (Some (if paste then pasted data (bracketed_paste vt s) else data)), s)
            | Inr Repeat \<Rightarrow> (Inr None, s)
            | Inl refusal \<Rightarrow> (Inl (refused (s_id s) refusal), s)) s of
       (Inl e, s) \<Rightarrow> (Inl e, s)
     | (Inr (Some payload), s) \<Rightarrow> session_write os payload s
     | (Inr None, s) \<Rightarrow> (Inr (), s))"

definition session_resize_leased ::
  "'p vt \<Rightarrow> os \<Rightarrow> lease_ref \<Rightarrow> term_size \<Rightarrow> 'p session \<Rightarrow> (host_error + unit) \<times> 'p session" where
  "session_resize_leased vt os ref sz s =
    controlling (os_clock os 0) (\<lambda>now s.
      case control_check ref now (v_control (s_view s)) of
        (Inl r, c) \<Rightarrow> (Inl (refused (s_id s) r), set_control c s)
      | (Inr _, c) \<Rightarrow> apply_size vt os (sanitized sz) (set_control c s)) s"

definition session_kill :: "os \<Rightarrow> 'p session \<Rightarrow> (host_error + unit) \<times> 'p session" where
  "session_kill os s =
    (case v_state (s_view s) of
       Exited _ \<Rightarrow> (Inl (SessionExited (s_id s)), s)
     | Running \<Rightarrow>
         let s = s\<lparr>s_kills := s_kills s + 1\<rparr> in
         (if os_windows os then Inr ()
          else case os_kill os of None \<Rightarrow> Inr () | Some reason \<Rightarrow> Inl (Io reason), s))"

section \<open>Output\<close>

text \<open>The batch without its queries; \<open>None\<close> is a panic.\<close>

definition quiet_copy :: "scan \<Rightarrow> bytes \<Rightarrow> bytes option" where
  "quiet_copy sc batch = (if scan_is_empty sc then Some batch else scan_without sc batch)"

definition cursor_report :: "'p vt \<Rightarrow> 'p headless \<Rightarrow> bytes" where
  "cursor_report vt h =
    (let (r, c) = vt_cursor vt (h_parser h) in
     [0x1b, 0x5b] @ show_nat (unat (r + 1)) @ [0x3b] @ show_nat (unat (c + 1)) @ [0x52])"

definition deliver_to :: "bytes \<Rightarrow> bytes \<Rightarrow> output_seq \<Rightarrow> attachment_id option \<Rightarrow>
    attachment_id \<Rightarrow> viewer \<Rightarrow> bool \<times> viewer" where
  "deliver_to batch quiet sq resp i w =
    (let bs = (if Some i = resp then batch else quiet) in
     if is_terminal w then (if bs = [] then (True, w) else offer_bytes bs w)
     else offer_item (Output sq bs) w)"

definition deliver :: "'p vt \<Rightarrow> (nat \<Rightarrow> instant) \<Rightarrow> bytes \<Rightarrow> 'p view \<Rightarrow> (bytes \<times> 'p view) option" where
  "deliver vt clock batch v =
    (let now = clock 0;
         v = announce now v;
         (resp, v) = responder now v;
         (q, sc) = queries_feed (v_queries v) batch
     in do {
       quiet \<leftarrow> quiet_copy sc batch;
       let sq = v_seq v + 1;
       let v = v\<lparr>v_queries := q, v_seq := sq,
         v_replay := map_option (replay_output quiet) (v_replay v),
         v_sinks := retain (deliver_to batch quiet sq resp) (v_sinks v),
         v_terminal := headless_feed vt batch (v_terminal v),
         v_last_output := clock 1, v_has_output := True,
         v_answers_until := (if resp \<noteq> None \<and> \<not> scan_is_empty sc then Some (clock 2 + REPLY_WINDOW)
           else v_answers_until v)\<rparr>;
       Some (if resp = None then concat (replicate (sc_cursor sc) (cursor_report vt (v_terminal v)))
          else [], v)
     })"

text \<open>What the pump does when it has ended: it takes the terminal away, says the program has
  exited and tells the viewers.\<close>

definition session_ended :: "exit_info \<Rightarrow> 'p session \<Rightarrow> 'p session" where
  "session_ended exit s =
    s\<lparr>s_master := False, s_writer := False,
      s_view := (s_view s)\<lparr>v_busy := False, v_state := Exited exit,
        v_sinks := retain (\<lambda>_ w. offer_item (Ended exit) w) (v_sinks (s_view s))\<rparr>\<rparr>"

end
