(* ===== verification/Calls.thy ===== *)
theory Calls
  imports Session
begin

text \<open>
  The calls on a session as one step function, and the interface its invariants share: a predicate
  on what the view lock guards holds after every sequence of calls when each of the few primitive
  changes the calls are made of keeps it.  The theories after this one interpret it.
\<close>

section \<open>Calls\<close>

datatype session_op =
    Attach "bytes list \<Rightarrow> bool"
  | Attach_Numbered "output_seq option" "numbered list \<Rightarrow> bool"
  | Detach attachment_id
  | Local_Write bytes
  | Local_Paste bytes
  | Unattended bytes bool
  | Resize term_size
  | Who
  | Acquire_Lease bytes bool
  | Renew_Lease lease_ref
  | Release_Lease lease_ref
  | Leased_Input lease_ref nat bytes bool
  | Leased_Resize lease_ref term_size
  | Kill
  | Host_Write bytes
  | Host_Paste bytes
  | Deliver bytes
  | End exit_info

text \<open>One call, atomically; \<open>None\<close> when it never returns or panics.\<close>

fun session_step :: "'p vt \<Rightarrow> session_op \<times> os \<Rightarrow> 'p session \<Rightarrow> 'p session option" where
  "session_step vt (Attach sink, os) s = map_option snd (session_attach vt sink s)"
| "session_step vt (Attach_Numbered after sink, os) s =
    map_option snd (session_attach_numbered vt os after sink s)"
| "session_step vt (Detach i, os) s = Some (session_detach i s)"
| "session_step vt (Local_Write data, os) s = Some (snd (session_local_write vt os data s))"
| "session_step vt (Local_Paste txt, os) s = Some (snd (session_local_paste vt os txt s))"
| "session_step vt (Unattended txt paste, os) s = Some (snd (session_unattended vt os txt paste s))"
| "session_step vt (Resize sz, os) s = Some (snd (session_resize vt os sz s))"
| "session_step vt (Who, os) s = Some (snd (session_controller os s))"
| "session_step vt (Acquire_Lease who take_over, os) s = Some (snd (session_acquire os who take_over s))"
| "session_step vt (Renew_Lease ref, os) s = Some (snd (session_renew os ref s))"
| "session_step vt (Release_Lease ref, os) s = Some (snd (session_release vt os ref s))"
| "session_step vt (Leased_Input ref sq data paste, os) s =
    Some (snd (session_input vt os ref sq data paste s))"
| "session_step vt (Leased_Resize ref sz, os) s = Some (snd (session_resize_leased vt os ref sz s))"
| "session_step vt (Kill, os) s = Some (snd (session_kill os s))"
| "session_step vt (Host_Write data, os) s = Some (snd (session_write os data s))"
| "session_step vt (Host_Paste txt, os) s = Some (snd (session_paste vt os txt s))"
| "session_step vt (Deliver batch, os) s =
    map_option (\<lambda>(replies, v). s\<lparr>s_view := v\<rparr>) (deliver vt (os_clock os) batch (s_view s))"
| "session_step vt (End exit, os) s = Some (session_ended exit s)"

fun session_run :: "'p vt \<Rightarrow> (session_op \<times> os) list \<Rightarrow> 'p session \<Rightarrow> 'p session option" where
  "session_run vt [] s = Some s"
| "session_run vt (x # xs) s = do { s \<leftarrow> session_step vt x s; session_run vt xs s }"

section \<open>Invariants of the view\<close>

lemma control_steps:
  "control_leased now c = (b, c') \<Longrightarrow> c' = control_step (Look, now) c"
  "control_controller now c = (w, c') \<Longrightarrow> c' = control_step (Look, now) c"
  "control_local_input now c = (b, c') \<Longrightarrow> c' = control_step (Type_Locally, now) c"
  "control_acquire h take_over u now c = (l, c') \<Longrightarrow> c' = control_step (Acquire h take_over u, now) c"
  "control_renew ref now c = (l, c') \<Longrightarrow> c' = control_step (Renew ref, now) c"
  "control_release ref now c = (b, c') \<Longrightarrow> c' = control_step (Release ref, now) c"
  "control_input ref n now c = (d, c') \<Longrightarrow> c' = control_step (Input ref n, now) c"
  "control_check ref now c = (e, c') \<Longrightarrow> c' = control_step (Check ref, now) c"
  by (auto simp: control_leased_def control_controller_def Let_def)

lemma write_view [simp]: "s_view (snd (session_write os data s)) = s_view s"
  by (simp add: session_write_def split: option.splits)

lemma paste_view [simp]: "s_view (snd (session_paste vt os txt s)) = s_view s"
  by (simp add: session_paste_def)

locale view_invariant =
  fixes vt :: "'p vt" and P :: "'p view \<Rightarrow> bool"
  assumes announce: "P v \<Longrightarrow> P (announce now v)"
    and control: "P v \<Longrightarrow> P (v\<lparr>v_control := control_step x (v_control v)\<rparr>)"
    and local_size: "P v \<Longrightarrow> P (v\<lparr>v_local_size := sanitized sz\<rparr>)"
    and apply_local: "P (s_view s) \<Longrightarrow> P (s_view (snd (apply_size vt os (v_local_size (s_view s)) s)))"
    and apply_sanitized: "P (s_view s) \<Longrightarrow> P (s_view (snd (apply_size vt os (sanitized sz) s)))"
    and attach: "P (s_view s) \<Longrightarrow> session_attach vt tsink s = Some (i, s') \<Longrightarrow> P (s_view s')"
    and attach_numbered:
      "P (s_view s) \<Longrightarrow> session_attach_numbered vt os after nsink s = Some (i, s') \<Longrightarrow> P (s_view s')"
    and detach: "P (s_view s) \<Longrightarrow> P (s_view (session_detach i s))"
    and delivered: "P v \<Longrightarrow> deliver vt clock batch v = Some (replies, v') \<Longrightarrow> P v'"
    and ended: "P (s_view s) \<Longrightarrow> P (s_view (session_ended exit s))"
begin

lemma control_to: "P v \<Longrightarrow> c = control_step x (v_control v) \<Longrightarrow> P (v\<lparr>v_control := c\<rparr>)"
  using control by simp

lemmas control_tos =
  control_to [OF _ control_steps(1)] control_to [OF _ control_steps(2)]
  control_to [OF _ control_steps(3)] control_to [OF _ control_steps(4)]
  control_to [OF _ control_steps(5)] control_to [OF _ control_steps(6)]
  control_to [OF _ control_steps(7)] control_to [OF _ control_steps(8)]

lemma apply_local_at:
  "P (s_view s) \<Longrightarrow> sz = v_local_size (s_view s) \<Longrightarrow> P (s_view (snd (apply_size vt os sz s)))"
  using apply_local by simp

lemma controlling:
  assumes "P (s_view (snd (f now s)))"
  shows "P (s_view (snd (controlling now f s)))"
proof -
  obtain res s' where f: "f now s = (res, s')" by fastforce
  then show ?thesis
    using announce [of "s_view s'" now] assms
    by (auto simp: controlling_def Let_def split: option.splits)
qed

lemma take_local: "P (s_view s) \<Longrightarrow> P (s_view (snd (take_local_control vt os now s)))"
  unfolding take_local_control_def
  by (rule controlling) (auto simp: Let_def intro!: apply_local_at control_tos(3) prod.collapse [symmetric])

lemma local_write:
  assumes "P (s_view s)"
  shows "P (s_view (snd (session_local_write vt os data s)))"
proof -
  have "s_view (snd (case take_local_control vt os now s of (Inl e, s) \<Rightarrow> (Inl e, s)
      | (Inr _, s) \<Rightarrow> session_write os data s)) = s_view (snd (take_local_control vt os now s))" for now
    by (auto split: prod.splits sum.splits)
  with take_local [OF assms] assms show ?thesis
    by (auto simp: session_local_write_def Let_def split: option.splits prod.splits intro: control_tos(1))
qed

lemma local_paste:
  assumes "P (s_view s)"
  shows "P (s_view (snd (session_local_paste vt os txt s)))"
proof -
  have "s_view (snd (session_local_paste vt os txt s)) =
      s_view (snd (take_local_control vt os (os_clock os 0) s))"
    by (auto simp: session_local_paste_def split: prod.splits sum.splits)
  then show ?thesis using take_local [OF assms] by simp
qed

lemma unattended:
  assumes "P (s_view s)"
  shows "P (s_view (snd (session_unattended vt os txt paste s)))"
proof -
  let ?f = "\<lambda>now s. case control_leased now (v_control (s_view s)) of
          (leased, c) \<Rightarrow>
            let s = set_control c s in
            if leased then
              (case control_controller now c of
                 (by, c) \<Rightarrow> (Inl (refused (s_id s) (Held by)), set_control c s))
            else (Inr (if paste then pasted txt (bracketed_paste vt s) else txt), s)"
  have "s_view (snd (session_unattended vt os txt paste s)) = s_view (snd (controlling (os_clock os 0) ?f s))"
    by (auto simp: session_unattended_def split: prod.splits sum.splits)
  moreover have "P (s_view (snd (controlling (os_clock os 0) ?f s)))"
  proof (rule controlling)
    obtain leased c where c: "control_leased (os_clock os 0) (v_control (s_view s)) = (leased, c)" by fastforce
    obtain w c' where c': "control_controller (os_clock os 0) c = (w, c')" by fastforce
    have "P ((s_view s)\<lparr>v_control := c\<rparr>)" by (rule control_tos(1) [OF assms c])
    moreover from control_tos(2) [OF this, of "os_clock os 0" w c'] c'
    have "P ((s_view s)\<lparr>v_control := c'\<rparr>)" by simp
    ultimately show "P (s_view (snd (?f (os_clock os 0) s)))" by (simp add: c c' Let_def)
  qed
  ultimately show ?thesis by simp
qed

lemma input:
  assumes "P (s_view s)"
  shows "P (s_view (snd (session_input vt os ref sq data paste s)))"
proof -
  let ?f = "\<lambda>now s. case control_input ref sq now (v_control (s_view s)) of
          (r, c) \<Rightarrow>
            let s = set_control c s in
            case r of
              Inr Fresh \<Rightarrow> (Inr (Some (if paste then pasted data (bracketed_paste vt s) else data)), s)
            | Inr Repeat \<Rightarrow> (Inr None, s)
            | Inl refusal \<Rightarrow> (Inl (refused (s_id s) refusal), s)"
  have "s_view (snd (session_input vt os ref sq data paste s)) = s_view (snd (controlling (os_clock os 0) ?f s))"
    by (auto simp: session_input_def split: prod.splits sum.splits option.splits)
  moreover have "P (s_view (snd (controlling (os_clock os 0) ?f s)))"
  proof (rule controlling)
    obtain r c where c: "control_input ref sq (os_clock os 0) (v_control (s_view s)) = (r, c)" by fastforce
    have "s_view (snd (?f (os_clock os 0) s)) = (s_view s)\<lparr>v_control := c\<rparr>"
      by (simp add: c Let_def split: sum.splits delivery.splits)
    then show "P (s_view (snd (?f (os_clock os 0) s)))" using control_tos(7) [OF assms c] by simp
  qed
  ultimately show ?thesis by simp
qed

lemma resize:
  assumes "P (s_view s)"
  shows "P (s_view (snd (session_resize vt os sz s)))"
  unfolding session_resize_def Let_def
proof (rule controlling)
  let ?now = "os_clock os 0" and ?v = "(s_view s)\<lparr>v_local_size := sanitized sz\<rparr>"
  obtain leased c where c: "control_leased ?now (v_control ?v) = (leased, c)" by fastforce
  have v: "P (?v\<lparr>v_control := c\<rparr>)" by (rule control_tos(1) [OF local_size [OF assms] c])
  then have "P (s_view (snd (apply_size vt os (sanitized sz) (s\<lparr>s_view := ?v\<lparr>v_control := c\<rparr>\<rparr>))))"
    by (intro apply_sanitized) simp
  with v c show "P (s_view (snd (case control_leased ?now (v_control (s_view (on_view (v_local_size_update (\<lambda>_. sanitized sz)) s))) of
      (leased, c) \<Rightarrow> if leased
        then (Inr (), set_control c (on_view (v_local_size_update (\<lambda>_. sanitized sz)) s))
        else apply_size vt os (sanitized sz) (set_control c (on_view (v_local_size_update (\<lambda>_. sanitized sz)) s)))))"
    by simp
qed

lemma acquire: "P (s_view s) \<Longrightarrow> P (s_view (snd (session_acquire os who take_over s)))"
  unfolding session_acquire_def
  by (rule controlling) (auto split: prod.splits sum.splits session_state.splits intro: control_tos(4))

lemma renew: "P (s_view s) \<Longrightarrow> P (s_view (snd (session_renew os ref s)))"
  unfolding session_renew_def
  by (rule controlling) (auto split: prod.splits sum.splits intro: control_tos(5))

lemma release: "P (s_view s) \<Longrightarrow> P (s_view (snd (session_release vt os ref s)))"
  unfolding session_release_def
  by (rule controlling) (auto simp: Let_def split: prod.splits intro!: apply_local_at intro: control_tos(6))

lemma resize_leased: "P (s_view s) \<Longrightarrow> P (s_view (snd (session_resize_leased vt os ref sz s)))"
  unfolding session_resize_leased_def
  by (rule controlling) (auto split: prod.splits sum.splits intro!: apply_sanitized intro: control_tos(8))

lemma step_keeps:
  assumes "P (s_view s)" and "session_step vt x s = Some s'"
  shows "P (s_view s')"
proof (cases x)
  case (Pair op os)
  show ?thesis
  proof (cases op)
    case (Deliver batch)
    with assms Pair show ?thesis by (auto intro: delivered)
  next
    case Kill
    with assms Pair show ?thesis
      by (auto simp: session_kill_def Let_def split: session_state.splits)
  next
    case Who
    with assms Pair announce show ?thesis by (auto simp: session_controller_def Let_def)
  qed (use assms Pair in \<open>auto intro: attach attach_numbered detach ended local_write local_paste
      unattended input resize acquire renew release resize_leased\<close>)
qed

lemma run_keeps: "P (s_view s) \<Longrightarrow> session_run vt xs s = Some s' \<Longrightarrow> P (s_view s')"
proof (induction xs arbitrary: s)
  case Nil
  then show ?case by simp
next
  case (Cons x xs)
  then obtain s1 where "session_step vt x s = Some s1" "session_run vt xs s1 = Some s'"
    by (auto simp: bind_eq_Some_conv)
  then show ?case using Cons step_keeps by blast
qed

end

end
