(* ===== verification/Streams.thy ===== *)
theory Streams
  imports Calls
begin

text \<open>
  What a session's numbered viewers are sent, for every sequence of calls.  The specification is a
  single list of items per session, its stream: every batch without its queries and every resize,
  in the order they happened.  A numbered viewer's log starts with one item that says where it
  joins the stream and continues with exactly the items from there on; the replay keeps an end of
  the same stream.
\<close>

section \<open>The stream\<close>

fun is_item :: "numbered \<Rightarrow> bool" where
  "is_item (Output _ _) = True"
| "is_item (Resized _ _) = True"
| "is_item _ = False"

fun is_opening :: "numbered \<Rightarrow> bool" where
  "is_opening (Snapshot _ _ _) = True"
| "is_opening (Resumed _ _) = True"
| "is_opening _ = False"

abbreviation size_after :: "term_size \<Rightarrow> kept list \<Rightarrow> term_size" where
  "size_after sz0 items \<equiv> foldl resized_to sz0 items"

text \<open>The first thing a numbered viewer is sent, when it joins after item \<open>n\<close>.\<close>

definition joins_at :: "term_size \<Rightarrow> kept list \<Rightarrow> output_seq \<Rightarrow> numbered \<Rightarrow> bool" where
  "joins_at sz0 hist n x \<longleftrightarrow> n \<le> length hist \<and>
    (x = Resumed n (size_after sz0 (take n hist)) \<or> (\<exists>bs. x = Snapshot n (size_after sz0 (take n hist)) bs))"

definition follows_stream :: "term_size \<Rightarrow> kept list \<Rightarrow> numbered list \<Rightarrow> bool" where
  "follows_stream sz0 hist log \<longleftrightarrow>
    (\<exists>n x rest. log = x # rest \<and> joins_at sz0 hist n x \<and> list_all (\<lambda>y. \<not> is_opening y) rest
      \<and> filter is_item rest = numbered_from (n + 1) (drop n hist))"

fun viewer_follows :: "term_size \<Rightarrow> kept list \<Rightarrow> viewer \<Rightarrow> bool" where
  "viewer_follows sz0 hist (Terminal _ _) = True"
| "viewer_follows sz0 hist (Numbered log _) = follows_stream sz0 hist log"

definition replay_follows :: "term_size \<Rightarrow> kept list \<Rightarrow> replay option \<Rightarrow> bool" where
  "replay_follows sz0 hist r =
    (case r of None \<Rightarrow> True
     | Some r \<Rightarrow> \<exists>n \<le> length hist. keeps n (size_after sz0 (take n hist)) (drop n hist) r)"

definition stream_inv :: "term_size \<Rightarrow> kept list \<Rightarrow> 'p view \<Rightarrow> bool" where
  "stream_inv sz0 hist v \<longleftrightarrow>
    v_seq v = length hist \<and> v_size v = size_after sz0 hist \<and> replay_follows sz0 hist (v_replay v)
    \<and> distinct (map fst (v_sinks v)) \<and> (\<forall>i \<in> fst ` set (v_sinks v). i < v_next v)
    \<and> (\<forall>(i, w) \<in> set (v_sinks v). viewer_follows sz0 hist w)
    \<and> (\<exists>st. follows (v_queries v) st)"

definition stream_grows :: "term_size \<Rightarrow> kept list \<Rightarrow> 'p view \<Rightarrow> bool" where
  "stream_grows sz0 hist v \<longleftrightarrow> (\<exists>new. stream_inv sz0 (hist @ new) v)"

lemma stream_growsI: "stream_inv sz0 hist v \<Longrightarrow> stream_grows sz0 hist v"
  unfolding stream_grows_def by (metis append_Nil2)

lemma stream_grows_trans:
  "stream_grows sz0 hist v \<Longrightarrow> (\<And>h. stream_inv sz0 h v \<Longrightarrow> stream_grows sz0 h v') \<Longrightarrow>
    stream_grows sz0 hist v'"
  unfolding stream_grows_def by (metis append.assoc)

section \<open>Logs\<close>

lemma follows_stream_other:
  assumes "follows_stream sz0 hist log" and "\<not> is_item x" and "\<not> is_opening x"
  shows "follows_stream sz0 hist (log @ [x])"
proof -
  obtain n y rest where l: "log = y # rest" "joins_at sz0 hist n y"
    "list_all (\<lambda>y. \<not> is_opening y) rest" "filter is_item rest = numbered_from (n + 1) (drop n hist)"
    using assms(1) unfolding follows_stream_def by blast
  with assms(2,3) show ?thesis
    unfolding follows_stream_def by (intro exI [of _ n] exI [of _ y] exI [of _ "rest @ [x]"]) simp
qed

lemma joins_at_grows: "joins_at sz0 hist n x \<Longrightarrow> joins_at sz0 (hist @ new) n x"
  by (auto simp: joins_at_def)

lemma numbered_item_kind [simp]: "is_item (numbered_item n it)" "\<not> is_opening (numbered_item n it)"
  by (cases it; simp)+

lemma follows_stream_item:
  assumes "follows_stream sz0 hist log"
  shows "follows_stream sz0 (hist @ [it]) (log @ [numbered_item (length hist + 1) it])"
proof -
  obtain n y rest where l: "log = y # rest" "joins_at sz0 hist n y"
    "list_all (\<lambda>y. \<not> is_opening y) rest" "filter is_item rest = numbered_from (n + 1) (drop n hist)"
    using assms unfolding follows_stream_def by blast
  then have "n \<le> length hist" by (simp add: joins_at_def)
  with l have "filter is_item (rest @ [numbered_item (length hist + 1) it]) =
      numbered_from (n + 1) (drop n (hist @ [it]))"
    by (simp add: numbered_from_append)
  with l joins_at_grows [OF l(2), of "[it]"] show ?thesis
    unfolding follows_stream_def
    by (intro exI [of _ n] exI [of _ y] exI [of _ "rest @ [numbered_item (length hist + 1) it]"]) simp
qed

lemma follows_stream_opening:
  assumes "joins_at sz0 hist n x" and "list_all (\<lambda>y. \<not> is_opening y) rest"
    and "filter is_item rest = numbered_from (n + 1) (drop n hist)"
  shows "follows_stream sz0 hist (x # rest)"
  using assms unfolding follows_stream_def by blast

lemma retain_Nil [simp]: "retain f [] = []"
  by (simp add: retain_def)

lemma retain_Cons [simp]:
  "retain f ((i, w) # ws) = (case f i w of (keep, w) \<Rightarrow> if keep then (i, w) # retain f ws else retain f ws)"
  by (auto simp: retain_def split: prod.splits)

lemma retain_in: "(i, w') \<in> set (retain f ws) \<Longrightarrow> \<exists>w. (i, w) \<in> set ws \<and> f i w = (True, w')"
proof (induction ws)
  case Nil
  then show ?case by simp
next
  case (Cons x ws)
  obtain j u keep u' where x: "x = (j, u)" "f j u = (keep, u')" by (cases x, cases "f (fst x) (snd x)") auto
  with Cons.prems consider "keep" "i = j" "w' = u'" | "(i, w') \<in> set (retain f ws)"
    by (cases keep) auto
  then show ?case using x Cons.IH by cases auto
qed

lemma retain_ids: "fst ` set (retain f ws) \<subseteq> fst ` set ws"
  by (auto dest!: retain_in intro: rev_image_eqI)

lemma retain_distinct: "distinct (map fst ws) \<Longrightarrow> distinct (map fst (retain f ws))"
proof (induction ws)
  case Nil
  then show ?case by simp
next
  case (Cons x ws)
  obtain j u keep u' where x: "x = (j, u)" "f j u = (keep, u')" by (cases x, cases "f (fst x) (snd x)") auto
  then have "j \<notin> fst ` set (retain f ws)" using Cons.prems retain_ids [of f ws] by auto
  with Cons x show ?case by simp
qed

lemma offer_item_follows:
  assumes "viewer_follows sz0 hist w" and "\<not> is_item x" and "\<not> is_opening x"
  shows "viewer_follows sz0 hist (snd (offer_item x w))"
  using assms by (cases w) (auto intro: follows_stream_other)

section \<open>Operations on the view\<close>

lemma stream_inv_sinks:
  assumes "stream_inv sz0 hist v"
    and "v_seq v' = length hist'" and "v_size v' = size_after sz0 hist'"
    and "replay_follows sz0 hist' (v_replay v')" and "v_next v' = v_next v"
    and "v_sinks v' = retain f (v_sinks v)"
    and "\<And>i w. (i, w) \<in> set (v_sinks v) \<Longrightarrow> viewer_follows sz0 hist w \<Longrightarrow> viewer_follows sz0 hist' (snd (f i w))"
    and "\<exists>st. follows (v_queries v') st"
  shows "stream_inv sz0 hist' v'"
proof -
  have "viewer_follows sz0 hist' w'" if here: "(i, w') \<in> set (v_sinks v')" for i w'
  proof -
    obtain w where w: "(i, w) \<in> set (v_sinks v)" "f i w = (True, w')"
      using retain_in [OF here [unfolded assms(6)]] by blast
    then have "viewer_follows sz0 hist w" using assms(1) by (auto simp: stream_inv_def)
    with assms(7) [OF w(1)] w(2) show ?thesis by simp
  qed
  then have "\<forall>(i, w) \<in> set (v_sinks v'). viewer_follows sz0 hist' w" by blast
  moreover have "\<forall>i \<in> fst ` set (v_sinks v'). i < v_next v'"
    using assms(1) retain_ids [of f "v_sinks v"] unfolding assms(5,6) stream_inv_def by blast
  moreover have "distinct (map fst (v_sinks v'))"
    using assms(1,6) by (simp add: stream_inv_def retain_distinct)
  ultimately show ?thesis using assms by (simp add: stream_inv_def)
qed

lemma stream_inv_other:
  assumes "stream_inv sz0 hist v"
    and "v_seq v' = v_seq v" "v_size v' = v_size v" "v_replay v' = v_replay v"
      "v_next v' = v_next v" "v_sinks v' = v_sinks v" "v_queries v' = v_queries v"
  shows "stream_inv sz0 hist v'"
  using assms by (simp add: stream_inv_def)

lemma announce_stream: "stream_inv sz0 hist v \<Longrightarrow> stream_inv sz0 hist (announce now v)"
proof -
  assume inv: "stream_inv sz0 hist v"
  obtain who c where cc: "control_controller now (v_control v) = (who, c)" by fastforce
  have "stream_inv sz0 hist (v\<lparr>v_control := c, v_announced := who,
      v_sinks := retain (\<lambda>_ w. offer_item (Controlled who) w) (v_sinks v)\<rparr>)"
    by (rule stream_inv_sinks [OF inv]) (use inv in \<open>auto simp: stream_inv_def intro: offer_item_follows\<close>)
  moreover have "stream_inv sz0 hist (v\<lparr>v_control := c\<rparr>)"
    by (rule stream_inv_other [OF inv]) simp_all
  ultimately show ?thesis by (simp add: announce_def cc Let_def)
qed

lemma size_after_grows:
  "n \<le> length hist \<Longrightarrow> size_after sz0 (take n (hist @ new)) = size_after sz0 (take n hist)"
  by simp

lemma replay_follows_push:
  assumes "replay_follows sz0 hist r"
  shows "replay_follows sz0 (hist @ [it]) (map_option (replay_push it) r)"
proof (cases r)
  case None
  then show ?thesis by (simp add: replay_follows_def)
next
  case (Some q)
  then obtain n where n: "n \<le> length hist" "keeps n (size_after sz0 (take n hist)) (drop n hist) q"
    using assms by (auto simp: replay_follows_def)
  with keeps_push [OF n(2), of it] Some show ?thesis
    by (auto simp: replay_follows_def intro!: exI [of _ n])
qed

lemma apply_size_stream:
  assumes "stream_inv sz0 hist (s_view s)"
  shows "stream_grows sz0 hist (s_view (snd (apply_size vt os sz s)))"
proof -
  let ?v = "s_view s"
  have "stream_inv sz0 (hist @ [KResized sz]) (?v\<lparr>v_size := sz,
      v_terminal := headless_set_size vt (rows sz) (cols sz) (v_terminal ?v), v_seq := v_seq ?v + 1,
      v_replay := map_option (replay_resized sz) (v_replay ?v),
      v_sinks := retain (\<lambda>_ w. offer_item (Resized (v_seq ?v + 1) sz) w) (v_sinks ?v)\<rparr>)" (is "stream_inv _ _ ?v'")
  proof (rule stream_inv_sinks [OF assms])
    fix i w assume "viewer_follows sz0 hist w"
    then show "viewer_follows sz0 (hist @ [KResized sz]) (snd (offer_item (Resized (v_seq ?v + 1) sz) w))"
      using assms follows_stream_item [of sz0 hist _ "KResized sz"] by (cases w) (auto simp: stream_inv_def)
  next
    have "replay_resized sz = replay_push (KResized sz)" by (simp add: replay_resized_def fun_eq_iff)
    then show "replay_follows sz0 (hist @ [KResized sz]) (v_replay ?v')"
      using assms by (auto simp: stream_inv_def intro: replay_follows_push)
  qed (use assms in \<open>auto simp: stream_inv_def\<close>)
  then have g: "stream_grows sz0 hist ?v'" unfolding stream_grows_def by blast
  show ?thesis
    using g stream_growsI [OF assms]
    by (auto simp: apply_size_def Let_def split: option.splits)
qed

lemma set_control_stream [simp]:
  "stream_inv sz0 hist (v\<lparr>v_control := c\<rparr>) = stream_inv sz0 hist v"
  by (simp add: stream_inv_def)

lemma local_size_stream [simp]:
  "stream_inv sz0 hist (v\<lparr>v_local_size := sz\<rparr>) = stream_inv sz0 hist v"
  by (simp add: stream_inv_def)

lemma quiet_copy_total:
  "follows q st \<Longrightarrow> \<exists>w. quiet_copy (snd (queries_feed q batch)) batch = Some w"
  by (simp add: quiet_copy_def feed_without)

lemma responder_stream:
  "stream_inv sz0 hist v \<Longrightarrow> stream_inv sz0 hist (snd (responder now v))"
  by (simp add: responder_def split: prod.splits)

lemma find_Some_in: "find P xs = Some x \<Longrightarrow> x \<in> set xs \<and> P x"
  by (induction xs) (auto split: if_splits)

lemma responder_terminal:
  assumes "fst (responder now v) = Some i" and "(i, w) \<in> set (v_sinks v)"
    and "distinct (map fst (v_sinks v))"
  shows "is_terminal w"
proof -
  obtain w' where w': "(i, w') \<in> set (v_sinks v)" "is_terminal w'"
    using assms(1) find_Some_in [of "\<lambda>(i, w). is_terminal w" "rev (v_sinks v)"]
    by (auto simp: responder_def split: prod.splits if_splits)
  then have "w = w'" using assms(2,3) by (meson eq_key_imp_eq_value)
  with w' show ?thesis by simp
qed

lemma responder_same: "v_sinks (snd (responder now v)) = v_sinks v"
  by (simp add: responder_def split: prod.splits)

lemma deliver_stream:
  assumes "stream_inv sz0 hist v"
  shows "\<exists>replies v' it. deliver vt clock batch v = Some (replies, v') \<and> stream_inv sz0 (hist @ [it]) v'"
proof -
  define v1 where "v1 = announce (clock 0) v"
  obtain resp v2 where r: "responder (clock 0) v1 = (resp, v2)" by fastforce
  obtain q sc where q: "queries_feed (v_queries v2) batch = (q, sc)" by fastforce
  have i1: "stream_inv sz0 hist v1" using announce_stream [OF assms] by (simp add: v1_def)
  have i2: "stream_inv sz0 hist v2" using responder_stream [OF i1, of "clock 0"] r by simp
  obtain st where st: "follows (v_queries v2) st" using i2 by (auto simp: stream_inv_def)
  then obtain quiet where w: "quiet_copy sc batch = Some quiet"
    using quiet_copy_total [OF st, of batch] q by auto
  let ?v = "v2\<lparr>v_queries := q, v_seq := v_seq v2 + 1,
      v_replay := map_option (replay_output quiet) (v_replay v2),
      v_sinks := retain (deliver_to batch quiet (v_seq v2 + 1) resp) (v_sinks v2),
      v_terminal := headless_feed vt batch (v_terminal v2),
      v_last_output := clock 1, v_has_output := True,
      v_answers_until := (if resp \<noteq> None \<and> \<not> scan_is_empty sc then Some (clock 2 + REPLY_WINDOW)
        else v_answers_until v2)\<rparr>"
  have "stream_inv sz0 (hist @ [KOutput quiet]) ?v"
  proof (rule stream_inv_sinks [OF i2])
    fix i w assume in_sinks: "(i, w) \<in> set (v_sinks v2)" and f: "viewer_follows sz0 hist w"
    have "is_terminal w" if "Some i = resp"
      using responder_terminal [of "clock 0" v1 i w] that in_sinks i1 r responder_same [of "clock 0" v1]
      by (simp add: stream_inv_def)
    then show "viewer_follows sz0 (hist @ [KOutput quiet]) (snd (deliver_to batch quiet (v_seq v2 + 1) resp i w))"
      using f i2 follows_stream_item [of sz0 hist _ "KOutput quiet"]
      by (cases w) (auto simp: deliver_to_def Let_def stream_inv_def)
  next
    have "replay_output quiet = replay_push (KOutput quiet)" by (simp add: replay_output_def fun_eq_iff)
    then show "replay_follows sz0 (hist @ [KOutput quiet]) (v_replay ?v)"
      using i2 by (auto simp: stream_inv_def intro: replay_follows_push)
  next
    show "\<exists>st. follows (v_queries ?v) st"
      using queries_feed_follows(1) [OF st, of batch] q
      by (intro exI [of _ "term_after st batch"]) simp
  qed (use i2 in \<open>auto simp: stream_inv_def\<close>)
  moreover have "\<exists>replies. deliver vt clock batch v = Some (replies, ?v)"
    using r q w by (simp add: deliver_def v1_def Let_def)
  ultimately show ?thesis by blast
qed

lemma offer_numbered:
  assumes "offer_while_open items (opn, Numbered log sink) = (opn', w)" and "opn'"
  shows "opn \<and> w = Numbered (log @ items) sink"
  using assms
proof (induction items arbitrary: opn log)
  case Nil
  then show ?case by simp
next
  case (Cons x xs)
  then show ?case by (cases opn) (fastforce split: if_splits)+
qed

lemma stream_inv_attach:
  assumes "stream_inv sz0 hist v" and "v_next v' = v_next v + 1" and "v_seq v' = v_seq v"
    and "v_size v' = v_size v" and "replay_follows sz0 hist (v_replay v')"
    and "v_queries v' = v_queries v" and "v_sinks v' = v_sinks v"
  shows "stream_inv sz0 hist v'"
  using assms by (fastforce simp: stream_inv_def)

lemma stream_inv_push:
  assumes "stream_inv sz0 hist v" and "\<forall>j \<in> fst ` set (v_sinks v). j < i" and "i < v_next v"
    and "viewer_follows sz0 hist w"
  shows "stream_inv sz0 hist (v\<lparr>v_sinks := v_sinks v @ [(i, w)]\<rparr>)"
  using assms by (auto simp: stream_inv_def)

lemma attach_stream:
  assumes "stream_inv sz0 hist (s_view s)" and "session_attach vt sink s = Some (i, s')"
  shows "stream_inv sz0 hist (s_view s')"
proof -
  let ?v = "s_view s"
  obtain snap h where h: "headless_snapshot vt (v_terminal ?v) = Some (snap, h)"
    using assms(2) by (auto simp: session_attach_def view_next_attachment_def bind_eq_Some_conv)
  let ?v' = "?v\<lparr>v_next := v_next ?v + 1, v_terminal := h\<rparr>"
  have inv: "stream_inv sz0 hist ?v'"
    by (rule stream_inv_attach [OF assms(1)]) (use assms(1) in \<open>auto simp: stream_inv_def\<close>)
  then have "stream_inv sz0 hist (?v'\<lparr>v_sinks := v_sinks ?v' @ [(v_next ?v, Terminal [snap] sink)]\<rparr>)"
    by (rule stream_inv_push) (use assms(1) in \<open>auto simp: stream_inv_def\<close>)
  with inv assms(2) h show ?thesis
    by (auto simp: session_attach_def view_next_attachment_def Let_def)
qed

lemma opening_items_stream:
  assumes "stream_inv sz0 hist v" and "v_replay v = Some r"
    and "opening_items vt after r v = Some (items, v')"
  shows "follows_stream sz0 hist items \<and> stream_inv sz0 hist v' \<and> v_next v' = v_next v
    \<and> v_sinks v' = v_sinks v"
proof (cases "do { n \<leftarrow> after; r \<leftarrow> replay_since r n; Some (n, r) }")
  case None
  obtain snap h where h: "headless_snapshot vt (v_terminal v) = Some (snap, h)"
    "items = [Snapshot (v_seq v) (v_size v) snap]" "v' = v\<lparr>v_terminal := h\<rparr>"
    using assms(3) None by (auto simp: opening_items_def bind_eq_Some_conv split: option.splits)
  have "follows_stream sz0 hist items"
    unfolding h(2)
    by (rule follows_stream_opening [of _ _ "length hist"])
      (use assms(1) in \<open>auto simp: joins_at_def stream_inv_def\<close>)
  moreover have "stream_inv sz0 hist v'"
    by (rule stream_inv_other [OF assms(1)]) (simp_all add: h(3))
  ultimately show ?thesis using h(3) by simp
next
  case (Some x)
  obtain n sz its where x: "x = (n, sz, its)" by (cases x) auto
  have since: "after = Some n" "replay_since r n = Some (sz, its)"
    using Some x by (auto simp: bind_eq_Some_conv)
  have out: "items = Resumed n sz # its" "v' = v"
    using assms(3) Some x by (simp_all add: opening_items_def)
  obtain m where m: "m \<le> length hist" "keeps m (size_after sz0 (take m hist)) (drop m hist) r"
    using assms(1,2) by (auto simp: stream_inv_def replay_follows_def)
  note k = keeps_since [OF m(2), of n]
  have base: "m \<le> r_base r" using m(2) by (auto simp: keeps_def)
  have n: "m \<le> n" "n \<le> length hist" using k since(2) m(1) base by (auto split: if_splits)
  have "sz = size_after (size_after sz0 (take m hist)) (take (n - m) (drop m hist))"
    "its = numbered_from (n + 1) (drop (n - m) (drop m hist))"
    using k since(2) by (auto split: if_splits)
  moreover have "take m hist @ take (n - m) (drop m hist) = take n hist"
    using n by (metis le_add_diff_inverse take_add)
  ultimately have its: "sz = size_after sz0 (take n hist)" "its = numbered_from (n + 1) (drop n hist)"
    using n by (simp_all flip: foldl_append)
  have items: "list_all (\<lambda>y. \<not> is_opening y) (numbered_from k xs)"
    "filter is_item (numbered_from k xs) = numbered_from k xs" for k xs
    by (induction xs arbitrary: k) auto
  have "follows_stream sz0 hist items"
    unfolding out its
    by (rule follows_stream_opening [of _ _ n]) (use n items in \<open>auto simp: joins_at_def\<close>)
  with out assms(1) show ?thesis by simp
qed

lemma announce_fields:
  "v_next (announce now v) = v_next v" "v_state (announce now v) = v_state v"
  "fst ` set (v_sinks (announce now v)) \<subseteq> fst ` set (v_sinks v)"
  using retain_ids by (auto simp: announce_def Let_def split: prod.splits)

lemma attach_numbered_stream:
  assumes "stream_inv sz0 hist (s_view s)" and "session_attach_numbered vt os after sink s = Some (i, s')"
  shows "stream_inv sz0 hist (s_view s')"
proof -
  let ?v = "s_view s"
  let ?vn = "?v\<lparr>v_next := v_next ?v + 1\<rparr>"
  let ?r = "replay_or_new ?vn"
  let ?vr = "?vn\<lparr>v_replay := Some ?r\<rparr>"
  have rf: "replay_follows sz0 hist (Some ?r)"
  proof (cases "v_replay ?v")
    case None
    with assms(1) keeps_new [of "length hist" "size_after sz0 hist"] show ?thesis
      by (auto simp: replay_follows_def replay_or_new_def stream_inv_def intro!: exI [of _ "length hist"])
  next
    case (Some r)
    with assms(1) show ?thesis by (simp add: replay_or_new_def stream_inv_def)
  qed
  have inv1: "stream_inv sz0 hist ?vr"
    by (rule stream_inv_attach [OF assms(1)]) (use rf in auto)
  obtain items v2 where o: "opening_items vt after ?r ?vr = Some (items, v2)"
    using assms(2) by (cases "opening_items vt after ?r ?vr")
      (auto simp: session_attach_numbered_def view_next_attachment_def Let_def)
  have "follows_stream sz0 hist items \<and> stream_inv sz0 hist v2 \<and> v_next v2 = v_next ?vr
    \<and> v_sinks v2 = v_sinks ?vr"
    by (rule opening_items_stream [OF inv1 _ o]) simp
  then have v2: "follows_stream sz0 hist items" "stream_inv sz0 hist v2" "v_next v2 = v_next ?v + 1"
    "v_sinks v2 = v_sinks ?v"
    by simp_all
  let ?va = "announce (os_clock os 0) v2"
  have inv3: "stream_inv sz0 hist ?va" using announce_stream [OF v2(2)] .
  define tail where "tail = Controlled (v_announced ?va) # (case v_state ?va of Exited e \<Rightarrow> [Ended e] | Running \<Rightarrow> [])"
  obtain opn w where ow: "offer_while_open (items @ tail) (True, Numbered [] sink) = (opn, w)" by fastforce
  have app: "offer_while_open (xs @ ys) ov = offer_while_open ys (offer_while_open xs ov)" for xs ys ov
    by (induction xs ov rule: offer_while_open.induct) auto
  have two: "offer_while_open (x # y # ys) ov = offer_while_open (y # ys) (offer_while_open [x] ov)"
    for x y ys ov
    using app [of "[x]" "y # ys" ov] by simp
  have s': "s_view s' = (if opn then ?va\<lparr>v_sinks := v_sinks ?va @ [(v_next ?v, w)]\<rparr> else ?va)"
    using assms(2) o ow
    by (auto simp: session_attach_numbered_def view_next_attachment_def tail_def app two Let_def simp del: offer_while_open.simps
        split: session_state.splits)
  show ?thesis
  proof (cases opn)
    case False
    with s' inv3 show ?thesis by simp
  next
    case True
    then have w: "w = Numbered (items @ tail) sink" using offer_numbered [OF ow] by simp
    have "follows_stream sz0 hist (items @ tail)"
      unfolding tail_def
      by (cases "v_state ?va")
        (auto intro!: follows_stream_other [OF follows_stream_other [OF v2(1)], where x = "Ended _", simplified]
          follows_stream_other [OF v2(1)])
    with w have "viewer_follows sz0 hist w" by simp
    moreover have "\<forall>j \<in> fst ` set (v_sinks ?va). j < v_next ?v"
      using announce_fields(3) [of "os_clock os 0" v2] assms(1) unfolding v2(4) stream_inv_def by blast
    ultimately have "stream_inv sz0 hist (?va\<lparr>v_sinks := v_sinks ?va @ [(v_next ?v, w)]\<rparr>)"
      using stream_inv_push [OF inv3] announce_fields(1) [of "os_clock os 0" v2] v2(3) by simp
    with s' True show ?thesis by simp
  qed
qed

section \<open>Every call\<close>

lemma detach_stream: "stream_inv sz0 hist (s_view s) \<Longrightarrow> stream_inv sz0 hist (s_view (session_detach i s))"
  by (auto simp: session_detach_def stream_inv_def distinct_map_filter)

lemma ended_stream:
  assumes "stream_inv sz0 hist (s_view s)"
  shows "stream_inv sz0 hist (s_view (session_ended exit s))"
proof -
  let ?v = "s_view s"
  have "stream_inv sz0 hist (?v\<lparr>v_busy := False, v_state := Exited exit,
      v_sinks := retain (\<lambda>_ w. offer_item (Ended exit) w) (v_sinks ?v)\<rparr>)"
    by (rule stream_inv_sinks [OF assms]) (use assms in \<open>auto simp: stream_inv_def intro: offer_item_follows\<close>)
  then show ?thesis by (simp add: session_ended_def)
qed

lemma grown: "stream_grows sz0 hist v \<Longrightarrow> (\<And>h. stream_inv sz0 h v \<Longrightarrow> stream_inv sz0 h v') \<Longrightarrow> stream_grows sz0 hist v'"
  by (erule stream_grows_trans) (blast intro: stream_growsI)

lemma deliver_grows:
  assumes "stream_grows sz0 hist v" and "deliver vt clock batch v = Some (replies, v')"
  shows "stream_grows sz0 hist v'"
proof (rule stream_grows_trans [OF assms(1)])
  fix h assume "stream_inv sz0 h v"
  from deliver_stream [OF this, of vt clock batch] assms(2) show "stream_grows sz0 h v'"
    by (auto simp: stream_grows_def)
qed

lemma view_invariant_stream: "view_invariant vt (stream_grows sz0 hist)"
proof
  fix v :: "'a view" and now show "stream_grows sz0 hist (announce now v)" if "stream_grows sz0 hist v"
    using grown [OF that] announce_stream by blast
next
  fix v :: "'a view" and x
  show "stream_grows sz0 hist (v\<lparr>v_control := control_step x (v_control v)\<rparr>)" if "stream_grows sz0 hist v"
    by (rule grown [OF that]) simp
next
  fix v :: "'a view" and sz
  show "stream_grows sz0 hist (v\<lparr>v_local_size := sanitized sz\<rparr>)" if "stream_grows sz0 hist v"
    by (rule grown [OF that]) simp
next
  fix s :: "'a session" and os sz
  assume "stream_grows sz0 hist (s_view s)"
  then show "stream_grows sz0 hist (s_view (snd (apply_size vt os (v_local_size (s_view s)) s)))"
    and "stream_grows sz0 hist (s_view (snd (apply_size vt os (sanitized sz) s)))"
    by (auto elim!: stream_grows_trans intro: apply_size_stream)
next
  fix s s' :: "'a session" and sink i
  assume "stream_grows sz0 hist (s_view s)" and "session_attach vt sink s = Some (i, s')"
  then show "stream_grows sz0 hist (s_view s')" by (auto elim!: grown intro: attach_stream)
next
  fix s s' :: "'a session" and os after sink i
  assume "stream_grows sz0 hist (s_view s)" and "session_attach_numbered vt os after sink s = Some (i, s')"
  then show "stream_grows sz0 hist (s_view s')" by (auto elim!: grown intro: attach_numbered_stream)
next
  fix s :: "'a session" and i
  assume "stream_grows sz0 hist (s_view s)"
  then show "stream_grows sz0 hist (s_view (session_detach i s))" by (auto elim!: grown intro: detach_stream)
next
  fix v v' :: "'a view" and clock batch replies
  assume "stream_grows sz0 hist v" and "deliver vt clock batch v = Some (replies, v')"
  then show "stream_grows sz0 hist v'" by (rule deliver_grows)
next
  fix s :: "'a session" and exit
  assume "stream_grows sz0 hist (s_view s)"
  then show "stream_grows sz0 hist (s_view (session_ended exit s))" by (auto elim!: grown intro: ended_stream)
qed

interpretation streams: view_invariant vt "stream_grows sz0 hist" for vt :: "'p vt" and sz0 hist
  by (rule view_invariant_stream)

lemma session_new_stream: "stream_inv (sanitized (plan_size plan)) [] (s_view (session_new vt plan i pid hs now))"
  using follows_default by (auto simp: session_new_def stream_inv_def replay_follows_def Let_def)

lemma run_stream:
  "session_run vt ops (session_new vt plan i pid hs now) = Some s \<Longrightarrow>
    \<exists>hist. stream_inv (sanitized (plan_size plan)) hist (s_view s)"
  using streams.run_keeps [OF stream_growsI [OF session_new_stream]] by (auto simp: stream_grows_def)

section \<open>Every call returns\<close>

text \<open>What the code relies on: the emulator's size is the one it was last given, whatever else it
  does.  With at least one row, a snapshot then ends.\<close>

definition keeps_size :: "'p vt \<Rightarrow> bool" where
  "keeps_size vt \<longleftrightarrow> (\<forall>p bs r c n.
    vt_size vt (vt_process vt bs p) = vt_size vt p \<and> vt_size vt (vt_set_size vt r c p) = (r, c)
    \<and> vt_size vt (vt_new vt r c n) = (r, c) \<and> vt_size vt (vt_set_scrollback vt n p) = vt_size vt p)"

definition sized :: "'p vt \<Rightarrow> 'p view \<Rightarrow> bool" where
  "sized vt v \<longleftrightarrow> vt_size vt (h_parser (v_terminal v)) = (rows (v_size v), cols (v_size v))
    \<and> 0 < rows (v_size v) \<and> 0 < rows (v_local_size v)"

lemma pages_total:
  assumes "keeps_size vt" and "0 < page"
  shows "\<exists>ls p'. pages vt lines_of page offset acc p = Some (ls, p') \<and> vt_size vt p' = vt_size vt p"
proof (induction offset arbitrary: acc p rule: less_induct)
  case (less offset)
  show ?case
  proof (cases "offset = 0")
    case True
    then show ?thesis by (simp add: pages.simps)
  next
    case False
    let ?p = "vt_set_scrollback vt offset p"
    have "offset - min offset page < offset" using False assms(2) by simp
    from less.IH [OF this, of "acc @ take (min offset page) (lines_of ?p)" ?p] assms(1) False
    show ?thesis by (subst pages.simps) (simp add: Let_def keeps_size_def)
  qed
qed

lemma snapshot_total:
  assumes "keeps_size vt" and "vt_size vt (h_parser h) = (r, c)" and "0 < r"
  shows "\<exists>out h'. headless_snapshot vt h = Some (out, h') \<and> vt_size vt (h_parser h') = (r, c)"
proof -
  let ?p = "vt_set_scrollback vt USIZE_MAX (h_parser h)"
  have "0 < unat r" using assms(3) by (simp add: unat_gt_0)
  from pages_total [OF assms(1) this, of "vt_rows_formatted vt 0 c" "vt_scrollback vt ?p" "[]" ?p]
  obtain ls p' where "pages vt (vt_rows_formatted vt 0 c) (unat r) (vt_scrollback vt ?p) [] ?p = Some (ls, p')"
    "vt_size vt p' = (r, c)"
    using assms(1,2) by (auto simp: keeps_size_def)
  with assms(1,2) show ?thesis
    by (auto simp: headless_snapshot_def render_def scrollback_rows_def read_history_def Let_def
        keeps_size_def)
qed

lemma snapshot_sized:
  assumes "keeps_size vt" and "sized vt v"
  shows "\<exists>out h. headless_snapshot vt (v_terminal v) = Some (out, h)
    \<and> vt_size vt (h_parser h) = (rows (v_size v), cols (v_size v))"
  using snapshot_total [OF assms(1), of "v_terminal v" "rows (v_size v)" "cols (v_size v)"] assms(2)
  unfolding sized_def by blast

lemma sized_local: "sized vt v \<Longrightarrow> 0 < rows (v_local_size v)"
  by (simp add: sized_def)

lemma apply_size_sized:
  "keeps_size vt \<Longrightarrow> sized vt (s_view s) \<Longrightarrow> 0 < rows sz \<Longrightarrow> sized vt (s_view (snd (apply_size vt os sz s)))"
  by (auto simp: apply_size_def sized_def keeps_size_def headless_set_size_def Let_def split: option.splits)

lemma announce_sized [simp]: "sized vt (announce now v) = sized vt v"
  by (simp add: announce_def sized_def Let_def split: prod.splits)

lemma opening_items_total:
  assumes "keeps_size vt" and "sized vt v"
  shows "\<exists>items v'. opening_items vt after r v = Some (items, v') \<and> sized vt v'"
proof -
  obtain out h where h: "headless_snapshot vt (v_terminal v) = Some (out, h)"
    "vt_size vt (h_parser h) = (rows (v_size v), cols (v_size v))"
    using snapshot_sized [OF assms] by blast
  then have "sized vt (v\<lparr>v_terminal := h\<rparr>)" using assms(2) by (simp add: sized_def)
  with h assms(2) show ?thesis by (auto simp: opening_items_def split: option.splits prod.splits)
qed

lemma attach_total:
  assumes "keeps_size vt" and "sized vt (s_view s)"
  shows "\<exists>i s'. session_attach vt sink s = Some (i, s') \<and> sized vt (s_view s')"
proof -
  obtain out h where h: "headless_snapshot vt (v_terminal (s_view s)) = Some (out, h)"
    "vt_size vt (h_parser h) = (rows (v_size (s_view s)), cols (v_size (s_view s)))"
    using snapshot_sized [OF assms] by blast
  with assms(2) show ?thesis
    by (simp add: session_attach_def view_next_attachment_def Let_def sized_def)
qed

lemma attach_numbered_total:
  assumes "keeps_size vt" and "sized vt (s_view s)"
  shows "\<exists>i s'. session_attach_numbered vt os after sink s = Some (i, s') \<and> sized vt (s_view s')"
proof -
  let ?vn = "(s_view s)\<lparr>v_next := v_next (s_view s) + 1\<rparr>"
  have "sized vt (?vn\<lparr>v_replay := Some (replay_or_new ?vn)\<rparr>)" using assms(2) by (simp add: sized_def)
  from opening_items_total [OF assms(1) this, of after "replay_or_new ?vn"]
  obtain items v' where o: "opening_items vt after (replay_or_new ?vn) (?vn\<lparr>v_replay := Some (replay_or_new ?vn)\<rparr>) = Some (items, v')"
    "sized vt v'" by blast
  then have "sized vt (announce (os_clock os 0) v')" by simp
  then have "sized vt ((announce (os_clock os 0) v')\<lparr>v_sinks := ws\<rparr>)" for ws by (simp add: sized_def)
  with o show ?thesis
    by (auto simp: session_attach_numbered_def view_next_attachment_def Let_def split: prod.splits)
qed

lemma sized_simps [simp]:
  "sized vt (v\<lparr>v_control := c\<rparr>) = sized vt v" "sized vt (v\<lparr>v_sinks := ws\<rparr>) = sized vt v"
  "sized vt (v_sinks_update f v) = sized vt v" "sized vt (v\<lparr>v_busy := b\<rparr>) = sized vt v"
  "sized vt (v\<lparr>v_state := st\<rparr>) = sized vt v"
  by (simp_all add: sized_def)

lemma responder_sized [simp]: "sized vt (snd (responder now v)) = sized vt v"
  by (simp add: responder_def split: prod.splits)

lemma deliver_sized:
  assumes "keeps_size vt" and "sized vt v" and "deliver vt clock batch v = Some (replies, v')"
  shows "sized vt v'"
proof -
  obtain resp v2 where r: "responder (clock 0) (announce (clock 0) v) = (resp, v2)" by fastforce
  then have "sized vt v2" using assms(2) responder_sized [of vt "clock 0" "announce (clock 0) v"] by simp
  obtain q sc where q: "queries_feed (v_queries v2) batch = (q, sc)" by fastforce
  obtain quiet where w: "quiet_copy sc batch = Some quiet"
    using assms(3) r q by (cases "quiet_copy sc batch") (simp_all add: deliver_def Let_def)
  have "v_size v' = v_size v2" "v_local_size v' = v_local_size v2"
    "v_terminal v' = headless_feed vt batch (v_terminal v2)"
    using assms(3) r q w by (auto simp: deliver_def Let_def)
  with \<open>sized vt v2\<close> assms(1) show ?thesis
    by (simp add: sized_def headless_feed_def keeps_size_def Let_def)
qed

lemma view_invariant_sized: "view_invariant vt (\<lambda>v. keeps_size vt \<longrightarrow> sized vt v)"
proof
  fix s s' :: "'a session" and sink i
  assume "keeps_size vt \<longrightarrow> sized vt (s_view s)" and "session_attach vt sink s = Some (i, s')"
  then show "keeps_size vt \<longrightarrow> sized vt (s_view s')" using attach_total [of vt s sink] by auto
next
  fix s s' :: "'a session" and os after sink i
  assume "keeps_size vt \<longrightarrow> sized vt (s_view s)" and "session_attach_numbered vt os after sink s = Some (i, s')"
  then show "keeps_size vt \<longrightarrow> sized vt (s_view s')" using attach_numbered_total [of vt s os after sink] by auto
next
  fix s :: "'a session" and os sz
  assume "keeps_size vt \<longrightarrow> sized vt (s_view s)"
  then show "keeps_size vt \<longrightarrow> sized vt (s_view (snd (apply_size vt os (v_local_size (s_view s)) s)))"
    and "keeps_size vt \<longrightarrow> sized vt (s_view (snd (apply_size vt os (sanitized sz) s)))"
    using sized_local by (blast intro: apply_size_sized sanitized_positive(1))+
next
  fix v :: "'a view" and sz
  assume "keeps_size vt \<longrightarrow> sized vt v"
  then show "keeps_size vt \<longrightarrow> sized vt (v\<lparr>v_local_size := sanitized sz\<rparr>)"
    by (simp add: sized_def sanitized_positive)
qed (auto simp: session_detach_def session_ended_def intro: deliver_sized)

interpretation sizes: view_invariant vt "\<lambda>v. keeps_size vt \<longrightarrow> sized vt v" for vt :: "'p vt"
  by (rule view_invariant_sized)

lemma session_new_sized: "keeps_size vt \<Longrightarrow> sized vt (s_view (session_new vt plan i pid hs now))"
  by (simp add: session_new_def sized_def headless_new_def keeps_size_def sanitized_positive Let_def)

lemma step_total:
  assumes "keeps_size vt" and "sized vt (s_view s)" and "stream_inv sz0 hist (s_view s)"
  shows "\<exists>s'. session_step vt x s = Some s'"
proof (cases x)
  case (Pair op os)
  show ?thesis
  proof (cases op)
    case (Attach sink)
    with Pair attach_total [OF assms(1,2), of sink] show ?thesis by auto
  next
    case (Attach_Numbered after sink)
    with Pair attach_numbered_total [OF assms(1,2), of os after sink] show ?thesis by auto
  next
    case (Deliver batch)
    with Pair deliver_stream [OF assms(3), of vt "os_clock os" batch] show ?thesis by auto
  qed (simp_all add: Pair)
qed

lemma run_total:
  assumes "keeps_size vt"
  shows "\<exists>s. session_run vt ops (session_new vt plan i pid hs now) = Some s"
proof (induction ops rule: rev_induct)
  case Nil
  then show ?case by simp
next
  case (snoc x ops)
  have app: "session_run vt (xs @ [y]) s = session_run vt xs s \<bind> session_step vt y" for xs y and s :: "'a session"
    by (induction xs arbitrary: s) (auto split: bind_split)
  obtain s where s: "session_run vt ops (session_new vt plan i pid hs now) = Some s" using snoc by blast
  have "sized vt (s_view s)"
    using sizes.run_keeps [OF _ s] session_new_sized [OF assms] assms by blast
  moreover obtain hist where "stream_inv (sanitized (plan_size plan)) hist (s_view s)"
    using run_stream [OF s] by blast
  ultimately show ?case using step_total [OF assms] by (simp add: app s)
qed

text \<open>C29. For every sequence of calls on a session, in any order and with any behaviour of the
  operating system, there is one stream of items, the batches of output without their queries
  and the resizes, such that every numbered viewer still attached was first sent where it joins
  that stream, with the size the terminal was at there, and then exactly the items since, each
  once, in order and under its own number, with only notices about control and the exit between;
  the size of the terminal is the one the stream leaves; and what is kept for viewers that come
  back is an end of the same stream.\<close>

theorem numbered_viewers_lose_nothing:
  assumes "session_run vt ops (session_new vt plan i pid hs now) = Some s"
    and "sz0 = sanitized (plan_size plan)"
  shows "\<exists>hist. v_seq (s_view s) = length hist \<and> v_size (s_view s) = size_after sz0 hist
    \<and> list_all (\<lambda>(j, w). viewer_follows sz0 hist w) (v_sinks (s_view s))
    \<and> replay_follows sz0 hist (v_replay (s_view s))"
proof -
  obtain hist where "stream_inv sz0 hist (s_view s)"
    using run_stream [OF assms(1)] assms(2) by blast
  then show ?thesis by (intro exI [of _ hist]) (auto simp: stream_inv_def list_all_iff)
qed

text \<open> Every call on a session returns, whatever was called before and however the operating system
  answers: reading the scrollback for a snapshot always ends, because the terminal always has a
  row, and making the copy of a batch without its queries never indexes out of bounds.  The
  emulator is only relied on to keep the size it was given.\<close>

theorem session_calls_return:
  assumes "keeps_size vt"
  shows "\<exists>s. session_run vt ops (session_new vt plan i pid hs now) = Some s"
  by (rule run_total [OF assms])

text \<open>An emulator that keeps its size and everything it was given.\<close>

definition sized_tape :: "(bytes \<times> u16 \<times> u16) vt" where
  "sized_tape = \<lparr>vt_new = \<lambda>r c _. ([], r, c), vt_process = \<lambda>b (p, rc). (p @ b, rc), vt_size = snd,
    vt_set_size = \<lambda>r c (p, _). (p, r, c), vt_alternate = \<lambda>_. False, vt_bracketed_paste = \<lambda>_. True,
    vt_cursor = \<lambda>_. (0, 0), vt_set_scrollback = \<lambda>_ p. p, vt_scrollback = \<lambda>_. 0,
    vt_rows_formatted = \<lambda>_ _ _. [], vt_rows = \<lambda>_ _ _. [], vt_state_formatted = fst\<rparr>"

lemma sized_tape_keeps: "keeps_size sized_tape"
  by (auto simp: keeps_size_def sized_tape_def split: prod.splits)

definition shell :: launch_plan where
  "shell = \<lparr>plan_program = ascii ''sh'', plan_args = [], plan_cwd = None, plan_env = [], plan_clear_env = False,
    plan_size = DEFAULT_SIZE, plan_labels = [], plan_prompt = None\<rparr>"

definition calm :: os where
  "calm = \<lparr>os_clock = \<lambda>n. n, os_write = \<lambda>_. None, os_resize = None, os_kill = None, os_windows = False,
    os_uuid = ''a''\<rparr>"

definition a_day :: "(session_op \<times> os) list" where
  "a_day = [(Attach_Numbered None (\<lambda>_. True), calm), (Deliver (ascii ''hello''), calm),
    (Resize \<lparr>cols = 100, rows = 30\<rparr>, calm), (Attach_Numbered (Some 1) (\<lambda>_. True), calm),
    (Deliver (ascii ''x'' @ [0x1b, 0x5b, 0x36, 0x6e]), calm)]"

theorem session_calls_return_witness:
  "\<exists>s. session_run sized_tape a_day (session_new sized_tape shell ''id'' None holds_default 0) = Some s"
  by (rule session_calls_return [OF sized_tape_keeps])

theorem numbered_viewers_lose_nothing_witness:
  "\<exists>s hist. session_run sized_tape a_day (session_new sized_tape shell ''id'' None holds_default 0) = Some s
    \<and> v_seq (s_view s) = length hist
    \<and> list_all (\<lambda>(j, w). viewer_follows (sanitized (plan_size shell)) hist w) (v_sinks (s_view s))"
proof -
  obtain s where s: "session_run sized_tape a_day (session_new sized_tape shell ''id'' None holds_default 0) = Some s"
    using run_total [OF sized_tape_keeps] by blast
  from numbered_viewers_lose_nothing [OF this refl] s show ?thesis by blast
qed

end
