(* ===== verification/Fenced.thy ===== *)
theory Fenced
  imports Streams
begin

text \<open>
  Who types into a session.  What the calls on a session do to its control record is a run of that
  record's own operations, so what was shown of leases holds of sessions; the rest of the theory is
  about what reaches the program: which terminal answers its queries, that the application's own
  typing never goes over a lease holder's, and what a paste becomes.
\<close>

section \<open>A session's control record\<close>

lemma announce_control [simp]: "v_control (announce now v) = control_step (Look, now) (v_control v)"
  by (simp add: announce_def Let_def split: prod.splits)

lemma responder_control [simp]: "v_control (snd (responder now v)) = control_step (Look, now) (v_control v)"
  by (simp add: responder_def control_leased_def control_controller_def Let_def)

lemma apply_size_control [simp]: "v_control (s_view (snd (apply_size vt os sz s))) = v_control (s_view s)"
  by (simp add: apply_size_def Let_def split: option.splits)

lemma opening_items_control:
  "opening_items vt after r v = Some (items, v') \<Longrightarrow> v_control v' = v_control v"
  by (auto simp: opening_items_def bind_eq_Some_conv split: option.splits prod.splits)

lemma attach_numbered_control:
  assumes "session_attach_numbered vt os after sink s = Some (i, s')"
  shows "v_control (s_view s') = control_step (Look, os_clock os 0) (v_control (s_view s))"
proof -
  let ?vn = "(s_view s)\<lparr>v_next := v_next (s_view s) + 1\<rparr>"
  let ?vr = "?vn\<lparr>v_replay := Some (replay_or_new ?vn)\<rparr>"
  obtain items v where o: "opening_items vt after (replay_or_new ?vn) ?vr = Some (items, v)"
    using assms by (cases "opening_items vt after (replay_or_new ?vn) ?vr")
      (auto simp: session_attach_numbered_def view_next_attachment_def Let_def)
  from opening_items_control [OF this] have "v_control v = v_control (s_view s)" by simp
  moreover have "\<exists>ws. s_view s' = (announce (os_clock os 0) v)\<lparr>v_sinks := ws\<rparr> \<or> s_view s' = announce (os_clock os 0) v"
    using assms o by (auto simp: session_attach_numbered_def view_next_attachment_def Let_def
        split: prod.splits if_splits)
  ultimately show ?thesis by (auto simp del: control_step.simps)
qed

lemma deliver_control:
  assumes "deliver vt clock batch v = Some (replies, v')"
  shows "v_control v' = control_step (Look, clock 0) (control_step (Look, clock 0) (v_control v))"
proof -
  obtain resp v2 where r: "responder (clock 0) (announce (clock 0) v) = (resp, v2)" by fastforce
  obtain q sc where q: "queries_feed (v_queries v2) batch = (q, sc)" by fastforce
  have "v_control v' = v_control v2"
    using assms r q by (cases "quiet_copy sc batch") (auto simp: deliver_def Let_def)
  also have "\<dots> = v_control (snd (responder (clock 0) (announce (clock 0) v)))" using r by simp
  finally show ?thesis by (simp del: control_step.simps)
qed

definition controlled_from :: "control \<Rightarrow> 'p view \<Rightarrow> bool" where
  "controlled_from c v \<longleftrightarrow> (\<exists>ops. v_control v = fold control_step ops c)"

lemma controlled_from_same: "controlled_from c v \<Longrightarrow> v_control v' = v_control v \<Longrightarrow> controlled_from c v'"
  by (simp add: controlled_from_def)

lemma controlled_from_step:
  "controlled_from c v \<Longrightarrow> v_control v' = control_step x (v_control v) \<Longrightarrow> controlled_from c v'"
  unfolding controlled_from_def by (metis fold.simps(1) fold.simps(2) fold_append comp_apply id_apply)

lemma view_invariant_controlled: "view_invariant vt (controlled_from c)"
proof
  fix s s' :: "'a session" and sink i
  assume "controlled_from c (s_view s)" and "session_attach vt sink s = Some (i, s')"
  then show "controlled_from c (s_view s')"
    by (auto simp: session_attach_def view_next_attachment_def Let_def bind_eq_Some_conv
        intro: controlled_from_same split: if_splits prod.splits)
next
  fix s s' :: "'a session" and os after sink i
  assume "controlled_from c (s_view s)" and "session_attach_numbered vt os after sink s = Some (i, s')"
  then show "controlled_from c (s_view s')"
    by (rule controlled_from_step [OF _ attach_numbered_control])
next
  fix v v' :: "'a view" and clock batch replies
  assume v: "controlled_from c v" and d: "deliver vt clock batch v = Some (replies, v')"
  have "controlled_from c (v\<lparr>v_control := control_step (Look, clock 0) (v_control v)\<rparr>)"
    by (rule controlled_from_step [OF v, of _ "(Look, clock 0)"]) (simp del: control_step.simps)
  then show "controlled_from c v'"
    by (rule controlled_from_step [of _ _ _ "(Look, clock 0)"]) (use deliver_control [OF d] in \<open>simp del: control_step.simps\<close>)
qed (auto simp: session_detach_def session_ended_def intro: controlled_from_same
    controlled_from_step simp del: control_step.simps)

interpretation controls: view_invariant vt "controlled_from c" for vt :: "'p vt" and c
  by (rule view_invariant_controlled)

lemma run_control:
  "session_run vt ops s = Some s' \<Longrightarrow>
    \<exists>cs. v_control (s_view s') = fold control_step cs (v_control (s_view s))"
  using controls.run_keeps [of "v_control (s_view s)" s vt ops s'] unfolding controlled_from_def
  by (metis fold.simps(1) id_apply)

section \<open>Fencing\<close>

lemma controlling_result: "fst (controlling now f s) = fst (f now s)"
  by (simp add: controlling_def Let_def split: prod.splits)

lemma controlling_control:
  "v_control (s_view (snd (controlling now f s))) = control_step (Look, now) (v_control (s_view (snd (f now s))))"
  by (auto simp: controlling_def Let_def simp del: control_step.simps split: prod.splits option.splits)

lemma controlling_written:
  "s_written (snd (controlling now f s)) = s_written (snd (f now s))"
  "s_id (snd (controlling now f s)) = s_id (snd (f now s))"
  by (auto simp: controlling_def Let_def split: prod.splits option.splits)

lemma controlling_writer: "s_writer (snd (controlling now f s)) = s_writer (snd (f now s))"
  by (auto simp: controlling_def Let_def split: prod.splits option.splits)

lemma session_acquire_granted:
  assumes "session_acquire os who take_over s = (Inr l, s')"
  shows "\<exists>c. control_acquire who take_over (os_uuid os) (os_clock os 0) (v_control (s_view s)) = (Inr l, c)
    \<and> v_control (s_view s') = control_step (Look, os_clock os 0) c"
proof -
  have "fst (session_acquire os who take_over s) = Inr l" "snd (session_acquire os who take_over s) = s'"
    using assms by simp_all
  then show ?thesis
    by (auto simp: session_acquire_def controlling_result controlling_control
        simp del: control_step.simps split: session_state.splits prod.splits sum.splits)
qed

lemma input_refused:
  assumes "fst (control_input ref n (os_clock os 0) (v_control (s_view s))) = Inl r"
  shows "fst (session_input vt os ref n data paste s) = Inl (refused (s_id s) r)
    \<and> s_written (snd (session_input vt os ref n data paste s)) = s_written s"
proof -
  let ?f = "\<lambda>now s. case control_input ref n now (v_control (s_view s)) of
          (r, c) \<Rightarrow>
            let s = set_control c s in
            case r of
              Inr Fresh \<Rightarrow> (Inr (Some (if paste then pasted data (bracketed_paste vt s) else data)), s)
            | Inr Repeat \<Rightarrow> (Inr None, s)
            | Inl refusal \<Rightarrow> (Inl (refused (s_id s) refusal), s)"
  obtain c where "control_input ref n (os_clock os 0) (v_control (s_view s)) = (Inl r, c)"
    using assms by (cases "control_input ref n (os_clock os 0) (v_control (s_view s))") auto
  then have f: "?f (os_clock os 0) s = (Inl (refused (s_id s) r), set_control c s)" by (simp add: Let_def)
  obtain e s' where e: "controlling (os_clock os 0) ?f s = (e, s')" by fastforce
  then have "e = Inl (refused (s_id s) r)" "s_written s' = s_written s"
    using controlling_result [of "os_clock os 0" ?f s] controlling_written(1) [of "os_clock os 0" ?f s] f by simp_all
  with e show ?thesis by (simp add: session_input_def)
qed


text \<open>A second later than the lease lasts.\<close>

definition late :: os where
  "late = calm\<lparr>os_clock := \<lambda>_. secs 31, os_uuid := ''b''\<rparr>"


section \<open>The application's own typing\<close>

lemma find_Some_split: "find P xs = Some x \<Longrightarrow> \<exists>us ys. xs = us @ x # ys \<and> P x \<and> list_all (\<lambda>u. \<not> P u) us"
proof (induction xs)
  case Nil
  then show ?case by simp
next
  case (Cons a xs)
  show ?case
  proof (cases "P a")
    case True
    with Cons.prems show ?thesis by (intro exI [of _ "[]"] exI [of _ xs]) auto
  next
    case False
    with Cons obtain us ys where "xs = us @ x # ys" "P x" "list_all (\<lambda>u. \<not> P u) us" by auto
    with False show ?thesis by (intro exI [of _ "a # us"] exI [of _ ys]) auto
  qed
qed

lemma look_twice: "control_step (Look, now) (control_step (Look, now) c) = control_step (Look, now) c"
  by (auto simp: control_controller_def control_lapse_def lapsed_def Let_def split: hold.splits)

lemma look: "snd (control_leased now c) = control_step (Look, now) c" "fst (control_leased now c) = is_leased (c_state (control_step (Look, now) c))"
 "fst (control_controller now c) = controller_of (c_state (control_step (Look, now) c))"
 "snd (control_controller now c) = control_step (Look, now) c"
  by (simp_all add: control_leased_def control_controller_def Let_def)

lemma leased_controller: "is_leased h \<longleftrightarrow> (\<exists>who. controller_of h = Leased who)"
  by (cases h) auto

text \<open> What the application types on its own reaches the program exactly when nobody holds a lease
  at that moment; otherwise it is refused with the name of who does, and nothing is written.
  Either way it takes no control from anyone.\<close>

theorem unattended_never_types_over:
  "let c = control_step (Look, os_clock os 0) (v_control (s_view s));
       (res, s') = session_unattended vt os txt paste s
   in v_control (s_view s') = c
    \<and> (case controller_of (c_state c) of
         Leased who \<Rightarrow> res = Inl (ControlHeld (s_id s) (Leased who)) \<and> s_written s' = s_written s
       | _ \<Rightarrow> let (res0, s0) = session_write os (if paste then pasted txt (bracketed_paste vt s) else txt) s
           in res = res0 \<and> s_written s' = s_written s0)"
proof -
  let ?now = "os_clock os 0"
  let ?c = "control_step (Look, ?now) (v_control (s_view s))"
  let ?f = "\<lambda>now s. case control_leased now (v_control (s_view s)) of
          (leased, c) \<Rightarrow>
            let s = set_control c s in
            if leased then
              (case control_controller now c of
                 (by, c) \<Rightarrow> (Inl (refused (s_id s) (Held by)), set_control c s))
            else (Inr (if paste then pasted txt (bracketed_paste vt s) else txt), s)"
  have l: "control_leased ?now (v_control (s_view s)) = (is_leased (c_state ?c), ?c)"
    by (simp add: prod_eq_iff look del: control_step.simps)
  have w: "control_controller ?now ?c = (controller_of (c_state ?c), ?c)"
    by (simp add: prod_eq_iff look look_twice del: control_step.simps)
  have f: "?f ?now s = (if is_leased (c_state ?c) then (Inl (ControlHeld (s_id s) (controller_of (c_state ?c))), set_control ?c s)
      else (Inr (if paste then pasted txt (bracketed_paste vt s) else txt), set_control ?c s))"
    by (simp add: l w Let_def bracketed_paste_def del: control_step.simps)
  obtain r s1 where r: "controlling ?now ?f s = (r, s1)" by fastforce
  have s1: "r = fst (?f ?now s)" "v_control (s_view s1) = ?c" "s_written s1 = s_written s"
    "s_writer s1 = s_writer s" "s_id s1 = s_id s"
    using controlling_result [of ?now ?f s] controlling_control [of ?now ?f s]
      controlling_written [of ?now ?f s] controlling_writer [of ?now ?f s]
    by (simp_all add: r f look_twice del: control_step.simps)
  have "session_unattended vt os txt paste s =
      (case r of Inl e \<Rightarrow> (Inl e, s1) | Inr payload \<Rightarrow> session_write os payload s1)"
    by (simp add: session_unattended_def r split: sum.splits)
  then have u: "session_unattended vt os txt paste s =
      (if is_leased (c_state ?c) then (Inl (ControlHeld (s_id s) (controller_of (c_state ?c))), s1)
       else session_write os (if paste then pasted txt (bracketed_paste vt s) else txt) s1)"
    using s1(1) f by simp
  obtain res s' where rs: "session_unattended vt os txt paste s = (res, s')" by fastforce
  have "v_control (s_view s') = ?c"
  proof -
    have "s_view s' = s_view (snd (session_unattended vt os txt paste s))" by (simp add: rs)
    also have "\<dots> = s_view s1" unfolding u by simp
    finally show ?thesis using s1(2) by (simp only:)
  qed
  moreover have "res = Inl (ControlHeld (s_id s) (controller_of (c_state ?c))) \<and> s_written s' = s_written s"
    if "is_leased (c_state ?c)"
    using u rs s1(3) that by simp
  moreover have "let (res0, s0) = session_write os (if paste then pasted txt (bracketed_paste vt s) else txt) s
      in res = res0 \<and> s_written s' = s_written s0" if "\<not> is_leased (c_state ?c)"
    using u rs s1 that by (auto simp: session_write_def simp del: control_step.simps split: option.splits)
  ultimately show ?thesis
    unfolding rs Let_def prod.case
    by (cases "c_state ?c"; (simp_all only: controller_of.simps is_leased.simps controller.case simp_thms if_True if_False)?; blast)
qed

section \<open>Who answers the program\<close>

lemma responder_fields:
  "v_sinks (snd (responder now v)) = v_sinks v" "v_queries (snd (responder now v)) = v_queries v"
  "v_seq (snd (responder now v)) = v_seq v"
  by (simp_all add: responder_def split: prod.splits)

lemma announce_seq: "v_seq (announce now v) = v_seq v" "v_queries (announce now v) = v_queries v"
  by (simp_all add: announce_def Let_def split: prod.splits)

text \<open> Exactly one terminal answers the program's questions in a batch.  When nobody holds a lease and
  a terminal is attached, it is the one attached last: it alone is sent the batch as it is, all
  other viewers the copy without the questions, and the host answers nothing.  Otherwise every
  viewer is sent the copy and the host answers each question about the cursor, once each.\<close>

theorem one_terminal_answers:
  assumes "deliver vt clock batch v = Some (replies, v')" and "queries_feed (v_queries v) batch = (q, sc)"
  shows "\<exists>resp quiet sinks. quiet_copy sc batch = Some quiet
    \<and> sinks = v_sinks (announce (clock 0) v)
    \<and> v_sinks v' = retain (deliver_to batch quiet (v_seq v + 1) resp) sinks
    \<and> (case resp of
         Some i \<Rightarrow> \<not> is_leased (c_state (v_control v')) \<and> replies = []
           \<and> (\<exists>older w newer. sinks = older @ (i, w) # newer \<and> is_terminal w
               \<and> list_all (\<lambda>(_, u). \<not> is_terminal u) newer)
       | None \<Rightarrow> (is_leased (c_state (v_control v')) \<or> list_all (\<lambda>(_, u). \<not> is_terminal u) sinks)
           \<and> replies = concat (replicate (sc_cursor sc) (cursor_report vt (v_terminal v'))))"
proof -
  let ?va = "announce (clock 0) v"
  obtain resp v2 where r: "responder (clock 0) ?va = (resp, v2)" by fastforce
  have v2: "v_control v2 = v_control ?va" "v_sinks v2 = v_sinks ?va" "v_queries v2 = v_queries v" "v_seq v2 = v_seq v"
    using r responder_control [of "clock 0" ?va] responder_fields [of "clock 0" ?va] announce_seq [of "clock 0" v]
    by (simp_all add: look_twice del: control_step.simps)
  obtain quiet where w: "quiet_copy sc batch = Some quiet"
    using assms r v2 by (cases "quiet_copy sc batch") (simp_all add: deliver_def Let_def)
  have v': "v_sinks v' = retain (deliver_to batch quiet (v_seq v + 1) resp) (v_sinks ?va)"
    "v_control v' = v_control ?va"
    "replies = (if resp = None then concat (replicate (sc_cursor sc) (cursor_report vt (v_terminal v'))) else [])"
    using assms r v2 w by (auto simp: deliver_def Let_def simp del: control_step.simps)
  have resp: "resp = (if is_leased (c_state (v_control ?va)) then None
      else map_option fst (find (\<lambda>(i, w). is_terminal w) (rev (v_sinks ?va))))"
  proof -
    have "control_leased (clock 0) (v_control ?va) = (is_leased (c_state (v_control ?va)), v_control ?va)"
      by (simp add: prod_eq_iff look look_twice del: control_step.simps)
    with r show ?thesis unfolding responder_def by simp
  qed
  show ?thesis
  proof (cases resp)
    case None
    then have "is_leased (c_state (v_control v')) \<or> list_all (\<lambda>(_, u). \<not> is_terminal u) (v_sinks ?va)"
      using resp v'(2) by (auto simp: list_all_iff find_None_iff split: if_splits)
    with None v' w show ?thesis by (intro exI [of _ resp] exI [of _ quiet]) simp
  next
    case (Some i)
    then have found: "\<not> is_leased (c_state (v_control v'))"
      "map_option fst (find (\<lambda>(i, w). is_terminal w) (rev (v_sinks ?va))) = Some i"
      using resp v'(2) by (auto split: if_splits)
    then obtain w0 where w0: "find (\<lambda>(i, w). is_terminal w) (rev (v_sinks ?va)) = Some (i, w0)" by auto
    from find_Some_split [OF this] obtain newer older where "rev (v_sinks ?va) = newer @ (i, w0) # older"
      "is_terminal w0" "list_all (\<lambda>(_, u). \<not> is_terminal u) newer"
      by (auto simp: list_all_iff)
    then have "v_sinks ?va = rev older @ (i, w0) # rev newer" "list_all (\<lambda>(_, u). \<not> is_terminal u) (rev newer)"
      by (simp_all add: rev_swap)
    then have "\<exists>older w newer. v_sinks ?va = older @ (i, w) # newer \<and> is_terminal w
        \<and> list_all (\<lambda>(_, u). \<not> is_terminal u) newer"
      using \<open>is_terminal w0\<close> by blast
    with Some v' w found(1) show ?thesis
      by (intro exI [of _ resp] exI [of _ quiet] exI [of _ "v_sinks ?va"]) simp
  qed
qed

theorem one_terminal_answers_witness:
  "\<exists>s replies v' q sc i.
    session_run sized_tape [(Attach (\<lambda>_. True), calm)] (session_new sized_tape shell ''id'' None holds_default 0) = Some s
    \<and> queries_feed (v_queries (s_view s)) [0x1b, 0x5b, 0x36, 0x6e] = (q, sc)
    \<and> deliver sized_tape (\<lambda>n. n) [0x1b, 0x5b, 0x36, 0x6e] (s_view s) = Some (replies, v')
    \<and> (\<exists>quiet. quiet_copy sc [0x1b, 0x5b, 0x36, 0x6e] = Some quiet)"
proof -
  let ?b = "[0x1b, 0x5b, 0x36, 0x6e] :: bytes"
  obtain s where s: "session_run sized_tape [(Attach (\<lambda>_. True), calm)]
      (session_new sized_tape shell ''id'' None holds_default 0) = Some s"
    using run_total [OF sized_tape_keeps] by blast
  obtain hist where "stream_inv (sanitized (plan_size shell)) hist (s_view s)" using run_stream [OF s] by blast
  from deliver_stream [OF this, of sized_tape "\<lambda>n. n" ?b]
  obtain replies v' where d: "deliver sized_tape (\<lambda>n. n) ?b (s_view s) = Some (replies, v')" by blast
  obtain q sc where q: "queries_feed (v_queries (s_view s)) ?b = (q, sc)" by fastforce
  from one_terminal_answers [OF d q] have "\<exists>quiet. quiet_copy sc ?b = Some quiet" by blast
  with s d q show ?thesis by blast
qed

section \<open>After the exit\<close>

text \<open> A numbered viewer of a session that has exited stays attached, and a resize made afterwards is
  still sent to it, as a numbered item after the exit, although \<open>Numbered::Exited\<close> is documented
  as the last thing it is sent.\<close>

theorem items_follow_the_exit:
  "\<exists>s log. session_run sized_tape
      [(Attach_Numbered None (\<lambda>_. True), calm), (End \<lparr>exit_code = 0, exit_success = True, exit_signal = None\<rparr>, calm),
       (Resize \<lparr>cols = 100, rows = 30\<rparr>, calm)]
      (session_new sized_tape shell ''id'' None holds_default 0) = Some s
    \<and> v_sinks (s_view s) = [(1, Numbered (log @ [Ended \<lparr>exit_code = 0, exit_success = True, exit_signal = None\<rparr>,
        Resized 1 \<lparr>cols = 100, rows = 30\<rparr>]) (\<lambda>_. True))]"
  by (simp add: session_new_def sized_tape_def shell_def calm_def Let_def DEFAULT_SIZE_def sanitized_def
     session_attach_numbered_def view_next_attachment_def opening_items_def replay_or_new_def
     headless_snapshot_def render_def scrollback_rows_def read_history_def pages.simps headless_new_def
     announce_def control_controller_def control_lapse_def lapsed_def control_new_def session_ended_def
     session_resize_def controlling_def apply_size_def control_leased_def control_lapses_at_def headless_set_size_def)

section \<open>Pastes\<close>

text \<open> The text of a bracketed paste can still contain the marker that ends it: removing the marker once
  from left to right leaves one when the text wraps a marker in the two halves of another.  What
  follows it then reaches the program as if it had been typed, although the code removes the
  marker so that it cannot end the paste early.\<close>

theorem paste_end_can_be_smuggled:
  "pasted (take 3 PASTE_END @ PASTE_END @ drop 3 PASTE_END @ [0x6c, 0x73, 0x0d]) True =
    PASTE_START @ PASTE_END @ [0x6c, 0x73, 0x0d] @ PASTE_END"
  by code_simp

end
