(* ===== verification/Pump.thy ===== *)
theory Pump
  imports Fenced "HOL-Library.Code_Target_Nat"
begin

text \<open>
  The pump of \<open>crates/pty-host/src/session.rs\<close>: the thread that takes what the reader and the
  waiter send, gathers it into batches, delivers them and, when the program is gone and its output
  has come to an end, says so.  What each wait on the channel gives is a list that the loop
  consumes, and the clock's readings are a function of how many were taken before; running out of
  the list is the thread waiting.  The lemmas show that all output is delivered, once and in order,
  before the exit is announced.
\<close>

section \<open>State\<close>

definition READ_CHUNK :: nat where "READ_CHUNK = 64 * 1024"
definition BATCH_WINDOW :: duration where "BATCH_WINDOW = msecs 8"
definition MAX_BATCH :: nat where "MAX_BATCH = 512 * 1024"
definition EXIT_DRAIN_QUIET :: duration where "EXIT_DRAIN_QUIET = msecs 150"

datatype msg = MOutput bytes | MEof | MChildExited exit_info | MWake

datatype received = Got msg | TimedOut | Disconnected

text \<open>The locals of \<open>pump\<close>; \<open>p_events\<close> is what it told the host, \<open>p_batches\<close> what it delivered.\<close>

record pump =
  p_exit :: "exit_info option"
  p_eof :: bool
  p_busy_since :: "instant option"
  p_last_deliver :: "instant option"
  p_events :: "host_event list"
  p_batches :: "bytes list"

definition pump_start :: pump where
  "pump_start = \<lparr>p_exit = None, p_eof = False, p_busy_since = None, p_last_deliver = None,
    p_events = [], p_batches = []\<rparr>"

fun absorb :: "msg \<Rightarrow> bytes \<times> pump \<Rightarrow> bytes \<times> pump" where
  "absorb (MOutput bs) (batch, p) = (batch @ bs, p)"
| "absorb MEof (batch, p) = (batch, p\<lparr>p_eof := True\<rparr>)"
| "absorb (MChildExited info) (batch, p) = (batch, p\<lparr>p_exit := Some info\<rparr>)"
| "absorb MWake (batch, p) = (batch, p)"

text \<open>Gather into the batch until the deadline; \<open>None\<close> when the thread is left waiting.\<close>

fun gather :: "(nat \<Rightarrow> instant) \<Rightarrow> instant \<Rightarrow> nat \<Rightarrow> received list \<Rightarrow> bytes \<times> pump \<Rightarrow>
    (nat \<times> received list \<times> bytes \<times> pump) option" where
  "gather clock deadline k rs (batch, p) =
    (if MAX_BATCH \<le> length batch then Some (k, rs, batch, p)
     else if deadline - clock k = 0 then Some (k + 1, rs, batch, p)
     else case rs of
       [] \<Rightarrow> None
     | Got m # rs \<Rightarrow> gather clock deadline (k + 1) rs (absorb m (batch, p))
     | _ # rs \<Rightarrow> Some (k + 1, rs, batch, p))"

declare gather.simps [simp del]

text \<open>Which wait the loop makes before a batch, and what it does when the wait gives no message.\<close>

datatype wait = Drain | Burst instant | Lapse instant | Forever

definition which_wait :: "pump \<Rightarrow> instant option \<Rightarrow> wait" where
  "which_wait p lapses_at =
    (if p_exit p \<noteq> None then Drain
     else case p_busy_since p of
       Some since \<Rightarrow> Burst since
     | None \<Rightarrow> (case lapses_at of Some at \<Rightarrow> Lapse at | None \<Rightarrow> Forever))"

datatype 'p turn =
    Stop "'p session" pump
  | Next nat "received list" "'p session" pump
  | Waiting

text \<open>The end of a turn: the batch, if there is one, goes out, and what the terminal owes the
  program is written back.  \<open>None\<close> is a panic in \<open>deliver\<close>.\<close>

definition send_batch :: "'p vt \<Rightarrow> os \<Rightarrow> (nat \<Rightarrow> instant) \<Rightarrow> nat \<Rightarrow> bytes \<Rightarrow> 'p session \<Rightarrow> pump \<Rightarrow>
    (nat \<times> 'p session \<times> pump) option" where
  "send_batch vt os clock k batch s p =
    (if batch = [] then Some (k, s, p)
     else
       let (k, s, p) =
         (if p_busy_since p = None
          then (k + 1, on_view (v_busy_update (\<lambda>_. True)) s,
            p\<lparr>p_busy_since := Some (clock k), p_events := p_events p @ [Busy (s_id s)]\<rparr>)
          else (k, s, p))
       in do {
         (replies, v) \<leftarrow> deliver vt (\<lambda>n. clock (k + n)) batch (s_view s);
         let s = s\<lparr>s_view := v\<rparr>;
         let p = p\<lparr>p_last_deliver := Some (clock (k + 3)), p_batches := p_batches p @ [batch]\<rparr>;
         let s = (if replies = [] then s else snd (session_write os replies s));
         Some (k + 4, s, p)
       })"

definition pump_turn :: "'p vt \<Rightarrow> os \<Rightarrow> (nat \<Rightarrow> instant) \<Rightarrow> duration \<Rightarrow> nat \<Rightarrow> received list \<Rightarrow>
    'p session \<Rightarrow> pump \<Rightarrow> 'p turn option" where
  "pump_turn vt os clock quiet_after k rs s p =
    (case rs of
       [] \<Rightarrow> Some Waiting
     | Got m # rs \<Rightarrow>
         let (batch, p) = absorb m ([], p);
             (deadline, k) = (case p_last_deliver p of
               Some at \<Rightarrow> (at + BATCH_WINDOW, k) | None \<Rightarrow> (clock k, k + 1))
         in (case gather clock deadline k rs (batch, p) of
               None \<Rightarrow> Some Waiting
             | Some (k, rs, batch, p) \<Rightarrow>
                 map_option (\<lambda>(k, s, p). Next k rs s p) (send_batch vt os clock k batch s p))
     | r # rs \<Rightarrow>
         Some (case which_wait p (control_lapses_at (v_control (s_view s))) of
           Drain \<Rightarrow> Stop s p
         | Burst since \<Rightarrow>
             (if r = TimedOut
              then Next (k + 1) rs (on_view (v_busy_update (\<lambda>_. False)) s)
                (p\<lparr>p_busy_since := None,
                  p_events := p_events p @ [Quiet (s_id s) (millis (clock k - since - quiet_after))]\<rparr>)
              else Stop s p)
         | Lapse at \<Rightarrow>
             (if r = TimedOut then Next (k + 1) rs (on_view (announce (clock k)) s) p else Stop s p)
         | Forever \<Rightarrow> Stop s p))"

text \<open>After the loop: the exit is announced, to the viewers and to the host, last of all.\<close>

definition pump_finish :: "'p session \<Rightarrow> pump \<Rightarrow> 'p session \<times> pump" where
  "pump_finish s p =
    (let exit = (case p_exit p of Some e \<Rightarrow> e
           | None \<Rightarrow> \<lparr>exit_code = 1, exit_success = False, exit_signal = None\<rparr>)
     in (session_ended exit s, p\<lparr>p_events := p_events p @ [SessionEnded (s_id s) exit]\<rparr>))"

datatype 'p pumped = Ended_At nat "'p session" pump "received list" | Still_Waiting | Panicked

lemma gather_shorter:
  "gather clock deadline k rs bp = Some (k', rs', bp') \<Longrightarrow> length rs' \<le> length rs"
proof (induction clock deadline k rs bp arbitrary: k' rs' bp' rule: gather.induct)
  case (1 clock deadline k rs batch p)
  from "1.prems" show ?case
    by (subst (asm) gather.simps) (fastforce split: if_splits list.splits received.splits dest: "1.IH")
qed

lemma pump_turn_shorter:
  "pump_turn vt os clock quiet_after k rs s p = Some (Next k' rs' s' p') \<Longrightarrow> length rs' < length rs"
  by (auto simp: pump_turn_def Let_def less_Suc_eq_le dest!: gather_shorter
      split: list.splits received.splits wait.splits if_splits option.splits prod.splits)

function pump_loop :: "'p vt \<Rightarrow> os \<Rightarrow> (nat \<Rightarrow> instant) \<Rightarrow> duration \<Rightarrow> nat \<Rightarrow> received list \<Rightarrow>
    'p session \<Rightarrow> pump \<Rightarrow> 'p pumped" where
  "pump_loop vt os clock quiet_after k rs s p =
    (if p_eof p \<and> p_exit p \<noteq> None then let (s, p) = pump_finish s p in Ended_At k s p rs
     else case pump_turn vt os clock quiet_after k rs s p of
       None \<Rightarrow> Panicked
     | Some Waiting \<Rightarrow> Still_Waiting
     | Some (Stop s p) \<Rightarrow> let (s, p) = pump_finish s p in Ended_At k s p (tl rs)
     | Some (Next k rs s p) \<Rightarrow> pump_loop vt os clock quiet_after k rs s p)"
  by pat_completeness auto

termination
  by (relation "measure (\<lambda>(vt, os, clock, quiet_after, k, rs, s, p). length rs)")
    (auto dest: pump_turn_shorter)

declare pump_loop.simps [simp del]

section \<open>What a run of the pump delivers\<close>

text \<open>The output among what was received.\<close>

fun outputs :: "received list \<Rightarrow> bytes" where
  "outputs [] = []"
| "outputs (Got (MOutput bs) # rs) = bs @ outputs rs"
| "outputs (_ # rs) = outputs rs"

text \<open>Whether a burst is under way after these events; \<open>None\<close> when they do not alternate.\<close>

fun burst :: "bool \<Rightarrow> host_event list \<Rightarrow> bool option" where
  "burst b [] = Some b"
| "burst b (Busy _ # es) = (if b then None else burst True es)"
| "burst b (Quiet _ _ # es) = (if b then burst False es else None)"
| "burst b (SessionEnded _ _ # es) = None"

fun chunk_ok :: "received \<Rightarrow> bool" where
  "chunk_ok (Got (MOutput bs)) = (length bs \<le> READ_CHUNK)"
| "chunk_ok _ = True"

lemma outputs_append [simp]: "outputs (xs @ ys) = outputs xs @ outputs ys"
  by (induction xs rule: outputs.induct) auto

lemma burst_snoc: "burst b (es @ [e]) = (case burst b es of Some c \<Rightarrow> burst c [e] | None \<Rightarrow> None)"
  by (induction b es rule: burst.induct) auto

lemma absorb_keeps:
  assumes "absorb m (batch, p) = (batch', p')"
  shows "batch' = batch @ outputs [Got m] \<and> p_batches p' = p_batches p \<and> p_events p' = p_events p
    \<and> p_busy_since p' = p_busy_since p"
  using assms by (cases m) auto

lemma gather_takes:
  assumes "gather clock deadline k rs (batch, p) = Some (k', rs', batch', p')"
  shows "\<exists>used. rs = used @ rs' \<and> batch' = batch @ outputs used \<and> p_batches p' = p_batches p
    \<and> p_events p' = p_events p \<and> p_busy_since p' = p_busy_since p
    \<and> (list_all chunk_ok used \<longrightarrow> length batch < MAX_BATCH + READ_CHUNK \<longrightarrow> length batch' < MAX_BATCH + READ_CHUNK)"
  using assms
proof (induction rs arbitrary: k batch p)
  case Nil
  then show ?case by (auto simp: gather.simps [of _ _ _ "[]"] split: if_splits)
next
  case (Cons r rs)
  note g = Cons.prems [unfolded gather.simps [of _ _ _ "r # rs"]]
  consider (full) "MAX_BATCH \<le> length batch \<or> deadline \<le> clock k"
    | (more) m where "r = Got m" "length batch < MAX_BATCH" "\<not> deadline \<le> clock k"
    | (quiet) "r = TimedOut \<or> r = Disconnected" "length batch < MAX_BATCH" "\<not> deadline \<le> clock k"
    by (cases r) (force simp: not_le)+
  then show ?case
  proof cases
    case full
    with g show ?thesis by (intro exI [of _ "[]"]) (auto split: if_splits)
  next
    case (more m)
    obtain b1 p1 where b1: "absorb m (batch, p) = (b1, p1)" by fastforce
    have "gather clock deadline (k + 1) rs (b1, p1) = Some (k', rs', batch', p')"
      using g more b1 by simp
    from Cons.IH [OF this] obtain used where u: "rs = used @ rs'" "batch' = b1 @ outputs used"
      "p_batches p' = p_batches p1" "p_events p' = p_events p1" "p_busy_since p' = p_busy_since p1"
      "list_all chunk_ok used \<longrightarrow> length b1 < MAX_BATCH + READ_CHUNK \<longrightarrow> length batch' < MAX_BATCH + READ_CHUNK"
      by blast
    have "chunk_ok (Got m) \<Longrightarrow> length b1 < MAX_BATCH + READ_CHUNK"
      using absorb_keeps [OF b1] more(2) by (cases m) auto
    with u absorb_keeps [OF b1] more(1) show ?thesis
      by (intro exI [of _ "r # used"]) (cases m; simp)
  next
    case quiet
    with g show ?thesis by (intro exI [of _ "[r]"]) auto
  qed
qed

text \<open>What every turn keeps: the batches delivered are the output received so far, none of them too
  long, and the events alternate.\<close>

definition pump_inv :: "received list \<Rightarrow> pump \<Rightarrow> bool" where
  "pump_inv used p \<longleftrightarrow> concat (p_batches p) = outputs used
    \<and> (list_all chunk_ok used \<longrightarrow> list_all (\<lambda>b. length b < MAX_BATCH + READ_CHUNK) (p_batches p))
    \<and> burst False (p_events p) = Some (p_busy_since p \<noteq> None)"

lemma send_batch_inv:
  assumes "send_batch vt os clock k batch s p = Some (k', s', p')"
    and "concat (p_batches p) @ batch = outputs used"
    and "list_all chunk_ok used \<longrightarrow>
      length batch < MAX_BATCH + READ_CHUNK \<and> list_all (\<lambda>b. length b < MAX_BATCH + READ_CHUNK) (p_batches p)"
    and "burst False (p_events p) = Some (p_busy_since p \<noteq> None)"
  shows "pump_inv used p'"
proof (cases "batch = []")
  case True
  with assms show ?thesis by (auto simp: send_batch_def pump_inv_def)
next
  case False
  then have "p_batches p' = p_batches p @ [batch]"
    and "p_busy_since p' \<noteq> None"
    and "p_events p' = (if p_busy_since p = None then p_events p @ [Busy (s_id s)] else p_events p)"
    using assms(1) by (auto simp: send_batch_def Let_def bind_eq_Some_conv split: if_splits prod.splits)
  with assms(2-4) show ?thesis by (auto simp: pump_inv_def burst_snoc)
qed

lemma pump_turn_inv:
  assumes "pump_turn vt os clock quiet_after k rs s p = Some (Next k' rs' s' p')" and "pump_inv seen p"
  shows "\<exists>used. rs = used @ rs' \<and> pump_inv (seen @ used) p'"
proof (cases rs)
  case Nil
  with assms(1) show ?thesis by (simp add: pump_turn_def)
next
  case (Cons r rs1)
  show ?thesis
  proof (cases r)
    case (Got m)
    obtain b1 p1 where b1: "absorb m ([], p) = (b1, p1)" by fastforce
    obtain dl k1 where dl: "(case p_last_deliver p1 of Some at \<Rightarrow> (at + BATCH_WINDOW, k)
        | None \<Rightarrow> (clock k, k + 1)) = (dl, k1)" by fastforce
    have t: "(case gather clock dl k1 rs1 (b1, p1) of None \<Rightarrow> Some Waiting
        | Some (k, rs, batch, p) \<Rightarrow> map_option (\<lambda>(k, s, p). Next k rs s p) (send_batch vt os clock k batch s p))
        = Some (Next k' rs' s' p')"
      using assms(1) unfolding pump_turn_def Cons Got Let_def by (simp add: b1 dl)
    obtain k2 rs2 b2 p2 where g: "gather clock dl k1 rs1 (b1, p1) = Some (k2, rs2, b2, p2)"
      using t by (cases "gather clock dl k1 rs1 (b1, p1)") auto
    then have sent: "send_batch vt os clock k2 b2 s p2 = Some (k', s', p')" "rs' = rs2"
      using t by auto
    obtain used where u: "rs1 = used @ rs2" "b2 = b1 @ outputs used" "p_batches p2 = p_batches p1"
      "p_events p2 = p_events p1" "p_busy_since p2 = p_busy_since p1"
      "list_all chunk_ok used \<longrightarrow> length b1 < MAX_BATCH + READ_CHUNK \<longrightarrow> length b2 < MAX_BATCH + READ_CHUNK"
      using gather_takes [OF g] by blast
    note a = absorb_keeps [OF b1]
    have "length b1 < MAX_BATCH + READ_CHUNK" if "chunk_ok (Got m)"
      using a that by (cases m) (auto simp: MAX_BATCH_def READ_CHUNK_def)
    then have "pump_inv (seen @ (r # used)) p'"
      using assms(2) a u Got by (intro send_batch_inv [OF sent(1)]) (cases m; auto simp: pump_inv_def)+
    with Cons u(1) sent(2) show ?thesis by (intro exI [of _ "r # used"]) simp
  next
    case TimedOut
    with assms Cons show ?thesis
      by (intro exI [of _ "[r]"])
        (auto simp: pump_turn_def pump_inv_def burst_snoc which_wait_def split: wait.splits if_splits option.splits)
  next
    case Disconnected
    with assms Cons show ?thesis
      by (auto simp: pump_turn_def split: wait.splits)
  qed
qed

lemma retain_ended:
  "list_all (\<lambda>(_, w). case w of Numbered log _ \<Rightarrow> log \<noteq> [] \<and> last log = Ended exit | Terminal _ _ \<Rightarrow> True)
    (retain (\<lambda>_ w. offer_item (Ended exit) w) ws)"
proof (induction ws)
  case Nil
  then show ?case by simp
next
  case (Cons x ws)
  obtain i w where "x = (i, w)" by fastforce
  with Cons show ?case by (cases w) simp_all
qed

lemma pump_finish_ends:
  assumes "pump_finish s p = (s', p')" and "pump_inv used p"
  shows "\<exists>exit es. p_events p' = es @ [SessionEnded (s_id s) exit] \<and> burst False es \<noteq> None
    \<and> v_state (s_view s') = Exited exit \<and> (p_exit p = Some exit \<or> p_exit p = None) \<and> \<not> s_writer s'
    \<and> list_all (\<lambda>(_, w). case w of Numbered log _ \<Rightarrow> log \<noteq> [] \<and> last log = Ended exit | Terminal _ _ \<Rightarrow> True)
        (v_sinks (s_view s'))
    \<and> p_batches p' = p_batches p"
  using assms retain_ended
  by (auto simp: pump_finish_def session_ended_def pump_inv_def Let_def split: option.splits)

lemma pump_loop_ends:
  assumes "pump_loop vt os clock quiet_after k rs s p = Ended_At k' s' p' rest" and "pump_inv seen p"
  shows "\<exists>used exit es i. rs = used @ rest
    \<and> concat (p_batches p') = outputs (seen @ used)
    \<and> (list_all chunk_ok (seen @ used) \<longrightarrow> list_all (\<lambda>b. length b < MAX_BATCH + READ_CHUNK) (p_batches p'))
    \<and> p_events p' = es @ [SessionEnded i exit] \<and> burst False es \<noteq> None
    \<and> v_state (s_view s') = Exited exit \<and> \<not> s_writer s'
    \<and> list_all (\<lambda>(_, w). case w of Numbered log _ \<Rightarrow> log \<noteq> [] \<and> last log = Ended exit | Terminal _ _ \<Rightarrow> True)
        (v_sinks (s_view s'))"
  using assms
proof (induction vt os clock quiet_after k rs s p arbitrary: seen rule: pump_loop.induct)
  case (1 vt os clock quiet_after k rs s p)
  show ?case
  proof (cases "p_eof p \<and> p_exit p \<noteq> None")
    case True
    then have f: "pump_finish s p = (s', p')" "rest = rs"
      using "1.prems"(1) by (subst (asm) pump_loop.simps; simp add: Let_def split: prod.splits)+
    with pump_finish_ends [OF f(1) "1.prems"(2)] "1.prems"(2) show ?thesis
      by (intro exI [of _ "[]"]) (auto simp: pump_inv_def)
  next
    case False
    note l = "1.prems"(1) [unfolded pump_loop.simps [of vt os clock quiet_after k rs s p] if_not_P [OF False]]
    show ?thesis
    proof (cases "pump_turn vt os clock quiet_after k rs s p")
      case None
      with l show ?thesis by simp
    next
      case (Some t)
      show ?thesis
      proof (cases t)
        case (Stop s1 p1)
        with l Some have f: "pump_finish s1 p1 = (s', p')" "rest = tl rs"
          by (auto simp: Let_def split: prod.splits)
        have "p1 = p" "rs = [hd rs] @ tl rs" "outputs [hd rs] = []" "chunk_ok (hd rs)"
          using Some Stop by (auto simp: pump_turn_def Let_def
              split: list.splits received.splits wait.splits if_splits option.splits prod.splits)
        then have "pump_inv (seen @ [hd rs]) p1" using "1.prems"(2) by (simp add: pump_inv_def)
        with pump_finish_ends [OF f(1) this] \<open>rs = [hd rs] @ tl rs\<close> f(2) show ?thesis
          by (intro exI [of _ "[hd rs]"]) (auto simp: pump_inv_def)
      next
        case (Next k1 rs1 s1 p1)
        obtain used where u: "rs = used @ rs1" "pump_inv (seen @ used) p1"
          using pump_turn_inv [OF Some [unfolded Next] "1.prems"(2)] by blast
        have "pump_loop vt os clock quiet_after k1 rs1 s1 p1 = Ended_At k' s' p' rest"
          using l Some Next by simp
        from "1.IH" [OF False Some Next this u(2)] obtain used' exit es i where r: "rs1 = used' @ rest"
          "concat (p_batches p') = outputs ((seen @ used) @ used')"
          "list_all chunk_ok ((seen @ used) @ used') \<longrightarrow> list_all (\<lambda>b. length b < MAX_BATCH + READ_CHUNK) (p_batches p')"
          "p_events p' = es @ [SessionEnded i exit]" "burst False es \<noteq> None"
          "v_state (s_view s') = Exited exit" "\<not> s_writer s'"
          "list_all (\<lambda>(_, w). case w of Numbered log _ \<Rightarrow> log \<noteq> [] \<and> last log = Ended exit | Terminal _ _ \<Rightarrow> True)
            (v_sinks (s_view s'))"
          by blast
        with u(1) show ?thesis
          by (intro exI [of _ "used @ used'"] exI [of _ exit] exI [of _ es] exI [of _ i]) simp
      next
        case Waiting
        with l Some show ?thesis by simp
      qed
    qed
  qed
qed

text \<open>C37. When the pump ends, everything it received from the program has been delivered, each byte
  once and in order, in batches of less than \<open>MAX_BATCH\<close> and one read; it told the host of bursts
  of output beginning and ending in alternation and, last of all and once, that the session has
  exited; the session is then closed for writing, and the last thing every numbered viewer still
  attached was sent is the same exit.\<close>

theorem pump_delivers_before_the_exit:
  assumes "pump_loop vt os clock quiet_after k rs s pump_start = Ended_At k' s' p' rest"
  shows "\<exists>used exit es i. rs = used @ rest
    \<and> concat (p_batches p') = outputs used
    \<and> (list_all chunk_ok used \<longrightarrow> list_all (\<lambda>b. length b < MAX_BATCH + READ_CHUNK) (p_batches p'))
    \<and> p_events p' = es @ [SessionEnded i exit] \<and> burst False es \<noteq> None
    \<and> v_state (s_view s') = Exited exit \<and> \<not> s_writer s'
    \<and> list_all (\<lambda>(_, w). case w of Numbered log _ \<Rightarrow> log \<noteq> [] \<and> last log = Ended exit | Terminal _ _ \<Rightarrow> True)
        (v_sinks (s_view s'))"
  using pump_loop_ends [OF assms, of "[]"] by (simp add: pump_inv_def pump_start_def)

definition a_short_life :: "received list" where
  "a_short_life = [Got (MOutput (ascii ''hi'')), Got (MOutput (ascii ''!'')), Got MEof,
    Got (MChildExited \<lparr>exit_code = 0, exit_success = True, exit_signal = None\<rparr>)]"

theorem pump_delivers_before_the_exit_witness:
  "\<exists>k s p rest used. pump_loop sized_tape calm secs 3 0 a_short_life
      (session_new sized_tape shell ''id'' None holds_default 0) pump_start = Ended_At k s p rest
    \<and> a_short_life = used @ rest \<and> concat (p_batches p) = outputs used \<and> p_batches p = [ascii ''hi'', ascii ''!'']"
proof -
  let ?run = "pump_loop sized_tape calm secs 3 0 a_short_life
      (session_new sized_tape shell ''id'' None holds_default 0) pump_start"
  have "case ?run of Ended_At k s p rest \<Rightarrow> p_batches p = [ascii ''hi'', ascii ''!''] | _ \<Rightarrow> False"
    by code_simp
  then obtain k s p rest where r: "?run = Ended_At k s p rest" "p_batches p = [ascii ''hi'', ascii ''!'']"
    by (cases ?run) auto
  from pump_delivers_before_the_exit [OF r(1)] r show ?thesis by blast
qed

end
