(* ===== verification/Host.thy ===== *)
theory Host
  imports Pump "HOL-Library.AList" "HOL-Library.List_Lexorder" "HOL-Library.Char_ord"
begin

text \<open>
  \<open>crates/pty-host/src/lib.rs\<close> and \<open>prompt.rs\<close>: the host, a table of sessions, and the first message
  typed into a program once it is up.  The table is an association list with one entry per session.
  Starting a process is the operating system's: \<open>host_spawn\<close> takes what it gave, an error or a fresh
  id, a process id and the time.  The prompts handed to threads of their own are kept in
  \<open>ho_prompts\<close>; what such a thread does is \<open>prompt_deliver\<close>.
\<close>

section \<open>A table of sessions\<close>

text \<open>What the host needs of its table.\<close>

locale session_table =
  fixes look :: "'k \<Rightarrow> 't \<Rightarrow> 's option"
    and put :: "'k \<Rightarrow> 's \<Rightarrow> 't \<Rightarrow> 't"
    and remove :: "'k \<Rightarrow> 't \<Rightarrow> 't"
  assumes look_put: "look j (put i s t) = (if j = i then Some s else look j t)"
    and look_remove: "look j (remove i t) = (if j = i then None else look j t)"
begin

text \<open>A call on the session \<open>i\<close>: \<open>fail\<close> when there is none.\<close>

definition on_session :: "'k \<Rightarrow> 'e \<Rightarrow> ('s \<Rightarrow> ('e + 'a) \<times> 's) \<Rightarrow> 't \<Rightarrow> ('e + 'a) \<times> 't" where
  "on_session i fail f t =
    (case look i t of None \<Rightarrow> (Inl fail, t) | Some s \<Rightarrow> (case f s of (r, s) \<Rightarrow> (r, put i s t)))"

lemma on_session_other: "j \<noteq> i \<Longrightarrow> look j (snd (on_session i fail f t)) = look j t"
  by (simp add: on_session_def look_put split: option.splits prod.splits)

lemma on_session_this:
  "look i (snd (on_session i fail f t)) = map_option (\<lambda>s. snd (f s)) (look i t)"
  by (simp add: on_session_def look_put split: option.splits prod.splits)

lemma on_session_unknown: "look i t = None \<Longrightarrow> on_session i fail f t = (Inl fail, t)"
  by (simp add: on_session_def)

lemma on_session_result: "look i t = Some s \<Longrightarrow> fst (on_session i fail f t) = fst (f s)"
  by (simp add: on_session_def split: prod.splits)

end

interpretation st: session_table "\<lambda>i t. map_of t i" AList.update AList.delete
  by unfold_locales (simp_all add: update_conv' delete_conv')

section \<open>The host\<close>

definition DEFAULT_QUIET_AFTER :: duration where "DEFAULT_QUIET_AFTER = secs 3"
definition SUBMIT_DELAY :: duration where "SUBMIT_DELAY = msecs 150"

record 'p host =
  ho_sessions :: "(session_id \<times> 'p session) list"
  ho_quiet_after :: duration
  ho_holds :: holds
  ho_prompts :: "(session_id \<times> pending_prompt) list"

definition host_new :: "'p host" where
  "host_new = \<lparr>ho_sessions = [], ho_quiet_after = DEFAULT_QUIET_AFTER, ho_holds = holds_default, ho_prompts = []\<rparr>"

definition with_quiet_after :: "duration \<Rightarrow> 'p host \<Rightarrow> 'p host" where
  "with_quiet_after d h = h\<lparr>ho_quiet_after := d\<rparr>"

definition with_holds :: "holds \<Rightarrow> 'p host \<Rightarrow> 'p host" where
  "with_holds hs h = h\<lparr>ho_holds := hs\<rparr>"

definition host_spawn :: "'p vt \<Rightarrow> host_error + (session_id \<times> nat option \<times> instant) \<Rightarrow> instant \<Rightarrow>
    launch_plan \<Rightarrow> 'p host \<Rightarrow> (host_error + session_info) \<times> 'p host" where
  "host_spawn vt started now plan h =
    (case started of
       Inl e \<Rightarrow> (Inl e, h)
     | Inr (i, pid, at) \<Rightarrow>
         let s = session_new vt plan i pid (ho_holds h) at
         in (Inr (session_info_of now s),
           h\<lparr>ho_sessions := AList.update i s (ho_sessions h),
             ho_prompts := ho_prompts h @ (case plan_prompt plan of Some p \<Rightarrow> [(i, p)] | None \<Rightarrow> [])\<rparr>))"

definition on_host :: "session_id \<Rightarrow> ('p session \<Rightarrow> (host_error + 'a) \<times> 'p session) \<Rightarrow>
    'p host \<Rightarrow> (host_error + 'a) \<times> 'p host" where
  "on_host i f h =
    (case map_of (ho_sessions h) i of
       None \<Rightarrow> (Inl (UnknownSession i), h)
     | Some s \<Rightarrow> (case f s of (r, s) \<Rightarrow> (r, h\<lparr>ho_sessions := AList.update i s (ho_sessions h)\<rparr>)))"

text \<open>Attaching reads the scrollback, so it is partial like the session's.\<close>

definition host_attach :: "'p vt \<Rightarrow> session_id \<Rightarrow> (bytes list \<Rightarrow> bool) \<Rightarrow> 'p host \<Rightarrow>
    ((host_error + attachment_id) \<times> 'p host) option" where
  "host_attach vt i sink h =
    (case map_of (ho_sessions h) i of
       None \<Rightarrow> Some (Inl (UnknownSession i), h)
     | Some s \<Rightarrow> map_option (\<lambda>(a, s). (Inr a, h\<lparr>ho_sessions := AList.update i s (ho_sessions h)\<rparr>))
         (session_attach vt sink s))"

definition host_resume_numbered :: "'p vt \<Rightarrow> os \<Rightarrow> session_id \<Rightarrow> output_seq option \<Rightarrow>
    (numbered list \<Rightarrow> bool) \<Rightarrow> 'p host \<Rightarrow> ((host_error + attachment_id) \<times> 'p host) option" where
  "host_resume_numbered vt os i after sink h =
    (case map_of (ho_sessions h) i of
       None \<Rightarrow> Some (Inl (UnknownSession i), h)
     | Some s \<Rightarrow> map_option (\<lambda>(a, s). (Inr a, h\<lparr>ho_sessions := AList.update i s (ho_sessions h)\<rparr>))
         (session_attach_numbered vt os after sink s))"

definition host_attach_numbered :: "'p vt \<Rightarrow> os \<Rightarrow> session_id \<Rightarrow> (numbered list \<Rightarrow> bool) \<Rightarrow>
    'p host \<Rightarrow> ((host_error + attachment_id) \<times> 'p host) option" where
  "host_attach_numbered vt os i sink h = host_resume_numbered vt os i None sink h"

definition host_detach :: "session_id \<Rightarrow> attachment_id \<Rightarrow> 'p host \<Rightarrow> (host_error + unit) \<times> 'p host" where
  "host_detach i a = on_host i (\<lambda>s. (Inr (), session_detach a s))"

definition host_write :: "'p vt \<Rightarrow> os \<Rightarrow> session_id \<Rightarrow> bytes \<Rightarrow> 'p host \<Rightarrow> (host_error + unit) \<times> 'p host" where
  "host_write vt os i data = on_host i (session_local_write vt os data)"

definition host_paste :: "'p vt \<Rightarrow> os \<Rightarrow> session_id \<Rightarrow> bytes \<Rightarrow> 'p host \<Rightarrow> (host_error + unit) \<times> 'p host" where
  "host_paste vt os i txt = on_host i (session_local_paste vt os txt)"

definition host_type_unattended ::
  "'p vt \<Rightarrow> os \<Rightarrow> session_id \<Rightarrow> bytes \<Rightarrow> bool \<Rightarrow> 'p host \<Rightarrow> (host_error + unit) \<times> 'p host" where
  "host_type_unattended vt os i txt paste = on_host i (session_unattended vt os txt paste)"

definition host_resize :: "'p vt \<Rightarrow> os \<Rightarrow> session_id \<Rightarrow> term_size \<Rightarrow> 'p host \<Rightarrow> (host_error + unit) \<times> 'p host" where
  "host_resize vt os i sz = on_host i (session_resize vt os sz)"

definition host_controller :: "os \<Rightarrow> session_id \<Rightarrow> 'p host \<Rightarrow> (host_error + controller) \<times> 'p host" where
  "host_controller os i = on_host i (\<lambda>s. case session_controller os s of (c, s) \<Rightarrow> (Inr c, s))"

definition host_acquire :: "os \<Rightarrow> session_id \<Rightarrow> bytes \<Rightarrow> bool \<Rightarrow> 'p host \<Rightarrow> (host_error + lease) \<times> 'p host" where
  "host_acquire os i who take_over = on_host i (session_acquire os who take_over)"

definition host_renew :: "os \<Rightarrow> session_id \<Rightarrow> lease_ref \<Rightarrow> 'p host \<Rightarrow> (host_error + lease) \<times> 'p host" where
  "host_renew os i ref = on_host i (session_renew os ref)"

definition host_release :: "'p vt \<Rightarrow> os \<Rightarrow> session_id \<Rightarrow> lease_ref \<Rightarrow> 'p host \<Rightarrow> (host_error + unit) \<times> 'p host" where
  "host_release vt os i ref = on_host i (session_release vt os ref)"

definition host_input :: "'p vt \<Rightarrow> os \<Rightarrow> session_id \<Rightarrow> lease_ref \<Rightarrow> nat \<Rightarrow> bytes \<Rightarrow> bool \<Rightarrow>
    'p host \<Rightarrow> (host_error + unit) \<times> 'p host" where
  "host_input vt os i ref sq data paste = on_host i (session_input vt os ref sq data paste)"

definition host_resize_leased :: "'p vt \<Rightarrow> os \<Rightarrow> session_id \<Rightarrow> lease_ref \<Rightarrow> term_size \<Rightarrow>
    'p host \<Rightarrow> (host_error + unit) \<times> 'p host" where
  "host_resize_leased vt os i ref sz = on_host i (session_resize_leased vt os ref sz)"

definition host_kill :: "os \<Rightarrow> session_id \<Rightarrow> 'p host \<Rightarrow> (host_error + unit) \<times> 'p host" where
  "host_kill os i = on_host i (session_kill os)"

text \<open>\<open>remove\<close> kills the session and forgets it, whatever the kill says; the session as it leaves
  the table is the second result.\<close>

definition host_remove :: "os \<Rightarrow> session_id \<Rightarrow> 'p host \<Rightarrow> (host_error + unit) \<times> 'p session option \<times> 'p host" where
  "host_remove os i h =
    (case map_of (ho_sessions h) i of
       None \<Rightarrow> (Inl (UnknownSession i), None, h)
     | Some s \<Rightarrow> (Inr (), Some (snd (session_kill os s)), h\<lparr>ho_sessions := AList.delete i (ho_sessions h)\<rparr>))"

definition host_info :: "instant \<Rightarrow> session_id \<Rightarrow> 'p host \<Rightarrow> host_error + session_info" where
  "host_info now i h =
    (case map_of (ho_sessions h) i of
       None \<Rightarrow> Inl (UnknownSession i) | Some s \<Rightarrow> Inr (session_info_of now s))"

definition host_list :: "instant \<Rightarrow> 'p host \<Rightarrow> session_info list" where
  "host_list now h = sort_key info_id (map (\<lambda>(_, s). session_info_of now s) (ho_sessions h))"

definition host_drop :: "os \<Rightarrow> 'p host \<Rightarrow> 'p session list" where
  "host_drop os h = map (\<lambda>(_, s). snd (session_kill os s)) (ho_sessions h)"

definition paste_and_submit :: "('h \<Rightarrow> bytes \<Rightarrow> (host_error + unit) \<times> 'h) \<Rightarrow>
    ('h \<Rightarrow> bytes \<Rightarrow> (host_error + unit) \<times> 'h) \<Rightarrow> bytes \<Rightarrow> 'h \<Rightarrow> (host_error + unit) \<times> 'h" where
  "paste_and_submit paste write txt h =
    (case paste h txt of (Inl e, h) \<Rightarrow> (Inl e, h) | (Inr _, h) \<Rightarrow> write h [0x0d])"

section \<open>The first message\<close>

definition READY_TIMEOUT :: duration where "READY_TIMEOUT = secs 20"
definition READY_POLL :: duration where "READY_POLL = msecs 100"

datatype readiness = Ready | Timed_Out | Gone

text \<open>One poll is what \<open>observe\<close> returned and how much time had passed then; \<open>None\<close> when the
  polls end before the wait does.\<close>

fun wait_until_ready :: "duration \<Rightarrow> duration \<Rightarrow> ((bool \<times> duration) option \<times> duration) list \<Rightarrow> readiness option" where
  "wait_until_ready quiet timeout [] = None"
| "wait_until_ready quiet timeout ((None, _) # polls) = Some Gone"
| "wait_until_ready quiet timeout ((Some (has_output, idle), elapsed) # polls) =
    (if has_output \<and> quiet \<le> idle then Some Ready
     else if timeout \<le> elapsed then Some Timed_Out
     else wait_until_ready quiet timeout polls)"

definition observe :: "session_info \<Rightarrow> (bool \<times> duration) option" where
  "observe info =
    (case info_state info of
       Running \<Rightarrow> Some (info_has_output info, msecs (info_idle_ms info)) | Exited _ \<Rightarrow> None)"

text \<open>\<open>write1\<close> and \<open>write2\<close> are the operating system at the paste and at the return key.\<close>

definition prompt_deliver :: "'p vt \<Rightarrow> os \<Rightarrow> os \<Rightarrow> readiness \<Rightarrow> pending_prompt \<Rightarrow> 'p session \<Rightarrow> 'p session" where
  "prompt_deliver vt write1 write2 readiness prompt s =
    (if readiness = Gone then s
     else case session_paste vt write1 (prompt_text prompt) s of
       (Inl _, s) \<Rightarrow> s
     | (Inr _, s) \<Rightarrow> snd (session_write write2 [0x0d] s))"

section \<open>What the host promises\<close>

lemma on_host_table:
  "on_host i f h = (case st.on_session i (UnknownSession i) f (ho_sessions h) of
    (r, t) \<Rightarrow> (r, h\<lparr>ho_sessions := t\<rparr>))"
  by (simp add: on_host_def st.on_session_def split: option.splits prod.splits)

text \<open> A call on one session finds that session in its own state and leaves every other session
  exactly as it was; a call on an id the host does not know is refused and changes nothing.\<close>

theorem sessions_are_separate:
  "let (r, h') = on_host i f h in
    (case map_of (ho_sessions h) i of
       None \<Rightarrow> r = Inl (UnknownSession i) \<and> h' = h
     | Some s \<Rightarrow> r = fst (f s) \<and> map_of (ho_sessions h') = (map_of (ho_sessions h))(i \<mapsto> snd (f s)))"
proof (cases "map_of (ho_sessions h) i")
  case None
  then show ?thesis by (simp add: on_host_table st.on_session_unknown)
next
  case (Some s)
  obtain r t where rt: "st.on_session i (UnknownSession i) f (ho_sessions h) = (r, t)" by fastforce
  have "map_of t j = ((map_of (ho_sessions h))(i \<mapsto> snd (f s))) j" for j
    using st.on_session_other [of j i "UnknownSession i" f "ho_sessions h"]
      st.on_session_this [of i "UnknownSession i" f "ho_sessions h"] Some rt
    by simp
  moreover have "r = fst (f s)" using st.on_session_result [OF Some, of "UnknownSession i" f] rt by simp
  ultimately show ?thesis using Some by (simp add: on_host_table rt fun_eq_iff)
qed

text \<open>What one poll says on its own, and whether it is one to wait on after.\<close>

fun settled :: "duration \<Rightarrow> (bool \<times> duration) option \<Rightarrow> bool" where
  "settled quiet (Some (has_output, idle)) = (has_output \<and> quiet \<le> idle)"
| "settled quiet None = False"

definition wait_on :: "duration \<Rightarrow> duration \<Rightarrow> (bool \<times> duration) option \<times> duration \<Rightarrow> bool" where
  "wait_on quiet timeout p \<longleftrightarrow> fst p \<noteq> None \<and> \<not> settled quiet (fst p) \<and> snd p < timeout"

text \<open> The first poll that is not one to wait on after decides: the program is gone, or it has printed
  something and been quiet for long enough, or it is over the timeout and the message is sent
  rather than lost.  Polls before it find it running, not yet settled and in time, and once a
  poll that counts comes the wait always ends.\<close>

theorem first_message_when_ready:
  "wait_until_ready quiet timeout polls =
    map_option (\<lambda>(o', elapsed). if o' = None then Gone else if settled quiet o' then Ready else Timed_Out)
      (find (\<lambda>p. \<not> wait_on quiet timeout p) polls)"
  by (induction quiet timeout polls rule: wait_until_ready.induct) (auto simp: wait_on_def not_less)

end
