(* ===== verification/Text.thy ===== *)
theory Text
  imports Prelude "HOL-Library.Code_Target_Nat"
begin

text \<open>
  Text as the core crate handles it.  A Rust \<open>String\<close> is the list of its UTF-8 bytes, which is what
  a HOL \<open>string\<close> is, so literals read as in the source.  These are the standard library's functions
  on text that the components use, with the lemmas about finding and cutting.
\<close>

section \<open>White space\<close>

definition white :: "string \<Rightarrow> nat" where
  "white s = blank_char (ascii (take 3 s))"

lemma blank_char_le: "blank_char bs \<le> length bs"
  by (auto simp: blank_char_def split: list.splits)

lemma white_le: "white s \<le> length s"
  using blank_char_le [of "ascii (take 3 s)"] by (simp add: white_def ascii_def)

lemma white_drop: "white s \<noteq> 0 \<Longrightarrow> length (drop (white s) s) < length s"
  using white_le [of s] by simp

function trim_start :: "string \<Rightarrow> string" where
  "trim_start s = (if white s = 0 then s else trim_start (drop (white s) s))"
  by pat_completeness auto
termination
  by (relation "measure length") (auto simp only: in_measure wf_measure intro: white_drop)

definition white_end :: "string \<Rightarrow> nat" where
  "white_end s =
    (let n = length s in
     if 1 \<le> n \<and> white (drop (n - 1) s) = 1 then 1
     else if 2 \<le> n \<and> white (drop (n - 2) s) = 2 then 2
     else if 3 \<le> n \<and> white (drop (n - 3) s) = 3 then 3 else 0)"

function trim_end :: "string \<Rightarrow> string" where
  "trim_end s = (if white_end s = 0 then s else trim_end (take (length s - white_end s) s))"
  by pat_completeness auto
termination
  by (relation "measure length") (auto simp: white_end_def Let_def split: if_splits)

declare trim_start.simps [simp del] trim_end.simps [simp del]

definition trim :: "string \<Rightarrow> string" where
  "trim s = trim_end (trim_start s)"

section \<open>Finding and cutting\<close>

text \<open>Where \<open>pat\<close> first occurs.\<close>

fun find_str :: "string \<Rightarrow> string \<Rightarrow> nat option" where
  "find_str pat [] = (if pat = [] then Some 0 else None)"
| "find_str pat (c # cs) =
    (if prefix pat (c # cs) then Some 0 else map_option Suc (find_str pat cs))"

lemma find_str_Some:
  "find_str pat s = Some n \<Longrightarrow> n + length pat \<le> length s \<and> take (length pat) (drop n s) = pat"
proof (induction s arbitrary: n)
  case Nil
  then show ?case by (simp split: if_splits)
next
  case (Cons c s)
  show ?case
  proof (cases "prefix pat (c # s)")
    case True
    with Cons.prems have "n = 0" by simp
    with True prefix_length_le [OF True] show ?thesis by (auto simp: prefix_def)
  next
    case False
    with Cons show ?thesis by auto
  qed
qed

lemma find_str_here: "prefix pat (c # s) \<Longrightarrow> find_str pat (c # s) = Some 0"
  by simp

lemma find_str_later:
  "\<not> prefix pat (c # s) \<Longrightarrow> find_str pat (c # s) = Some n \<Longrightarrow> \<exists>m. n = Suc m \<and> find_str pat s = Some m"
  by auto

text \<open>\<open>split\<close> on one character, and \<open>join\<close>.\<close>

fun split_char :: "char \<Rightarrow> string \<Rightarrow> string list" where
  "split_char d [] = [[]]"
| "split_char d (c # cs) =
    (if c = d then [] # split_char d cs
     else case split_char d cs of f # fs \<Rightarrow> (c # f) # fs | [] \<Rightarrow> [[c]])"

fun join_with :: "string \<Rightarrow> string list \<Rightarrow> string" where
  "join_with sep [] = []"
| "join_with sep [s] = s"
| "join_with sep (s # ss) = s @ sep @ join_with sep ss"

text \<open>\<open>lines().next().unwrap_or("")\<close>: up to the first line feed, less one carriage return before it.\<close>

definition first_line :: "string \<Rightarrow> string" where
  "first_line s =
    (let l = takeWhile (\<lambda>c. c \<noteq> CHR 0x0A) s in
     if length l < length s \<and> l \<noteq> [] \<and> last l = CHR 0x0D then butlast l else l)"

section \<open>Numbers\<close>

definition num :: "nat \<Rightarrow> string" where
  "num n = map (\<lambda>b. char_of (unat b)) (show_nat n)"

definition is_ascii_alphanumeric :: "char \<Rightarrow> bool" where
  "is_ascii_alphanumeric c \<longleftrightarrow>
    (let n = of_char c :: nat in (48 \<le> n \<and> n \<le> 57) \<or> (65 \<le> n \<and> n \<le> 90) \<or> (97 \<le> n \<and> n \<le> 122))"

lemma split_char_not_Nil [simp]: "split_char d s \<noteq> []"
  by (cases s) (auto split: list.splits)

lemma split_join: "join_with [d] (split_char d s) = s"
proof (induction s)
  case Nil
  then show ?case by simp
next
  case (Cons c s)
  obtain f fs where f: "split_char d s = f # fs" by (cases "split_char d s") auto
  with Cons show ?case by (cases fs) auto
qed

end
