(* ===== verification/Template.thy ===== *)
theory Template
  imports Text
begin

text \<open>
  \<open>crates/core/src/template.rs\<close>: \<open>{{ variables }}\<close> in a workflow's or a smoke test's text.  \<open>parse\<close>
  takes a text apart or lists everything wrong with it, and \<open>render\<close> puts values in.  The lemmas
  show that escaping a text makes it come out as it was, that the pieces found are the text, and
  that a text with a mistake is never half filled.
\<close>

section \<open>Taking a text apart\<close>

record placeholder =
  ph_path :: "string list"
  ph_start :: nat
  ph_raw :: string

record malformed =
  mf_start :: nat
  mf_raw :: string
  mf_message :: string

datatype part = Literal string | Var placeholder

definition is_segment :: "string \<Rightarrow> bool" where
  "is_segment segment \<longleftrightarrow> segment \<noteq> [] \<and>
    list_all (\<lambda>c. is_ascii_alphanumeric c \<or> c = CHR ''_'' \<or> c = CHR ''-'') segment"

definition template_name :: "string \<Rightarrow> string + string list" where
  "template_name inner =
    (let trimmed = trim inner in
     if trimmed = []
     then Inl ''`{{ }}` is empty. Put a name inside, like `{{ workspace.branch }}`.''
     else
       let path = split_char (CHR ''.'') trimmed in
       if list_all is_segment path then Inr path
       else Inl (''`{{'' @ inner @ ''}}` is not a variable. A variable is a dotted name, like `{{ workspace.branch }}`, and nothing else.''))"

definition never_closed :: string where
  "never_closed = ''`{{` is never closed with `}}`. Write `'' @ [CHR 0x5C] @ ''{{` for a literal `{{`.''"

definition backslash :: char where "backslash = CHR 0x5C"

text \<open>The loop: what is left, how far it is into the text, the literal run so far, and the parts and
  problems found.\<close>

function template_loop :: "string \<Rightarrow> nat \<Rightarrow> string \<Rightarrow> part list \<Rightarrow> malformed list \<Rightarrow>
    string \<times> part list \<times> malformed list" where
  "template_loop rest offset literal parts problems =
    (case find_str ''{{'' rest of
       None \<Rightarrow> (literal @ rest, parts, problems)
     | Some at \<Rightarrow>
         if at \<noteq> 0 \<and> rest ! (at - 1) = backslash
         then template_loop (drop (at + 2) rest) (offset + at + 2)
           (literal @ take (at - 1) rest @ ''{{'') parts problems
         else
           let literal = literal @ take at rest;
               start = offset + at;
               following = drop (at + 2) rest
           in case find_str ''}}'' following of
                None \<Rightarrow> (literal, parts,
                  problems @ [\<lparr>mf_start = start, mf_raw = first_line (drop at rest), mf_message = never_closed\<rparr>])
              | Some close \<Rightarrow>
                  let inner = take close following;
                      raw = ''{{'' @ inner @ ''}}'';
                      consumed = at + 2 + close + 2
                  in case template_name inner of
                       Inr path \<Rightarrow>
                         template_loop (drop consumed rest) (offset + consumed) []
                           (parts @ (if literal = [] then [] else [Literal literal])
                             @ [Var \<lparr>ph_path = path, ph_start = start, ph_raw = raw\<rparr>]) problems
                     | Inl message \<Rightarrow>
                         template_loop (drop consumed rest) (offset + consumed) literal parts
                           (problems @ [\<lparr>mf_start = start, mf_raw = raw, mf_message = message\<rparr>]))"
  by pat_completeness auto
termination
  by (relation "measure (\<lambda>(rest, _). length rest)") (auto dest!: find_str_Some)

declare template_loop.simps [simp del]

definition template_parse :: "string \<Rightarrow> malformed list + part list" where
  "template_parse txt =
    (case template_loop txt 0 [] [] [] of
       (literal, parts, problems) \<Rightarrow>
         let parts = (if literal = [] then parts else parts @ [Literal literal])
         in if problems = [] then Inr parts else Inl problems)"

fun part_var :: "part \<Rightarrow> placeholder list" where
  "part_var (Var v) = [v]"
| "part_var (Literal _) = []"

definition placeholders :: "string \<Rightarrow> placeholder list" where
  "placeholders txt = (case template_parse txt of Inr parts \<Rightarrow> concat (map part_var parts) | Inl _ \<Rightarrow> [])"

fun part_text :: "(string list \<Rightarrow> string option) \<Rightarrow> part \<Rightarrow> string" where
  "part_text lookup (Literal s) = s"
| "part_text lookup (Var v) = (case lookup (ph_path v) of Some s \<Rightarrow> s | None \<Rightarrow> [])"

definition template_render :: "(string list \<Rightarrow> string option) \<Rightarrow> string \<Rightarrow> string" where
  "template_render lookup txt =
    (case template_parse txt of Inl _ \<Rightarrow> txt | Inr parts \<Rightarrow> concat (map (part_text lookup) parts))"

section \<open>Escaping\<close>

text \<open>Write \<open>\{{\<close> for every \<open>{{\<close>.\<close>

fun escape_braces :: "string \<Rightarrow> string" where
  "escape_braces (c # d # cs) =
    (if c = CHR ''{'' \<and> d = CHR ''{'' then backslash # c # d # escape_braces cs
     else c # escape_braces (d # cs))"
| "escape_braces cs = cs"

lemma find_open_None: "find_str ''{{'' s = None \<Longrightarrow> escape_braces s = s"
proof (induction s rule: escape_braces.induct)
  case (1 c d cs)
  then show ?case by (auto simp: prefix_Cons split: if_splits)
qed auto

text \<open>Where the first \<open>{{\<close> is, and what escaping does around it.\<close>

lemma escape_first:
  "find_str ''{{'' s = Some n \<Longrightarrow>
    escape_braces s = take n s @ backslash # ''{{'' @ escape_braces (drop (n + 2) s)"
proof (induction s arbitrary: n rule: escape_braces.induct)
  case (1 c d cs)
  show ?case
  proof (cases "c = CHR ''{'' \<and> d = CHR ''{''")
    case True
    with 1 show ?thesis by simp
  next
    case False
    then have "\<not> prefix ''{{'' (c # d # cs)" by (auto simp: prefix_Cons)
    from find_str_later [OF this 1(3)] obtain m where m: "n = Suc m" "find_str ''{{'' (d # cs) = Some m"
      by blast
    have "escape_braces (c # d # cs) = c # escape_braces (d # cs)" using False by (simp only: escape_braces.simps if_False)
    with 1(2) [OF False m(2)] m(1) show ?thesis by (simp only: take_Suc_Cons append_Cons add_Suc drop_Suc_Cons)
  qed
qed (auto split: if_splits)

lemma find_in_escaped:
  "find_str ''{{'' s = Some n \<Longrightarrow>
    find_str ''{{'' (take n s @ backslash # ''{{'' @ r) = Some (Suc n)"
proof (induction s arbitrary: n)
  case Nil
  then show ?case by simp
next
  case (Cons c s)
  show ?case
  proof (cases "prefix ''{{'' (c # s)")
    case True
    from find_str_here [OF this] Cons.prems have "n = 0" by (simp only: option.inject)
    then show ?thesis by (simp add: backslash_def prefix_Cons)
  next
    case False
    from find_str_later [OF this Cons.prems] obtain m where m: "n = Suc m" "find_str ''{{'' s = Some m"
      by blast
    have "\<not> prefix ''{{'' (c # take m s @ backslash # ''{{'' @ r)"
    proof (cases m)
      case 0
      then show ?thesis by (simp add: backslash_def prefix_Cons)
    next
      case (Suc k)
      then obtain d ds where "s = d # ds" using m(2) by (cases s) auto
      with False Suc show ?thesis by (auto simp: prefix_Cons)
    qed
    with m Cons.IH [OF m(2)] show ?thesis by simp
  qed
qed

lemma template_loop_escaped:
  "template_loop (escape_braces s) offset literal parts problems = (literal @ s, parts, problems)"
proof (induction "length s" arbitrary: s offset literal rule: less_induct)
  case less
  show ?case
  proof (cases "find_str ''{{'' s")
    case None
    then have "escape_braces s = s" by (rule find_open_None)
    with None show ?thesis by (simp add: template_loop.simps [of s])
  next
    case (Some n)
    let ?rest = "drop (n + 2) s"
    note cut = find_str_Some [OF Some]
    have s: "s = take n s @ ''{{'' @ ?rest"
      using cut by (metis append_take_drop_id append.assoc drop_drop add.commute length_Cons list.size(3) One_nat_def Suc_1)
    have e: "escape_braces s = take n s @ backslash # ''{{'' @ escape_braces ?rest"
      by (rule escape_first [OF Some])
    have n: "length (take n s) = n" using cut by simp
    have f: "find_str ''{{'' (escape_braces s) = Some (Suc n)"
      unfolding e by (rule find_in_escaped [OF Some])
    have "template_loop (escape_braces s) offset literal parts problems =
        template_loop (escape_braces ?rest) (offset + Suc n + 2) (literal @ take n s @ ''{{'') parts problems"
      using f n unfolding e by (subst template_loop.simps) (simp add: nth_append)
    also have "\<dots> = ((literal @ take n s @ ''{{'') @ ?rest, parts, problems)"
      using cut by (intro less) auto
    also have "(literal @ take n s @ ''{{'') @ ?rest = literal @ s" using s by simp
    finally show ?thesis .
  qed
qed

text \<open> Writing a backslash before every \<open>{{\<close> of a text makes it a template that has no placeholder
  and no mistake and renders as the text itself, whatever the variables are.\<close>

theorem escaped_text_renders_as_itself:
  "template_render lookup (escape_braces s) = s \<and> placeholders (escape_braces s) = []"
  by (simp add: template_render_def placeholders_def template_parse_def template_loop_escaped)

section \<open>Where things are\<close>

definition raw_at :: "string \<Rightarrow> nat \<Rightarrow> string \<Rightarrow> bool" where
  "raw_at txt start raw \<longleftrightarrow> prefix raw (drop start txt) \<and> prefix ''{{'' (drop start txt)"

definition parts_ok :: "string \<Rightarrow> part list \<Rightarrow> bool" where
  "parts_ok txt parts \<longleftrightarrow>
    list_all (\<lambda>v. raw_at txt (ph_start v) (ph_raw v)) (concat (map part_var parts))"

definition problems_ok :: "string \<Rightarrow> malformed list \<Rightarrow> bool" where
  "problems_ok txt problems \<longleftrightarrow> list_all (\<lambda>m. raw_at txt (mf_start m) (mf_raw m)) problems"

lemma first_line_prefix: "prefix (first_line s) s"
proof -
  have l: "prefix (takeWhile P s) s" for P by (metis prefixI takeWhile_dropWhile_id)
  then show ?thesis
    by (auto simp: first_line_def Let_def intro: prefix_order.trans [OF prefixeq_butlast])
qed

lemma found_prefix:
  assumes "find_str pat s = Some n"
  shows "prefix pat (drop n s)"
  using find_str_Some [OF assms] by (metis take_is_prefix)

lemma raw_prefix:
  assumes "find_str ''{{'' s = Some at" and "find_str ''}}'' (drop (at + 2) s) = Some close"
  shows "prefix (''{{'' @ take close (drop (at + 2) s) @ ''}}'') (drop at s)"
proof -
  obtain r where r: "drop at s = ''{{'' @ r" using found_prefix [OF assms(1)] by (auto simp: prefix_def)
  have "drop (at + 2) s = drop 2 (drop at s)" by (simp add: add.commute)
  then have "drop (at + 2) s = r" by (simp only: r) simp
  moreover obtain r' where "drop close (drop (at + 2) s) = ''}}'' @ r'"
    using found_prefix [OF assms(2)] by (auto simp: prefix_def)
  ultimately have "r = take close r @ ''}}'' @ r'" by (metis append_take_drop_id)
  with r \<open>drop (at + 2) s = r\<close> show ?thesis by (metis append.assoc prefixI)
qed

lemma template_loop_places:
  assumes "template_loop rest offset literal parts problems = (literal', parts', problems')"
    and "rest = drop offset txt" and "parts_ok txt parts" and "problems_ok txt problems"
  shows "parts_ok txt parts' \<and> problems_ok txt problems'"
  using assms
proof (induction rest offset literal parts problems rule: template_loop.induct)
  case (1 rest offset literal parts problems)
  note l = "1.prems"(1) [unfolded template_loop.simps [of rest offset literal parts problems]]
  show ?case
  proof (cases "find_str ''{{'' rest")
    case None
    with l "1.prems" show ?thesis by simp
  next
    case (Some at)
    show ?thesis
    proof (cases "at \<noteq> 0 \<and> rest ! (at - 1) = backslash")
      case True
      have "drop (at + 2) rest = drop (offset + at + 2) txt" using "1.prems"(2) by (simp add: ac_simps)
      with "1.IH"(1) [OF Some True] l Some True "1.prems"(3,4) show ?thesis by simp
    next
      case False
      let ?following = "drop (at + 2) rest"
      have here: "drop (offset + at) txt = drop at rest" using "1.prems"(2) by (simp add: ac_simps)
      have open_here: "prefix ''{{'' (drop (offset + at) txt)" using found_prefix [OF Some] here by simp
      show ?thesis
      proof (cases "find_str ''}}'' ?following")
        case None
        have "raw_at txt (offset + at) (first_line (drop at rest))"
          using first_line_prefix [of "drop at rest"] open_here here by (simp add: raw_at_def)
        moreover have "parts' = parts" "problems' = problems @ [\<lparr>mf_start = offset + at,
            mf_raw = first_line (drop at rest), mf_message = never_closed\<rparr>]"
          using l Some False None by (auto simp: Let_def)
        ultimately show ?thesis using "1.prems"(3,4) by (simp add: problems_ok_def)
      next
        case (Some close)
        let ?raw = "''{{'' @ take close ?following @ ''}}''"
        have raw: "raw_at txt (offset + at) ?raw"
          using raw_prefix [OF \<open>find_str ''{{'' rest = Some at\<close> Some] open_here here by (simp add: raw_at_def)
        have next_rest: "drop (at + 2 + close + 2) rest = drop (offset + (at + 2 + close + 2)) txt"
          using "1.prems"(2) by (simp add: ac_simps)
        show ?thesis
        proof (cases "template_name (take close ?following)")
          case (Inl message)
          have "problems_ok txt (problems @ [\<lparr>mf_start = offset + at, mf_raw = ?raw, mf_message = message\<rparr>])"
            using raw "1.prems"(4) by (simp add: problems_ok_def)
          moreover have "template_loop (drop (at + 2 + close + 2) rest) (offset + (at + 2 + close + 2))
              (literal @ take at rest) parts
              (problems @ [\<lparr>mf_start = offset + at, mf_raw = ?raw, mf_message = message\<rparr>]) = (literal', parts', problems')"
            using l by (simp only: \<open>find_str ''{{'' rest = Some at\<close> option.case if_not_P [OF False] Let_def Some Inl sum.case)
          ultimately show ?thesis
            using "1.IH"(2) [OF \<open>find_str ''{{'' rest = Some at\<close> False refl refl refl Some refl refl refl Inl]
              next_rest "1.prems"(3) by blast
        next
          case (Inr path)
          have "parts_ok txt (parts @ (if literal @ take at rest = [] then [] else [Literal (literal @ take at rest)])
              @ [Var \<lparr>ph_path = path, ph_start = offset + at, ph_raw = ?raw\<rparr>])"
            using raw "1.prems"(3) by (simp add: parts_ok_def)
          moreover have "template_loop (drop (at + 2 + close + 2) rest) (offset + (at + 2 + close + 2)) []
              (parts @ (if literal @ take at rest = [] then [] else [Literal (literal @ take at rest)])
              @ [Var \<lparr>ph_path = path, ph_start = offset + at, ph_raw = ?raw\<rparr>]) problems = (literal', parts', problems')"
            using l by (simp only: \<open>find_str ''{{'' rest = Some at\<close> option.case if_not_P [OF False] Let_def Some Inr sum.case)
          ultimately show ?thesis
            using "1.IH"(3) [OF \<open>find_str ''{{'' rest = Some at\<close> False refl refl refl Some refl refl refl Inr]
              next_rest "1.prems"(4) by blast
        qed
      qed
    qed
  qed
qed

text \<open>  Every placeholder of a text, and every mistake in one, says where it is: at its offset the text
  has its opening braces and reads exactly as reported.\<close>

theorem template_points_at_the_text:
  "case template_parse txt of
     Inr parts \<Rightarrow> parts_ok txt parts
   | Inl problems \<Rightarrow> problems_ok txt problems \<and> problems \<noteq> []"
proof -
  obtain literal parts problems where l: "template_loop txt 0 [] [] [] = (literal, parts, problems)"
    by (metis prod_cases3)
  have "parts_ok txt parts \<and> problems_ok txt problems"
    by (rule template_loop_places [OF l]) (simp_all add: parts_ok_def problems_ok_def)
  then show ?thesis by (simp add: template_parse_def l Let_def parts_ok_def)
qed

end
