(* ===== verification/Engine.thy ===== *)
theory Engine
  imports Template
begin

text \<open>
  \<open>crates/core/src/workflow/mod.rs\<close> (the data of a workflow) and \<open>workflow/engine.rs\<close>: moving a run
  on.  \<open>advance\<close> goes over the steps until a pass changes nothing; what it knows of the outside is
  the record \<open>world\<close>, one field per method of the trait, and the JSON of a step's outputs is the
  record \<open>json\<close>, since \<open>serde_json\<close> is not in the repository.  Maps from text to text are partial
  functions, or lists in the order of their keys where the code goes over them.  The lemmas show that the passes end, that what they decide can be carried out in
  order, that no step starts before what it needs has succeeded, and that a run whose steps
  depend on each other without a cycle never gets stuck.
\<close>

section \<open>Workflows\<close>

datatype session_ref = Origin | FromStep string

datatype until = Settled | UntilExited

datatype pr_activity = Review | Comment | AnyActivity

type_synonym texts = "(string \<times> string) list"
type_synonym inputs = "string \<rightharpoonup> string"
type_synonym step_outputs = "string \<rightharpoonup> string"

datatype action =
    StartSession string "string option" "string option" "string option" bool
  | WaitSession session_ref until "nat option"
  | SendToSession session_ref string "nat option"
  | WaitPrActivity pr_activity "nat option"
  | RunTest string texts "nat option"
  | Notify string "string option"

fun action_name :: "action \<Rightarrow> string" where
  "action_name (StartSession _ _ _ _ _) = ''start_session''"
| "action_name (WaitSession _ _ _) = ''wait_session''"
| "action_name (SendToSession _ _ _) = ''send_to_session''"
| "action_name (WaitPrActivity _ _) = ''wait_pr_activity''"
| "action_name (RunTest _ _ _) = ''run_test''"
| "action_name (Notify _ _) = ''notify''"

definition action_produces :: "string \<Rightarrow> string list" where
  "action_produces n =
    (if n = ''start_session'' then [''session'', ''run'']
     else if n = ''wait_session'' then [''outcome'']
     else if n = ''wait_pr_activity'' then [''count'', ''latest_url'']
     else if n = ''run_test'' then [''run'', ''verdict'', ''summary'']
     else [])"

record flow_step =
  st_id :: string
  st_needs :: "string list"
  st_action :: action

datatype input_kind = HarnessInput | TestInput | TextInput | ChoiceInput

record input =
  in_id :: string
  in_kind :: input_kind
  in_label :: string
  in_required :: bool
  in_default :: "string option"
  in_options :: "string list"

datatype trigger_kind = Manual

datatype run_context = WorkspaceRun

record trigger =
  trg_kind :: trigger_kind
  trg_context :: run_context

record workflow =
  wf_id :: string
  wf_name :: string
  wf_description :: "string option"
  wf_version :: nat
  wf_trigger :: trigger
  wf_inputs :: "input list"
  wf_steps :: "flow_step list"

section \<open>Rows and moves\<close>

datatype step_status = Pending | Running | Waiting | Succeeded | Failed | Skipped | Cancelled

fun status_str :: "step_status \<Rightarrow> string" where
  "status_str Pending = ''pending''"
| "status_str Running = ''running''"
| "status_str Waiting = ''waiting''"
| "status_str Succeeded = ''succeeded''"
| "status_str Failed = ''failed''"
| "status_str Skipped = ''skipped''"
| "status_str Cancelled = ''cancelled''"

definition status_parse :: "string \<Rightarrow> step_status option" where
  "status_parse s =
    (if s = ''pending'' then Some Pending
     else if s = ''running'' then Some Running
     else if s = ''waiting'' then Some Waiting
     else if s = ''succeeded'' then Some Succeeded
     else if s = ''failed'' then Some Failed
     else if s = ''skipped'' then Some Skipped
     else if s = ''cancelled'' then Some Cancelled
     else None)"

definition is_final :: "step_status \<Rightarrow> bool" where
  "is_final s \<longleftrightarrow> s = Succeeded \<or> s = Failed \<or> s = Skipped \<or> s = Cancelled"

record step_row =
  row_run :: string
  row_step :: string
  row_position :: int
  row_action :: string
  row_status :: string
  row_started :: "int option"
  row_ended :: "int option"
  row_outputs :: string
  row_note :: "string option"

record move =
  mv_step :: string
  mv_from :: "step_status list"
  mv_to :: step_status
  mv_outputs :: "string option"
  mv_note :: "string option"

datatype effect =
    Start string string "string option" "string option" "string option" bool
  | Paste string string string
  | RunTestEffect string string texts
  | NotifyEffect string string "string option"

fun effect_step :: "effect \<Rightarrow> string" where
  "effect_step (Start s _ _ _ _ _) = s"
| "effect_step (Paste s _ _) = s"
| "effect_step (RunTestEffect s _ _) = s"
| "effect_step (NotifyEffect s _ _) = s"

datatype finish = RunSucceeded | RunFailed string

record plan =
  pl_moves :: "move list"
  pl_effects :: "effect list"
  pl_finish :: "finish option"

section \<open>The world\<close>

record session_facts =
  sf_alive :: bool
  sf_busy :: bool
  sf_settled_at :: "int option"

definition no_session :: session_facts where
  "no_session = \<lparr>sf_alive = False, sf_busy = False, sf_settled_at = None\<rparr>"

record pr_seen =
  pr_count :: nat
  pr_latest_url :: "string option"

record test_run =
  tr_status :: string
  tr_summary :: string

definition test_active :: "test_run \<Rightarrow> bool" where
  "test_active t \<longleftrightarrow> tr_status t = ''queued'' \<or> tr_status t = ''awaiting_approval'' \<or> tr_status t = ''running''"

record world =
  w_now :: int
  w_session :: "string \<Rightarrow> session_facts"
  w_var :: "string list \<Rightarrow> string option"
  w_origin :: "string option"
  w_pr_activity :: "pr_activity \<Rightarrow> pr_seen option"
  w_test_run :: "string \<Rightarrow> test_run option"

record json =
  js_print :: "step_outputs \<Rightarrow> string option"
  js_parse :: "string \<Rightarrow> step_outputs option"

definition to_json :: "json \<Rightarrow> step_outputs \<Rightarrow> string" where
  "to_json js m = (case js_print js m of Some s \<Rightarrow> s | None \<Rightarrow> ''{}'')"

definition parse_outputs :: "json \<Rightarrow> string \<Rightarrow> step_outputs" where
  "parse_outputs js s = (case js_parse js s of Some m \<Rightarrow> m | None \<Rightarrow> Map.empty)"

definition step_value :: "string list \<Rightarrow> inputs \<Rightarrow> (string \<rightharpoonup> step_outputs) \<Rightarrow> world \<Rightarrow> string option" where
  "step_value path ins outs w =
    (case path of
       [n, i] \<Rightarrow> if n = ''inputs'' then ins i else w_var w path
     | [n, i, field] \<Rightarrow>
         if n = ''steps'' then (case outs i of Some m \<Rightarrow> m field | None \<Rightarrow> None) else w_var w path
     | _ \<Rightarrow> w_var w path)"

section \<open>One step\<close>

definition move_to :: "string \<Rightarrow> step_status \<Rightarrow> step_status \<Rightarrow> move" where
  "move_to i s t = \<lparr>mv_step = i, mv_from = [s], mv_to = t, mv_outputs = None, mv_note = None\<rparr>"

definition fail_move :: "string \<Rightarrow> step_status \<Rightarrow> string \<Rightarrow> move" where
  "fail_move i s why = (move_to i s Failed)\<lparr>mv_note := Some why\<rparr>"

definition skip_move :: "string \<Rightarrow> step_status \<Rightarrow> string \<Rightarrow> move" where
  "skip_move i s why = (move_to i s Skipped)\<lparr>mv_note := Some (''Skipped: '' @ why @ ''.'')\<rparr>"

definition duration_text :: "nat \<Rightarrow> string" where
  "duration_text n =
    (if n mod 3600 = 0 then num (n div 3600) @ ''h''
     else if n mod 60 = 0 then num (n div 60) @ ''m''
     else num n @ ''s'')"

definition not_blank :: "string option \<Rightarrow> string option" where
  "not_blank s = (case s of Some t \<Rightarrow> if trim t = [] then None else Some t | None \<Rightarrow> None)"

text \<open>A pending step whose needs have all succeeded: its move, and the effect that goes with it.\<close>

definition begin_step :: "(string list \<Rightarrow> string option) \<Rightarrow> (session_ref \<Rightarrow> string option) \<Rightarrow>
    world \<Rightarrow> flow_step \<Rightarrow> move \<times> effect list" where
  "begin_step lookup session_of w s =
    (let i = st_id s; render = template_render lookup in
     case st_action s of
       StartSession harness prompt model effort skip_memory \<Rightarrow>
         (move_to i Pending Running,
          [Start i (render harness) (not_blank (map_option render prompt))
            (not_blank (map_option render model)) (not_blank (map_option render effort))
            (skip_memory \<or> (case prompt of None \<Rightarrow> False
              | Some txt \<Rightarrow> list_ex (\<lambda>v. ph_path v = [''memory'']) (placeholders txt)))])
     | Notify title body \<Rightarrow>
         (move_to i Pending Running, [NotifyEffect i (render title) (not_blank (map_option render body))])
     | WaitSession ref _ _ \<Rightarrow>
         (case session_of ref of
            Some _ \<Rightarrow> (move_to i Pending Waiting, [])
          | None \<Rightarrow> (fail_move i Pending ''There is no session to wait for.'', []))
     | SendToSession ref prompt _ \<Rightarrow>
         (case session_of ref of
            None \<Rightarrow>
              (skip_move i Pending
                (if ref = Origin then ''no agent was running in the workspace when the run started''
                 else ''there is no session to send to''), [])
          | Some pty \<Rightarrow>
              let facts = w_session w pty in
              if \<not> sf_alive facts then (skip_move i Pending ''the session had already ended'', [])
              else if sf_busy facts then (move_to i Pending Waiting, [])
              else (move_to i Pending Running, [Paste i pty (render prompt)]))
     | WaitPrActivity _ _ \<Rightarrow> (move_to i Pending Waiting, [])
     | RunTest test ins _ \<Rightarrow>
         (move_to i Pending Running, [RunTestEffect i (render test) (map (\<lambda>(n, v). (n, render v)) ins)]))"

definition pr_noun :: "pr_activity \<Rightarrow> string" where
  "pr_noun k = (case k of Review \<Rightarrow> ''review'' | Comment \<Rightarrow> ''comment'' | AnyActivity \<Rightarrow> ''review or comment'')"

definition timed_out :: "int \<Rightarrow> int \<Rightarrow> nat option \<Rightarrow> bool" where
  "timed_out now since limit = (case limit of Some n \<Rightarrow> int n * 1000 \<le> now - since | None \<Rightarrow> False)"

abbreviation limit_text :: "nat option \<Rightarrow> string" where
  "limit_text limit \<equiv> duration_text (case limit of Some n \<Rightarrow> n | None \<Rightarrow> 0)"

text \<open>A waiting step: what it waits for has happened, or it has waited too long.\<close>

definition wait_step :: "json \<Rightarrow> int \<Rightarrow> int \<Rightarrow> (string list \<Rightarrow> string option) \<Rightarrow>
    (session_ref \<Rightarrow> string option) \<Rightarrow> world \<Rightarrow> flow_step \<Rightarrow> (move \<times> effect list) option" where
  "wait_step js since now lookup session_of w s =
    (let i = st_id s in
     case st_action s of
       WaitSession ref unt limit \<Rightarrow>
         let facts = (case session_of ref of Some pty \<Rightarrow> w_session w pty | None \<Rightarrow> no_session);
             outcome =
               (if \<not> sf_alive facts then Some ''exited''
                else if unt = Settled \<and> (case sf_settled_at facts of Some at \<Rightarrow> since \<le> at | None \<Rightarrow> False)
                then Some ''settled'' else None)
         in (case outcome of
               Some out \<Rightarrow>
                 Some ((move_to i Waiting Succeeded)\<lparr>mv_outputs :=
                   Some (''{\"outcome\":\"'' @ out @ ''\"}'')\<rparr>, [])
             | None \<Rightarrow>
                 if timed_out now since limit
                 then Some (fail_move i Waiting (''Timed out after '' @ limit_text limit @ ''.''), [])
                 else None)
     | WaitPrActivity k limit \<Rightarrow>
         (case w_pr_activity w k of
            Some seen \<Rightarrow>
              if 0 < pr_count seen
              then
                let left = [''count'' \<mapsto> num (pr_count seen)];
                    left = (case pr_latest_url seen of Some url \<Rightarrow> left(''latest_url'' \<mapsto> url) | None \<Rightarrow> left)
                in Some ((move_to i Waiting Succeeded)\<lparr>mv_outputs := Some (to_json js left)\<rparr>, [])
              else if timed_out now since limit
              then Some (fail_move i Waiting (''No '' @ pr_noun k @ '' appeared on the pull request within ''
                @ limit_text limit @ ''.''), [])
              else None
          | None \<Rightarrow>
              if timed_out now since limit
              then Some (fail_move i Waiting (''No '' @ pr_noun k @ '' appeared on the pull request within ''
                @ limit_text limit @ ''.''), [])
              else None)
     | RunTest _ _ limit \<Rightarrow>
         (case lookup [''steps'', i, ''run''] of
            None \<Rightarrow> None
          | Some run_id \<Rightarrow>
              (case w_test_run w run_id of
                 None \<Rightarrow> Some (fail_move i Waiting ''The test run is gone.'', [])
               | Some test \<Rightarrow>
                   if test_active test
                   then if timed_out now since limit
                     then Some (fail_move i Waiting
                       (''The test run did not end within '' @ limit_text limit @ ''.''), [])
                     else None
                   else
                     let out = Some (to_json js [''run'' \<mapsto> run_id, ''verdict'' \<mapsto> tr_status test,
                           ''summary'' \<mapsto> tr_summary test])
                     in if tr_status test = ''passed'' \<or> tr_status test = ''failed''
                       then Some ((move_to i Waiting Succeeded)\<lparr>mv_outputs := out,
                         mv_note := Some (''The test '' @ tr_status test @ ''.'')\<rparr>, [])
                       else Some ((move_to i Waiting Failed)\<lparr>mv_outputs := out,
                         mv_note := Some (''The test run '' @ tr_status test @ ''.'')\<rparr>, [])))
     | SendToSession ref prompt limit \<Rightarrow>
         (case session_of ref of
            None \<Rightarrow> None
          | Some pty \<Rightarrow>
              let facts = w_session w pty in
              if \<not> sf_alive facts then Some (skip_move i Waiting ''the session ended before it was quiet'', [])
              else if \<not> sf_busy facts
              then Some (move_to i Waiting Running, [Paste i pty (template_render lookup prompt)])
              else if timed_out now since limit
              then Some (fail_move i Waiting
                (''The session was still busy after '' @ limit_text limit @ ''.''), [])
              else None)
     | _ \<Rightarrow> None)"

section \<open>A pass, and passes until nothing changes\<close>

text \<open>What \<open>advance\<close> has decided so far.\<close>

record progress =
  pg_moves :: "move list"
  pg_effects :: "effect list"
  pg_status :: "string \<rightharpoonup> step_status"
  pg_outputs :: "string \<rightharpoonup> step_outputs"

definition need_status :: "progress \<Rightarrow> string \<Rightarrow> step_status" where
  "need_status pg need = (case pg_status pg need of Some s \<Rightarrow> s | None \<Rightarrow> Failed)"

definition session_of_ref :: "progress \<Rightarrow> world \<Rightarrow> session_ref \<Rightarrow> string option" where
  "session_of_ref pg w ref =
    (case ref of
       FromStep from \<Rightarrow> (case pg_outputs pg from of Some m \<Rightarrow> m ''session'' | None \<Rightarrow> None)
     | Origin \<Rightarrow> w_origin w)"

definition blocked_need :: "progress \<Rightarrow> flow_step \<Rightarrow> string option" where
  "blocked_need pg s =
    find (\<lambda>need. is_final (need_status pg need) \<and> need_status pg need \<noteq> Succeeded) (st_needs s)"

definition consider_step :: "json \<Rightarrow> inputs \<Rightarrow> (string \<rightharpoonup> int) \<Rightarrow> world \<Rightarrow> progress \<Rightarrow> flow_step \<Rightarrow>
    (move \<times> effect list) option" where
  "consider_step js ins started w pg s =
    (let i = st_id s;
         lookup = (\<lambda>path. step_value path ins (pg_outputs pg) w);
         session_of = session_of_ref pg w
     in case pg_status pg i of
          Some Pending \<Rightarrow>
            (case blocked_need pg s of
               Some need \<Rightarrow> Some (skip_move i Pending (''`'' @ need @ ''` did not succeed''), [])
             | None \<Rightarrow>
                 if list_all (\<lambda>need. need_status pg need = Succeeded) (st_needs s)
                 then Some (begin_step lookup session_of w s) else None)
        | Some Waiting \<Rightarrow>
            wait_step js (case started i of Some at \<Rightarrow> at | None \<Rightarrow> w_now w) (w_now w) lookup session_of w s
        | _ \<Rightarrow> None)"

definition apply_change :: "json \<Rightarrow> move \<times> effect list \<Rightarrow> progress \<Rightarrow> progress" where
  "apply_change js change pg =
    (case change of (m, effects) \<Rightarrow>
      \<lparr>pg_moves = pg_moves pg @ [m], pg_effects = pg_effects pg @ effects,
        pg_status = (pg_status pg)(mv_step m \<mapsto> mv_to m),
        pg_outputs = (case mv_outputs m of
            Some left \<Rightarrow> (pg_outputs pg)(mv_step m \<mapsto> parse_outputs js left)
          | None \<Rightarrow> pg_outputs pg)\<rparr>)"

definition visit_step :: "json \<Rightarrow> inputs \<Rightarrow> (string \<rightharpoonup> int) \<Rightarrow> world \<Rightarrow> flow_step \<Rightarrow> progress \<Rightarrow> progress" where
  "visit_step js ins started w s pg =
    (case consider_step js ins started w pg s of
       Some change \<Rightarrow> apply_change js change pg | None \<Rightarrow> pg)"

definition one_pass :: "json \<Rightarrow> inputs \<Rightarrow> (string \<rightharpoonup> int) \<Rightarrow> world \<Rightarrow> flow_step list \<Rightarrow> progress \<Rightarrow> progress" where
  "one_pass js ins started w steps pg = fold (visit_step js ins started w) steps pg"

text \<open>How much is left to do with the steps: a step can only go from pending to waiting, and from
  either to a status that \<open>advance\<close> leaves alone.\<close>

fun weight :: "step_status option \<Rightarrow> nat" where
  "weight (Some Pending) = 2"
| "weight (Some Waiting) = 1"
| "weight _ = 0"

definition left_to_do :: "flow_step list \<Rightarrow> progress \<Rightarrow> nat" where
  "left_to_do steps pg = sum_list (map (\<lambda>s. weight (pg_status pg (st_id s))) steps)"

lemma begin_step_move:
  assumes "begin_step lookup session_of w s = (m, es)"
  shows "mv_step m = st_id s \<and> mv_from m = [Pending] \<and> mv_outputs m = None
    \<and> mv_to m \<in> {Running, Waiting, Failed, Skipped}
    \<and> map effect_step es = (if mv_to m = Running then [st_id s] else [])"
  using assms
  by (auto simp: begin_step_def Let_def move_to_def fail_move_def skip_move_def
      split: action.splits option.splits if_splits)

lemma wait_step_move:
  assumes "wait_step js since now lookup session_of w s = Some (m, es)"
  shows "mv_step m = st_id s \<and> mv_from m = [Waiting]
    \<and> mv_to m \<in> {Running, Succeeded, Failed, Skipped}
    \<and> map effect_step es = (if mv_to m = Running then [st_id s] else [])"
  using assms
  by (auto simp: wait_step_def Let_def move_to_def fail_move_def skip_move_def
      split: action.splits option.splits if_splits)

lemma consider_step_move:
  assumes "consider_step js ins started w pg s = Some (m, es)"
  shows "\<exists>now. pg_status pg (st_id s) = Some now \<and> mv_step m = st_id s \<and> mv_from m = [now]
    \<and> (now = Pending \<or> now = Waiting) \<and> weight (Some (mv_to m)) < weight (Some now)
    \<and> map effect_step es = (if mv_to m = Running then [st_id s] else [])"
proof -
  obtain now where now: "pg_status pg (st_id s) = Some now" "now = Pending \<or> now = Waiting"
    using assms by (auto simp: consider_step_def Let_def split: option.splits step_status.splits)
  show ?thesis
  proof (cases "now = Pending")
    case True
    then show ?thesis using now assms
      by (auto simp: consider_step_def Let_def skip_move_def move_to_def
          split: option.splits if_splits dest!: begin_step_move)
  next
    case False
    then show ?thesis using now assms
      by (auto simp: consider_step_def Let_def dest!: wait_step_move)
  qed
qed

text \<open>What was decided about a pending step: it is skipped, or all it needs has succeeded.\<close>

lemma consider_step_needs:
  assumes "consider_step js ins started w pg s = Some (m, es)" and "mv_from m = [Pending]"
    and "mv_to m \<noteq> Skipped"
  shows "list_all (\<lambda>need. pg_status pg need = Some Succeeded) (st_needs s)"
proof -
  have "pg_status pg (st_id s) = Some Pending"
    using consider_step_move [OF assms(1)] assms(2) by auto
  then have "list_all (\<lambda>need. need_status pg need = Succeeded) (st_needs s)"
    using assms by (auto simp: consider_step_def Let_def skip_move_def move_to_def
        split: option.splits if_splits)
  then show ?thesis by (auto simp: list_all_iff need_status_def split: option.splits)
qed

text \<open>A step that is left alone while it is pending has a need that has not ended.\<close>

lemma consider_step_left:
  assumes "consider_step js ins started w pg s = None" and "pg_status pg (st_id s) = Some Pending"
  shows "\<exists>need t. need \<in> set (st_needs s) \<and> pg_status pg need = Some t \<and> \<not> is_final t"
proof -
  have none: "blocked_need pg s = None"
    and "\<not> list_all (\<lambda>need. need_status pg need = Succeeded) (st_needs s)"
    using assms by (auto simp: consider_step_def Let_def split: option.splits if_splits)
  then obtain need where need: "need \<in> set (st_needs s)" "need_status pg need \<noteq> Succeeded"
    by (auto simp: list_all_iff)
  then have "\<not> is_final (need_status pg need)"
    using none by (auto simp: blocked_need_def find_None_iff)
  then show ?thesis using need(1)
    by (auto simp: need_status_def is_final_def split: option.splits)
qed

section \<open>Deciding as a step relation\<close>

text \<open>One decision of a pass; \<open>advance\<close> is a sequence of them.\<close>

inductive decides :: "json \<Rightarrow> inputs \<Rightarrow> (string \<rightharpoonup> int) \<Rightarrow> world \<Rightarrow> flow_step list \<Rightarrow> progress \<Rightarrow> progress \<Rightarrow> bool"
  for js ins started w steps where
  "s \<in> set steps \<Longrightarrow> consider_step js ins started w pg s = Some change \<Longrightarrow>
    decides js ins started w steps pg (apply_change js change pg)"

abbreviation decides_many :: "json \<Rightarrow> inputs \<Rightarrow> (string \<rightharpoonup> int) \<Rightarrow> world \<Rightarrow> flow_step list \<Rightarrow> progress \<Rightarrow> progress \<Rightarrow> bool"
  where "decides_many js ins started w steps \<equiv> (decides js ins started w steps)\<^sup>*\<^sup>*"

inductive_cases decidesE: "decides js ins started w steps pg pg'"

lemma decides_left:
  assumes "decides js ins started w steps pg pg'"
  shows "left_to_do steps pg' < left_to_do steps pg \<and> length (pg_moves pg') = Suc (length (pg_moves pg))"
  using assms
proof (rule decidesE)
  fix s change
  assume s: "s \<in> set steps" and here: "consider_step js ins started w pg s = Some change"
    and pg': "pg' = apply_change js change pg"
  obtain m es where change: "change = (m, es)" by fastforce
  obtain now where now: "pg_status pg (st_id s) = Some now" "mv_step m = st_id s"
    "weight (Some (mv_to m)) < weight (Some now)"
    using consider_step_move [OF here [unfolded change]] by blast
  let ?vn = "\<lambda>pg s. weight (pg_status pg (st_id s))"
  have less: "?vn pg' s < ?vn pg s" and le: "\<And>t. ?vn pg' t \<le> ?vn pg t"
    using now by (auto simp: pg' change apply_change_def)
  obtain xs ys where steps: "steps = xs @ s # ys" using s split_list by fastforce
  have "sum_list (map (?vn pg') zs) \<le> sum_list (map (?vn pg) zs)" for zs
    by (rule sum_list_mono) (rule le)
  from this [of xs] this [of ys] less show ?thesis
    by (simp add: left_to_do_def steps) (simp add: pg' change apply_change_def)
qed

lemma decides_many_moves:
  assumes "decides_many js ins started w steps pg pg'"
  shows "length (pg_moves pg) \<le> length (pg_moves pg')
    \<and> (length (pg_moves pg') = length (pg_moves pg) \<longrightarrow> pg' = pg)
    \<and> (length (pg_moves pg') \<noteq> length (pg_moves pg) \<longrightarrow> left_to_do steps pg' < left_to_do steps pg)"
  using assms
  by (induction rule: rtranclp_induct) (auto dest: decides_left less_trans)

lemma visit_step_decides:
  assumes "s \<in> set steps"
  shows "decides_many js ins started w steps pg (visit_step js ins started w s pg)"
  using assms by (auto simp: visit_step_def split: option.splits intro: decides.intros r_into_rtranclp)

lemma fold_visits_decide:
  assumes "set xs \<subseteq> set steps"
  shows "decides_many js ins started w steps pg (fold (visit_step js ins started w) xs pg)"
  using assms
  by (induction xs arbitrary: pg) (auto intro: rtranclp_trans [OF visit_step_decides])

lemma one_pass_decides: "decides_many js ins started w steps pg (one_pass js ins started w steps pg)"
  by (simp add: one_pass_def fold_visits_decide)

text \<open>A pass that decides nothing has looked at every step.\<close>

lemma quiet_visits:
  assumes "fold (visit_step js ins started w) xs pg = pg" and "s \<in> set xs"
  shows "consider_step js ins started w pg s = None"
  using assms
proof (induction xs)
  case (Cons x xs)
  have vx: "visit_step js ins started w x pg = pg"
  proof (rule ccontr)
    assume diff: "visit_step js ins started w x pg \<noteq> pg"
    have "decides_many js ins started w (x # xs) pg (visit_step js ins started w x pg)"
      by (rule visit_step_decides) simp
    moreover have "decides_many js ins started w (x # xs) (visit_step js ins started w x pg)
        (fold (visit_step js ins started w) xs (visit_step js ins started w x pg))"
      by (rule fold_visits_decide) auto
    ultimately show False
      using diff Cons.prems(1) decides_many_moves [of js ins started w "x # xs"]
      by (metis fold.simps(2) o_apply le_antisym)
  qed
  show ?case
  proof (cases "s = x")
    case True
    have "consider_step js ins started w pg x = None"
    proof (rule ccontr)
      assume "consider_step js ins started w pg x \<noteq> None"
      then obtain m es where "consider_step js ins started w pg x = Some (m, es)" by fastforce
      then have "length (pg_moves (visit_step js ins started w x pg)) = Suc (length (pg_moves pg))"
        by (simp add: visit_step_def apply_change_def)
      then show False using vx by simp
    qed
    then show ?thesis using True by simp
  next
    case False
    then show ?thesis using Cons vx by simp
  qed
qed simp

section \<open>Advance\<close>

function advance_loop :: "json \<Rightarrow> inputs \<Rightarrow> (string \<rightharpoonup> int) \<Rightarrow> world \<Rightarrow> flow_step list \<Rightarrow> progress \<Rightarrow> progress" where
  "advance_loop js ins started w steps pg =
    (if length (pg_moves (one_pass js ins started w steps pg)) = length (pg_moves pg)
     then one_pass js ins started w steps pg
     else advance_loop js ins started w steps (one_pass js ins started w steps pg))"
  by pat_completeness auto
termination
proof (relation "measure (\<lambda>(js, ins, started, w, steps, pg). left_to_do steps pg)", goal_cases)
  case (2 js ins started w steps pg)
  then show ?case using decides_many_moves [OF one_pass_decides] by simp
qed simp

declare advance_loop.simps [simp del]

lemma advance_loop_decides: "decides_many js ins started w steps pg (advance_loop js ins started w steps pg)"
proof (induction js ins started w steps pg rule: advance_loop.induct)
  case (1 js ins started w steps pg)
  then show ?case
    using one_pass_decides [of js ins started w steps pg]
    by (subst advance_loop.simps) (auto intro: rtranclp_trans)
qed

lemma advance_loop_is_done:
  "one_pass js ins started w steps (advance_loop js ins started w steps pg)
    = advance_loop js ins started w steps pg"
proof (induction js ins started w steps pg rule: advance_loop.induct)
  case (1 js ins started w steps pg)
  show ?case
  proof (cases "length (pg_moves (one_pass js ins started w steps pg)) = length (pg_moves pg)")
    case True
    then have "one_pass js ins started w steps pg = pg"
      using decides_many_moves [OF one_pass_decides] by blast
    then show ?thesis by (subst (1 2) advance_loop.simps) simp
  next
    case False
    then show ?thesis
      using "1.IH" by (subst (1 2) advance_loop.simps) simp
  qed
qed

lemma advance_loop_leaves:
  assumes "s \<in> set steps"
  shows "consider_step js ins started w (advance_loop js ins started w steps pg) s = None"
  by (rule quiet_visits [OF advance_loop_is_done [unfolded one_pass_def] assms])

definition row_status_of :: "step_row \<Rightarrow> step_status" where
  "row_status_of r = (case status_parse (row_status r) of Some s \<Rightarrow> s | None \<Rightarrow> Failed)"

text \<open>Later rows replace earlier ones of the same step, as inserting into a map does.\<close>

definition statuses :: "step_row list \<Rightarrow> string \<rightharpoonup> step_status" where
  "statuses rows = map_of (rev (map (\<lambda>r. (row_step r, row_status_of r)) rows))"

definition first_progress :: "json \<Rightarrow> step_row list \<Rightarrow> progress" where
  "first_progress js rows =
    \<lparr>pg_moves = [], pg_effects = [], pg_status = statuses rows,
      pg_outputs = map_of (rev (map (\<lambda>r. (row_step r, parse_outputs js (row_outputs r))) rows))\<rparr>"

definition started_times :: "step_row list \<Rightarrow> string \<rightharpoonup> int" where
  "started_times rows =
    map_of (rev (List.map_filter (\<lambda>r. map_option (Pair (row_step r)) (row_started r)) rows))"

definition failure_note :: "step_row list \<Rightarrow> move list \<Rightarrow> string \<Rightarrow> string option" where
  "failure_note rows moves i =
    (case (case find (\<lambda>m. mv_step m = i) (rev moves) of Some m \<Rightarrow> mv_note m | None \<Rightarrow> None) of
       Some note \<Rightarrow> Some note
     | None \<Rightarrow> (case find (\<lambda>r. row_step r = i) rows of Some r \<Rightarrow> row_note r | None \<Rightarrow> None))"

definition failure_text :: "string \<Rightarrow> string option \<Rightarrow> string" where
  "failure_text i note =
    (case note of Some txt \<Rightarrow> ''Step `'' @ i @ ''` failed: '' @ txt
     | None \<Rightarrow> ''Step `'' @ i @ ''` failed.'')"

definition finish_of :: "flow_step list \<Rightarrow> step_row list \<Rightarrow> progress \<Rightarrow> finish option" where
  "finish_of steps rows pg =
    (if list_all (\<lambda>r. case pg_status pg (row_step r) of Some s \<Rightarrow> is_final s | None \<Rightarrow> True) rows
     then Some
       (case find (\<lambda>s. pg_status pg (st_id s) = Some Failed) steps of
          None \<Rightarrow> RunSucceeded
        | Some s \<Rightarrow> RunFailed (failure_text (st_id s) (failure_note rows (pg_moves pg) (st_id s))))
     else None)"

definition advanced :: "json \<Rightarrow> workflow \<Rightarrow> inputs \<Rightarrow> step_row list \<Rightarrow> world \<Rightarrow> progress" where
  "advanced js flow ins rows w =
    advance_loop js ins (started_times rows) w (wf_steps flow) (first_progress js rows)"

definition advance :: "json \<Rightarrow> workflow \<Rightarrow> inputs \<Rightarrow> step_row list \<Rightarrow> world \<Rightarrow> plan" where
  "advance js flow ins rows w =
    (let pg = advanced js flow ins rows w
     in \<lparr>pl_moves = pg_moves pg, pl_effects = pg_effects pg, pl_finish = finish_of (wf_steps flow) rows pg\<rparr>)"

text \<open>What the driver reports of an effect, and what becomes of steps it was in the middle of.\<close>

definition recover :: "step_row list \<Rightarrow> move list" where
  "recover rows =
    map (\<lambda>r. \<lparr>mv_step = row_step r, mv_from = [Running], mv_to = Failed, mv_outputs = None,
        mv_note = Some ''Yardsort stopped while this step was running.''\<rparr>)
      (filter (\<lambda>r. row_status r = status_str Running) rows)"

definition done_move :: "json \<Rightarrow> string \<Rightarrow> step_outputs \<Rightarrow> move" where
  "done_move js i outs = (move_to i Running Succeeded)\<lparr>mv_outputs := Some (to_json js outs)\<rparr>"

definition queued_move :: "json \<Rightarrow> string \<Rightarrow> step_outputs \<Rightarrow> move" where
  "queued_move js i outs = (move_to i Running Waiting)\<lparr>mv_outputs := Some (to_json js outs)\<rparr>"

definition skipped_move :: "string \<Rightarrow> string \<Rightarrow> move" where
  "skipped_move i why = (move_to i Running Skipped)\<lparr>mv_note := Some (''Skipped: '' @ why @ ''.'')\<rparr>"

definition not_yet_move :: "string \<Rightarrow> move" where
  "not_yet_move i = move_to i Running Waiting"

definition failed_move :: "string \<Rightarrow> string \<Rightarrow> move" where
  "failed_move i why = (move_to i Running Failed)\<lparr>mv_note := Some why\<rparr>"

section \<open>What a plan means\<close>

text \<open>Moves carried out one after the other on what the steps' statuses are: one that does not
  start from where its step is, is refused.\<close>

fun carry_out_moves :: "move list \<Rightarrow> (string \<rightharpoonup> step_status) \<Rightarrow> (string \<rightharpoonup> step_status) option" where
  "carry_out_moves [] st = Some st"
| "carry_out_moves (m # ms) st =
    (case st (mv_step m) of
       Some now \<Rightarrow> if now \<in> set (mv_from m) then carry_out_moves ms (st(mv_step m \<mapsto> mv_to m)) else None
     | None \<Rightarrow> None)"

lemma carry_out_append:
  "carry_out_moves (xs @ ys) st =
    (case carry_out_moves xs st of Some mid \<Rightarrow> carry_out_moves ys mid | None \<Rightarrow> None)"
  by (induction xs arbitrary: st) (auto split: option.splits)

text \<open>What every decision keeps of the ones before it.\<close>

definition faithful :: "flow_step list \<Rightarrow> (string \<rightharpoonup> step_status) \<Rightarrow> progress \<Rightarrow> bool" where
  "faithful steps st pg \<longleftrightarrow>
    carry_out_moves (pg_moves pg) st = Some (pg_status pg)
    \<and> map effect_step (pg_effects pg) = map mv_step (filter (\<lambda>m. mv_to m = Running) (pg_moves pg))
    \<and> (\<forall>early m rest. pg_moves pg = early @ m # rest \<longrightarrow> mv_from m = [Pending] \<longrightarrow> mv_to m \<noteq> Skipped \<longrightarrow>
        (\<exists>mid s. carry_out_moves early st = Some mid \<and> s \<in> set steps \<and> st_id s = mv_step m
          \<and> list_all (\<lambda>need. mid need = Some Succeeded) (st_needs s)))
    \<and> (\<forall>i t. st i = Some t \<longrightarrow> t \<noteq> Pending \<longrightarrow> t \<noteq> Waiting \<longrightarrow> pg_status pg i = Some t)
    \<and> dom (pg_status pg) = dom st"

lemma decides_faithful:
  assumes "decides js ins started w steps pg pg'" and "faithful steps st pg"
  shows "faithful steps st pg'"
  using assms(1)
proof (rule decidesE)
  fix s change
  assume s: "s \<in> set steps" and here: "consider_step js ins started w pg s = Some change"
    and pg': "pg' = apply_change js change pg"
  obtain m es where change: "change = (m, es)" by fastforce
  note here = here [unfolded change]
  obtain now where now: "pg_status pg (st_id s) = Some now" "mv_step m = st_id s" "mv_from m = [now]"
    "now = Pending \<or> now = Waiting" "map effect_step es = (if mv_to m = Running then [st_id s] else [])"
    using consider_step_move [OF here] by blast
  have moves: "pg_moves pg' = pg_moves pg @ [m]" and st': "pg_status pg' = (pg_status pg)(st_id s \<mapsto> mv_to m)"
    and es': "pg_effects pg' = pg_effects pg @ es"
    using now by (simp_all add: pg' change apply_change_def)
  have carried: "carry_out_moves (pg_moves pg) st = Some (pg_status pg)"
    using assms(2) by (simp add: faithful_def)
  have "\<exists>mid s. carry_out_moves early st = Some mid \<and> s \<in> set steps \<and> st_id s = mv_step x
          \<and> list_all (\<lambda>need. mid need = Some Succeeded) (st_needs s)"
    if split: "pg_moves pg' = early @ x # rest" and x: "mv_from x = [Pending]" "mv_to x \<noteq> Skipped"
    for early x rest
  proof (cases rest rule: rev_cases)
    case Nil
    then have "early = pg_moves pg" "x = m" using split moves by auto
    then show ?thesis using carried s now(2) consider_step_needs [OF here] x by auto
  next
    case (snoc ys y)
    then have "pg_moves pg = early @ x # ys" using split moves by auto
    then show ?thesis using assms(2) x unfolding faithful_def by blast
  qed
  moreover have "pg_status pg' i = Some t" if "st i = Some t" "t \<noteq> Pending" "t \<noteq> Waiting" for i t
  proof -
    have "pg_status pg i = Some t" using assms(2) that by (auto simp: faithful_def)
    then show ?thesis using now that st' by auto
  qed
  moreover have "carry_out_moves (pg_moves pg') st = Some (pg_status pg')"
    using carried now by (simp add: moves carry_out_append st')
  moreover have "dom (pg_status pg') = dom st"
    using assms(2) now st' by (auto simp: faithful_def)
  moreover have "map effect_step (pg_effects pg')
      = map mv_step (filter (\<lambda>m. mv_to m = Running) (pg_moves pg'))"
    using assms(2) now by (simp add: faithful_def es' moves)
  ultimately show ?thesis unfolding faithful_def by blast
qed

lemma advanced_faithful: "faithful (wf_steps flow) (statuses rows) (advanced js flow ins rows w)"
proof -
  have "faithful (wf_steps flow) (statuses rows) pg"
    if "decides_many js ins started w (wf_steps flow) (first_progress js rows) pg" for pg started
    using that
    by (induction rule: rtranclp_induct)
      (simp add: faithful_def first_progress_def, rule decides_faithful)
  then show ?thesis unfolding advanced_def using advance_loop_decides by blast
qed

lemmas advance_fields = advance_def Let_def plan.simps

lemma advanced_statuses:
  "carry_out_moves (pl_moves (advance js flow ins rows w)) (statuses rows)
    = Some (pg_status (advanced js flow ins rows w))"
  using advanced_faithful by (simp add: advance_fields faithful_def)

lemma dom_statuses: "dom (statuses rows) = row_step ` set rows"
  by (force simp: statuses_def dom_map_of_conv_image_fst)

lemma advanced_dom: "dom (pg_status (advanced js flow ins rows w)) = row_step ` set rows"
  using advanced_faithful dom_statuses by (simp add: faithful_def)

lemma finish_of_none:
  assumes "dom (pg_status pg) = row_step ` set rows"
  shows "finish_of steps rows pg = None
    \<longleftrightarrow> (\<exists>i t. pg_status pg i = Some t \<and> \<not> is_final t)"
proof -
  have "finish_of steps rows pg = None
      \<longleftrightarrow> (\<exists>r \<in> set rows. \<exists>t. pg_status pg (row_step r) = Some t \<and> \<not> is_final t)"
    by (force simp: finish_of_def list_all_iff split: option.splits)
  then show ?thesis using assms by (auto simp: domI) (metis domI imageE)
qed

text \<open>Steps that depend on each other without a cycle: some function goes down along every need.\<close>

definition goes_down :: "(string \<Rightarrow> nat) \<Rightarrow> flow_step list \<Rightarrow> bool" where
  "goes_down rank steps = list_all (\<lambda>s. list_all (\<lambda>need. rank need < rank (st_id s)) (st_needs s)) steps"

lemma advanced_unfinished:
  assumes down: "goes_down rank (wf_steps flow)" and known: "row_step ` set rows \<subseteq> st_id ` set (wf_steps flow)"
    and here: "pg_status (advanced js flow ins rows w) i = Some t" "\<not> is_final t"
  shows "\<exists>j u. pg_status (advanced js flow ins rows w) j = Some u \<and> (u = Running \<or> u = Waiting)"
  using here
proof (induction "rank i" arbitrary: i t rule: less_induct)
  case less
  let ?pg = "advanced js flow ins rows w"
  show ?case
  proof (cases "t = Pending")
    case True
    have "i \<in> st_id ` set (wf_steps flow)"
      using less.prems(1) known advanced_dom [of js flow ins rows w] by blast
    then obtain s where s: "s \<in> set (wf_steps flow)" "st_id s = i" by blast
    have "consider_step js ins (started_times rows) w ?pg s = None"
      using s(1) by (simp add: advanced_def advance_loop_leaves)
    then obtain need u where need: "need \<in> set (st_needs s)" "pg_status ?pg need = Some u" "\<not> is_final u"
      using consider_step_left [of js ins "started_times rows" w ?pg s] less.prems(1) s(2) True by auto
    have "rank need < rank i" using down s need(1) by (auto simp: goes_down_def list_all_iff)
    then show ?thesis using less.hyps need by blast
  next
    case False
    then have "t = Running \<or> t = Waiting"
      using less.prems(2) by (cases t) (auto simp: is_final_def)
    then show ?thesis using less.prems(1) by blast
  qed
qed

text \<open>
  A run whose steps need each other without a cycle never gets stuck: when a plan does not finish it,
  the moves leave some step \<open>running\<close> or \<open>waiting\<close>, which the driver or the world will move on.
\<close>

lemma run_never_gets_stuck:
  assumes "goes_down rank (wf_steps flow)"
    and "list_all (\<lambda>r. row_step r \<in> st_id ` set (wf_steps flow)) rows"
    and "pl_finish (advance js flow ins rows w) = None"
  shows "\<exists>st i. carry_out_moves (pl_moves (advance js flow ins rows w)) (statuses rows) = Some st
    \<and> (st i = Some Running \<or> st i = Some Waiting)"
proof -
  have "\<exists>i t. pg_status (advanced js flow ins rows w) i = Some t \<and> \<not> is_final t"
    using assms(3) finish_of_none [OF advanced_dom [of js flow ins rows w], of "wf_steps flow"]
    by (simp add: advance_fields)
  moreover have "row_step ` set rows \<subseteq> st_id ` set (wf_steps flow)"
    using assms(2) by (auto simp: list_all_iff)
  ultimately show ?thesis
    using advanced_unfinished [OF assms(1)] advanced_statuses by metis
qed

section \<open>Properties\<close>

text \<open>
   Whatever the workflow, the rows and the world: carried out in order on the statuses the rows
  have, every move of a plan finds its step where it says the step is, so none is refused; and
  the effects are those of the steps the plan moves to \<open>running\<close>, one each, in the order of the
  moves.
\<close>

theorem plans_can_be_carried_out:
  "carry_out_moves (pl_moves (advance js flow ins rows w)) (statuses rows) \<noteq> None
    \<and> map effect_step (pl_effects (advance js flow ins rows w))
      = map mv_step (filter (\<lambda>m. mv_to m = Running) (pl_moves (advance js flow ins rows w)))"
  using advanced_statuses [of js flow ins rows w] advanced_faithful [of flow rows js ins w]
  by (simp add: advance_fields faithful_def)

text \<open>
  C20. A plan starts no step early: when a move takes a pending step anywhere but to \<open>skipped\<close>, the moves
  before it, carried out, have left every step it needs \<open>succeeded\<close>.
\<close>

theorem needs_come_first:
  assumes "pl_moves (advance js flow ins rows w) = early @ m # rest"
    and "mv_from m = [Pending]" and "mv_to m \<noteq> Skipped"
  shows "\<exists>mid s. carry_out_moves early (statuses rows) = Some mid \<and> s \<in> set (wf_steps flow)
    \<and> st_id s = mv_step m \<and> list_all (\<lambda>need. mid need = Some Succeeded) (st_needs s)"
  using assms advanced_faithful [of flow rows js ins w]
  unfolding faithful_def advance_fields by blast

text \<open>
   When every row belongs to a step of the workflow: the plan finishes the run exactly when its moves
  leave every step ended, it finishes it as succeeded exactly when none of them is left \<open>failed\<close>, and
  a step that had ended before keeps the status it ended with.
\<close>

theorem finish_tells_how_the_run_ended:
  assumes "list_all (\<lambda>r. row_step r \<in> st_id ` set (wf_steps flow)) rows"
    and "carry_out_moves (pl_moves (advance js flow ins rows w)) (statuses rows) = Some st"
  shows "(pl_finish (advance js flow ins rows w) = None
      \<longleftrightarrow> list_ex (\<lambda>r. \<not> is_final (the (st (row_step r)))) rows)
    \<and> (pl_finish (advance js flow ins rows w) = Some RunSucceeded
      \<longleftrightarrow> list_all (\<lambda>r. st (row_step r) = Some Succeeded \<or> st (row_step r) = Some Skipped
            \<or> st (row_step r) = Some Cancelled) rows)
    \<and> list_all (\<lambda>r. (statuses rows)(row_step r) = st (row_step r)
        \<or> \<not> is_final (the (statuses rows (row_step r)))) rows"
proof -
  let ?pg = "advanced js flow ins rows w"
  have st: "st = pg_status ?pg" using assms(2) advanced_statuses by (metis option.inject)
  have dom_st: "dom st = row_step ` set rows" by (simp add: st advanced_dom)
  have none: "pl_finish (advance js flow ins rows w) = None
      \<longleftrightarrow> list_ex (\<lambda>r. \<not> is_final (the (st (row_step r)))) rows"
  proof -
    have "pl_finish (advance js flow ins rows w) = None \<longleftrightarrow> (\<exists>i t. st i = Some t \<and> \<not> is_final t)"
      using finish_of_none [OF advanced_dom, of "wf_steps flow"] by (simp add: advance_fields st)
    also have "\<dots> \<longleftrightarrow> (\<exists>r\<in>set rows. \<not> is_final (the (st (row_step r))))"
      using dom_st by (metis domD domI image_eqI imageE option.sel)
    finally show ?thesis by (simp add: list_ex_iff)
  qed
  have known: "\<exists>r\<in>set rows. row_step r = i" if "st i = Some t" for i t
    using that dom_st domI [of st i t] by auto
  have "pl_finish (advance js flow ins rows w) = Some RunSucceeded
      \<longleftrightarrow> pl_finish (advance js flow ins rows w) \<noteq> None
        \<and> find (\<lambda>s. st (st_id s) = Some Failed) (wf_steps flow) = None"
    by (simp add: advance_fields finish_of_def st split: option.splits)
  also have "\<dots> \<longleftrightarrow> (\<forall>r\<in>set rows. is_final (the (st (row_step r))) \<and> st (row_step r) \<noteq> Some Failed)"
    using known assms(1) unfolding none by (fastforce simp: list_ex_iff list_all_iff find_None_iff)
  also have "\<dots> \<longleftrightarrow> (\<forall>r\<in>set rows. st (row_step r) = Some Succeeded \<or> st (row_step r) = Some Skipped
            \<or> st (row_step r) = Some Cancelled)"
  proof (rule ball_cong [OF refl])
    fix r assume "r \<in> set rows"
    then obtain t where "st (row_step r) = Some t" using dom_st by blast
    then show "is_final (the (st (row_step r))) \<and> st (row_step r) \<noteq> Some Failed
        \<longleftrightarrow> st (row_step r) = Some Succeeded \<or> st (row_step r) = Some Skipped
            \<or> st (row_step r) = Some Cancelled"
      by (cases t) (auto simp: is_final_def)
  qed
  finally have succeeded: "pl_finish (advance js flow ins rows w) = Some RunSucceeded
      \<longleftrightarrow> list_all (\<lambda>r. st (row_step r) = Some Succeeded \<or> st (row_step r) = Some Skipped
            \<or> st (row_step r) = Some Cancelled) rows"
    by (simp add: list_all_iff)
  have "statuses rows (row_step r) = st (row_step r) \<or> \<not> is_final (the (statuses rows (row_step r)))"
    if r: "r \<in> set rows" for r
  proof -
    obtain t where t: "statuses rows (row_step r) = Some t" using dom_statuses r by blast
    show ?thesis
    proof (cases "is_final t")
      case True
      then have "t \<noteq> Pending \<and> t \<noteq> Waiting" by (auto simp: is_final_def)
      then have "st (row_step r) = Some t"
        using advanced_faithful [of flow rows js ins w] t unfolding faithful_def st by blast
      then show ?thesis using t by simp
    qed (simp add: t)
  qed
  then show ?thesis using none succeeded by (simp add: list_all_iff)
qed

section \<open>Witnesses\<close>

definition quiet_world :: world where
  "quiet_world = \<lparr>w_now = 9000, w_session = (\<lambda>_. no_session), w_var = (\<lambda>_. None), w_origin = None,
    w_pr_activity = (\<lambda>_. None), w_test_run = (\<lambda>_. None)\<rparr>"

definition plain_json :: json where
  "plain_json = \<lparr>js_print = (\<lambda>_. None), js_parse = (\<lambda>_. None)\<rparr>"

definition two_steps :: workflow where
  "two_steps = \<lparr>wf_id = ''tell'', wf_name = ''Tell'', wf_description = None, wf_version = 1,
    wf_trigger = \<lparr>trg_kind = Manual, trg_context = WorkspaceRun\<rparr>, wf_inputs = [],
    wf_steps = [\<lparr>st_id = ''a'', st_needs = [], st_action = WaitPrActivity Review None\<rparr>,
      \<lparr>st_id = ''b'', st_needs = [''a''], st_action = Notify ''hi'' None\<rparr>]\<rparr>"

definition example_row :: "string \<Rightarrow> string \<Rightarrow> step_row" where
  "example_row i status = \<lparr>row_run = ''r'', row_step = i, row_position = 0, row_action = ''notify'',
    row_status = status, row_started = None, row_ended = None, row_outputs = ''{}'', row_note = None\<rparr>"

definition example_plan :: "string \<Rightarrow> string \<Rightarrow> plan" where
  "example_plan s t = advance plain_json two_steps Map.empty [example_row ''a'' s, example_row ''b'' t] quiet_world"

lemma example_plans:
  "pl_moves (example_plan ''succeeded'' ''pending'') = [] @ move_to ''b'' Pending Running # []"
  "pl_finish (example_plan ''pending'' ''pending'') = None"
  by code_simp+

lemma example_steps:
  "list_all (\<lambda>r. row_step r \<in> st_id ` set (wf_steps two_steps)) [example_row ''a'' s, example_row ''b'' t]"
  by (simp add: two_steps_def example_row_def)

theorem needs_come_first_witness:
  "\<exists>mid s. carry_out_moves [] (statuses [example_row ''a'' ''succeeded'', example_row ''b'' ''pending'']) = Some mid
    \<and> s \<in> set (wf_steps two_steps) \<and> st_id s = ''b''
    \<and> list_all (\<lambda>need. mid need = Some Succeeded) (st_needs s)"
  using needs_come_first [OF example_plans(1) [unfolded example_plan_def]] by (simp add: move_to_def)

theorem finish_tells_how_the_run_ended_witness:
  "\<exists>st. carry_out_moves (pl_moves (example_plan ''failed'' ''pending''))
      (statuses [example_row ''a'' ''failed'', example_row ''b'' ''pending'']) = Some st
    \<and> list_all (\<lambda>r. statuses [example_row ''a'' ''failed'', example_row ''b'' ''pending''] (row_step r) = st (row_step r)
        \<or> \<not> is_final (the (statuses [example_row ''a'' ''failed'', example_row ''b'' ''pending''] (row_step r))))
      [example_row ''a'' ''failed'', example_row ''b'' ''pending'']"
  using finish_tells_how_the_run_ended [OF example_steps advanced_statuses] advanced_statuses
  unfolding example_plan_def by blast

end
