(* ===== verification/Runs_Store.thy ===== *)
theory Runs_Store
  imports Engine
begin

text \<open>
  The tables of workflow runs in \<open>crates/core/src/store.rs\<close>, as its SQL statements change them: a
  table is the list of its rows in the order they were inserted, a statement that a constraint
  of \<open>migrations/0012_workflow_runs.sql\<close> refuses is an \<open>Inl\<close>, and a transaction that fails leaves
  the tables as they were.  The locale \<open>step_table\<close> is what the driver relies on when it applies a
  plan; the tables of a running run give it.  The lemmas show that a workflow runs at most once
  at a time in a workspace, and that what has ended never changes again.
\<close>

section \<open>Rows\<close>

datatype store_error = Sqlite string | StoreIo string | TooNew nat nat

record run_row =
  rn_id :: string
  rn_workflow :: string
  rn_workflow_name :: string
  rn_definition :: string
  rn_project :: "string option"
  rn_workspace :: "string option"
  rn_workspace_name :: string
  rn_inputs :: string
  rn_status :: string
  rn_requested_by :: string
  rn_error :: "string option"
  rn_created :: int
  rn_started :: "int option"
  rn_ended :: "int option"
  rn_context :: string

definition active_status :: "string \<Rightarrow> bool" where
  "active_status s \<longleftrightarrow> s = ''queued'' \<or> s = ''running''"

definition run_active :: "run_row \<Rightarrow> bool" where
  "run_active r = active_status (rn_status r)"

record new_run =
  nr_id :: string
  nr_workflow :: string
  nr_workflow_name :: string
  nr_definition :: string
  nr_project :: string
  nr_workspace :: string
  nr_workspace_name :: string
  nr_inputs :: string
  nr_context :: string
  nr_requested_by :: string
  nr_steps :: "(string \<times> string) list"

datatype queued = Queued | AlreadyRunning string

record tables =
  tb_projects :: "string list"
  tb_workspaces :: "string list"
  tb_runs :: "run_row list"
  tb_steps :: "step_row list"

definition constraint_failed :: store_error where
  "constraint_failed = Sqlite ''constraint failed''"

section \<open>Operations\<close>

definition pending_row :: "string \<Rightarrow> nat \<Rightarrow> string \<times> string \<Rightarrow> step_row" where
  "pending_row run position s =
    \<lparr>row_run = run, row_step = fst s, row_position = int position, row_action = snd s,
      row_status = status_str Pending, row_started = None, row_ended = None, row_outputs = ''{}'',
      row_note = None\<rparr>"

definition pending_rows :: "string \<Rightarrow> (string \<times> string) list \<Rightarrow> step_row list" where
  "pending_rows run steps = map (\<lambda>(p, s). pending_row run p s) (enumerate 0 steps)"

definition queued_row :: "new_run \<Rightarrow> int \<Rightarrow> run_row" where
  "queued_row n now =
    \<lparr>rn_id = nr_id n, rn_workflow = nr_workflow n, rn_workflow_name = nr_workflow_name n,
      rn_definition = nr_definition n, rn_project = Some (nr_project n),
      rn_workspace = Some (nr_workspace n), rn_workspace_name = nr_workspace_name n,
      rn_inputs = nr_inputs n, rn_status = ''queued'', rn_requested_by = nr_requested_by n,
      rn_error = None, rn_created = now, rn_started = None, rn_ended = None, rn_context = nr_context n\<rparr>"

text \<open>What the tables ask of a row about to be inserted.\<close>

definition run_accepted :: "new_run \<Rightarrow> tables \<Rightarrow> bool" where
  "run_accepted n t \<longleftrightarrow>
    list_all (\<lambda>r. rn_id r \<noteq> nr_id n) (tb_runs t)
    \<and> (nr_requested_by n = ''app'' \<or> nr_requested_by n = ''cli'')
    \<and> nr_project n \<in> set (tb_projects t) \<and> nr_workspace n \<in> set (tb_workspaces t)
    \<and> list_all (\<lambda>r. row_run r \<noteq> nr_id n) (tb_steps t) \<and> distinct (map fst (nr_steps n))"

definition queue_workflow_run :: "new_run \<Rightarrow> int \<Rightarrow> tables \<Rightarrow> (store_error + queued) \<times> tables" where
  "queue_workflow_run n now t =
    (case find (\<lambda>r. rn_workflow r = nr_workflow n \<and> rn_workspace r = Some (nr_workspace n) \<and> run_active r)
        (tb_runs t) of
       Some r \<Rightarrow> (Inr (AlreadyRunning (rn_id r)), t)
     | None \<Rightarrow>
         if run_accepted n t
         then (Inr Queued, t\<lparr>tb_runs := tb_runs t @ [queued_row n now],
           tb_steps := tb_steps t @ pending_rows (nr_id n) (nr_steps n)\<rparr>)
         else (Inl constraint_failed, t))"

definition workflow_run :: "string \<Rightarrow> tables \<Rightarrow> run_row option" where
  "workflow_run i t = find (\<lambda>r. rn_id r = i) (tb_runs t)"

definition workflow_runs :: "string option \<Rightarrow> nat \<Rightarrow> tables \<Rightarrow> run_row list" where
  "workflow_runs ws limit t =
    take limit (rev (sort_key rn_created
      (filter (\<lambda>r. ws = None \<or> rn_workspace r = ws) (tb_runs t))))"

definition workflow_runs_of :: "string \<Rightarrow> nat \<Rightarrow> tables \<Rightarrow> run_row list" where
  "workflow_runs_of i limit t =
    take limit (rev (sort_key rn_created (filter (\<lambda>r. rn_workflow r = i) (tb_runs t))))"

definition active_workflow_runs :: "tables \<Rightarrow> run_row list" where
  "active_workflow_runs t = sort_key rn_created (filter run_active (tb_runs t))"

definition workflow_steps :: "string \<Rightarrow> tables \<Rightarrow> step_row list" where
  "workflow_steps i t = sort_key row_position (filter (\<lambda>r. row_run r = i) (tb_steps t))"

text \<open>An \<open>UPDATE\<close> of the run with this id, where its status allows it: whether a row changed.\<close>

definition update_run :: "string \<Rightarrow> (string \<Rightarrow> bool) \<Rightarrow> (run_row \<Rightarrow> run_row) \<Rightarrow> tables \<Rightarrow> bool \<times> tables" where
  "update_run i allowed f t =
    (list_ex (\<lambda>r. rn_id r = i \<and> allowed (rn_status r)) (tb_runs t),
     t\<lparr>tb_runs := map (\<lambda>r. if rn_id r = i \<and> allowed (rn_status r) then f r else r) (tb_runs t)\<rparr>)"

definition start_workflow_run :: "string \<Rightarrow> string option \<Rightarrow> int \<Rightarrow> tables \<Rightarrow> bool \<times> tables" where
  "start_workflow_run i ctx now t =
    update_run i (\<lambda>s. s = ''queued'')
      (\<lambda>r. r\<lparr>rn_status := ''running'', rn_started := Some now,
        rn_context := (case ctx of Some c \<Rightarrow> c | None \<Rightarrow> rn_context r)\<rparr>) t"

definition or_else :: "'a option \<Rightarrow> 'a option \<Rightarrow> 'a option" where
  "or_else x y = (case x of Some a \<Rightarrow> Some a | None \<Rightarrow> y)"

definition moved_row :: "move \<Rightarrow> int \<Rightarrow> step_row \<Rightarrow> step_row" where
  "moved_row m now r =
    r\<lparr>row_status := status_str (mv_to m),
      row_started := (if is_final (mv_to m) then row_started r else or_else (row_started r) (Some now)),
      row_ended := (if is_final (mv_to m) then Some now else row_ended r),
      row_outputs := (case mv_outputs m of Some left \<Rightarrow> left | None \<Rightarrow> row_outputs r),
      row_note := or_else (mv_note m) (row_note r)\<rparr>"

definition run_is :: "string \<Rightarrow> string \<Rightarrow> tables \<Rightarrow> bool" where
  "run_is s i t = list_ex (\<lambda>r. rn_id r = i \<and> rn_status r = s) (tb_runs t)"

definition takes_move :: "string \<Rightarrow> move \<Rightarrow> step_row \<Rightarrow> bool" where
  "takes_move i m r \<longleftrightarrow> row_run r = i \<and> row_step r = mv_step m \<and> row_status r \<in> set (map status_str (mv_from m))"

definition move_workflow_step :: "string \<Rightarrow> move \<Rightarrow> int \<Rightarrow> tables \<Rightarrow> bool \<times> tables" where
  "move_workflow_step i m now t =
    (if run_is ''running'' i t
     then (list_ex (takes_move i m) (tb_steps t),
       t\<lparr>tb_steps := map (\<lambda>r. if takes_move i m r then moved_row m now r else r) (tb_steps t)\<rparr>)
     else (False, t))"

definition run_status_known :: "string \<Rightarrow> bool" where
  "run_status_known s \<longleftrightarrow>
    active_status s \<or> s = ''succeeded'' \<or> s = ''failed'' \<or> s = ''cancelled''"

definition finish_workflow_run :: "string \<Rightarrow> string \<Rightarrow> string option \<Rightarrow> int \<Rightarrow> tables \<Rightarrow>
    (store_error + bool) \<times> tables" where
  "finish_workflow_run i status why now t =
    (case update_run i active_status
        (\<lambda>r. r\<lparr>rn_status := status, rn_error := why, rn_ended := Some now\<rparr>) t of
       (changed, t') \<Rightarrow>
         if changed \<and> \<not> run_status_known status then (Inl constraint_failed, t) else (Inr changed, t'))"

definition open_status :: "string \<Rightarrow> bool" where
  "open_status s \<longleftrightarrow> s = ''pending'' \<or> s = ''running'' \<or> s = ''waiting''"

definition cancel_workflow_run :: "string \<Rightarrow> string \<Rightarrow> int \<Rightarrow> tables \<Rightarrow> bool \<times> tables" where
  "cancel_workflow_run i reason now t =
    (case update_run i active_status
        (\<lambda>r. r\<lparr>rn_status := ''cancelled'', rn_error := Some reason, rn_ended := Some now\<rparr>) t of
       (changed, t') \<Rightarrow>
         (changed,
          if changed
          then t'\<lparr>tb_steps := map (\<lambda>r. if row_run r = i \<and> open_status (row_status r)
              then r\<lparr>row_status := ''cancelled'', row_ended := Some now\<rparr> else r) (tb_steps t')\<rparr>
          else t'))"

section \<open>Invariant\<close>

definition run_place :: "run_row \<Rightarrow> string \<times> string option" where
  "run_place r = (rn_workflow r, rn_workspace r)"

definition holds_place :: "run_row \<Rightarrow> bool" where
  "holds_place r \<longleftrightarrow> run_active r \<and> rn_workspace r \<noteq> None"

definition places_ok :: "run_row list \<Rightarrow> bool" where
  "places_ok rs \<longleftrightarrow> distinct (map rn_id rs) \<and> distinct (map run_place (filter holds_place rs))"

definition steps_ok :: "step_row list \<Rightarrow> bool" where
  "steps_ok ss \<longleftrightarrow> distinct (map (\<lambda>s. (row_run s, row_step s)) ss)
    \<and> list_all (\<lambda>s. status_parse (row_status s) \<noteq> None) ss"

definition cancelled_ok :: "tables \<Rightarrow> bool" where
  "cancelled_ok t \<longleftrightarrow>
    list_all (\<lambda>r. rn_status r = ''cancelled'' \<longrightarrow>
      list_all (\<lambda>s. row_run s = rn_id r \<longrightarrow> \<not> open_status (row_status s)) (tb_steps t)) (tb_runs t)"

definition tables_ok :: "tables \<Rightarrow> bool" where
  "tables_ok t \<longleftrightarrow> places_ok (tb_runs t) \<and> steps_ok (tb_steps t) \<and> cancelled_ok t"

text \<open>Everything that changes the tables; a workspace may also be deleted under its runs, which then
  forget where they ran (\<open>ON DELETE SET NULL\<close>).  The driver finishes a run as succeeded, or as
  failed with a reason.\<close>

datatype store_op =
    QueueRun new_run int
  | StartRun string "string option" int
  | MoveStep string move int
  | FinishRun string "string option" int
  | CancelRun string string int
  | WorkspaceGone string

definition finish_status :: "string option \<Rightarrow> string" where
  "finish_status why = (case why of None \<Rightarrow> ''succeeded'' | Some _ \<Rightarrow> ''failed'')"

fun store_step :: "store_op \<Rightarrow> tables \<Rightarrow> tables" where
  "store_step (QueueRun n now) t = snd (queue_workflow_run n now t)"
| "store_step (StartRun i ctx now) t = snd (start_workflow_run i ctx now t)"
| "store_step (MoveStep i m now) t = snd (move_workflow_step i m now t)"
| "store_step (FinishRun i why now) t = snd (finish_workflow_run i (finish_status why) why now t)"
| "store_step (CancelRun i reason now) t = snd (cancel_workflow_run i reason now t)"
| "store_step (WorkspaceGone ws) t =
    t\<lparr>tb_workspaces := filter (\<lambda>x. x \<noteq> ws) (tb_workspaces t),
      tb_runs := map (\<lambda>r. if rn_workspace r = Some ws then r\<lparr>rn_workspace := None\<rparr> else r) (tb_runs t)\<rparr>"

definition no_runs :: "string list \<Rightarrow> string list \<Rightarrow> tables" where
  "no_runs ps ws = \<lparr>tb_projects = ps, tb_workspaces = ws, tb_runs = [], tb_steps = []\<rparr>"

lemma status_parse_str [simp]: "status_parse (status_str s) = Some s"
  by (cases s) (simp_all add: status_parse_def)

lemma status_str_inj [simp]: "status_str s = status_str u \<longleftrightarrow> s = u"
  by (metis status_parse_str option.inject)

lemma parse_pending: "status_parse ''pending'' = Some Pending"
  by (simp add: status_parse_def)

lemma parse_cancelled: "status_parse ''cancelled'' = Some Cancelled"
  by (simp add: status_parse_def)

lemma status_parse_Some: "status_parse x = Some s \<longleftrightarrow> x = status_str s"
proof
  assume "status_parse x = Some s"
  then show "x = status_str s"
    unfolding status_parse_def by (simp only: status_str.simps option.inject option.distinct split: if_split_asm)
qed simp

lemma distinct_map_filter_map:
  assumes "distinct (map g (filter P xs))" and "\<And>x. P (f x) \<Longrightarrow> P x \<and> g (f x) = g x"
  shows "distinct (map g (filter P (map f xs)))"
  using assms(1)
proof (induction xs)
  case (Cons x xs)
  have sub: "g ` set (filter P (map f xs)) \<subseteq> g ` set (filter P xs)"
  proof
    fix y assume "y \<in> g ` set (filter P (map f xs))"
    then obtain z where z: "z \<in> set xs" "P (f z)" "y = g (f z)" by auto
    then have "P z" "y = g z" using assms(2) by auto
    then show "y \<in> g ` set (filter P xs)" using z(1) by auto
  qed
  have rest: "distinct (map g (filter P (map f xs)))"
    using Cons by (cases "P x") auto
  show ?case
  proof (cases "P (f x)")
    case True
    then have "P x" "g (f x) = g x" using assms(2) by auto
    then have "g (f x) \<notin> g ` set (filter P xs)" using Cons.prems by simp
    then have "g (f x) \<notin> g ` set (filter P (map f xs))" using sub by blast
    then show ?thesis using rest True by simp
  next
    case False
    then show ?thesis using rest by simp
  qed
qed simp

lemma places_ok_map:
  assumes "places_ok rs" and "\<And>r. rn_id (f r) = rn_id r"
    and "\<And>r. holds_place (f r) \<Longrightarrow> holds_place r \<and> run_place (f r) = run_place r"
  shows "places_ok (map f rs)"
proof -
  have ids: "map rn_id (map f rs) = map rn_id rs" using assms(2) by simp
  have "distinct (map run_place (filter holds_place (map f rs)))"
    using assms(1) by (intro distinct_map_filter_map assms(3)) (simp add: places_ok_def)
  then show ?thesis using assms(1) unfolding places_ok_def ids by blast
qed

lemma steps_ok_map:
  assumes "steps_ok ss" and "\<And>s. row_run (f s) = row_run s \<and> row_step (f s) = row_step s"
    and "\<And>s. status_parse (row_status s) \<noteq> None \<Longrightarrow> status_parse (row_status (f s)) \<noteq> None"
  shows "steps_ok (map f ss)"
proof -
  have keys: "(\<lambda>s. (row_run s, row_step s)) \<circ> f = (\<lambda>s. (row_run s, row_step s))"
    using assms(2) by (simp add: comp_def)
  show ?thesis using assms(1,3) by (auto simp: steps_ok_def list_all_iff keys)
qed

lemmas run_update_simps = update_run_def run_active_def holds_place_def run_place_def active_status_def

text \<open>A pending step of a run that was not there before.\<close>

lemma set_pending_rows:
  "x \<in> set (pending_rows i steps) \<Longrightarrow> row_run x = i \<and> row_status x = ''pending'' \<and> row_step x \<in> fst ` set steps"
  by (force simp: pending_rows_def pending_row_def in_set_enumerate_eq image_iff dest: nth_mem)

lemma distinct_pending_rows:
  "distinct (map fst steps) \<Longrightarrow> distinct (map (\<lambda>s. (row_run s, row_step s)) (pending_rows i steps))"
proof -
  have "map (\<lambda>s. (row_run s, row_step s)) (pending_rows i steps) = map (Pair i) (map fst steps)"
    unfolding pending_rows_def
    by (rule nth_equalityI) (auto simp: pending_row_def nth_enumerate_eq split: prod.splits)
  then show "distinct (map fst steps) \<Longrightarrow> ?thesis" by (simp add: distinct_map inj_on_def)
qed

lemma queue_ok:
  assumes ok: "tables_ok t"
  shows "tables_ok (snd (queue_workflow_run n now t))"
proof (cases "find (\<lambda>r. rn_workflow r = nr_workflow n \<and> rn_workspace r = Some (nr_workspace n) \<and> run_active r)
    (tb_runs t) = None \<and> run_accepted n t")
  case True
  then have none: "\<And>r. r \<in> set (tb_runs t) \<Longrightarrow>
      \<not> (rn_workflow r = nr_workflow n \<and> rn_workspace r = Some (nr_workspace n) \<and> run_active r)"
    and acc: "run_accepted n t" by (auto simp: find_None_iff)
  have ids: "\<And>r. r \<in> set (tb_runs t) \<Longrightarrow> rn_id r \<noteq> nr_id n"
    and runs: "\<And>x. x \<in> set (tb_steps t) \<Longrightarrow> row_run x \<noteq> nr_id n"
    and dist: "distinct (map fst (nr_steps n))"
    using acc by (auto simp: run_accepted_def list_all_iff)
  have row: "rn_id (queued_row n now) = nr_id n" "rn_status (queued_row n now) = ''queued''"
    "run_place (queued_row n now) = (nr_workflow n, Some (nr_workspace n))"
    by (simp_all add: queued_row_def run_place_def)
  have "run_place r \<noteq> run_place (queued_row n now)" if "r \<in> set (tb_runs t)" "holds_place r" for r
    using none [OF that(1)] that(2) unfolding row by (auto simp: run_place_def holds_place_def)
  then have "places_ok (tb_runs t @ [queued_row n now])"
    using ok ids row(1) by (fastforce simp: tables_ok_def places_ok_def)
  moreover have "steps_ok (tb_steps t @ pending_rows (nr_id n) (nr_steps n))"
  proof -
    have "distinct (map (\<lambda>s. (row_run s, row_step s)) (pending_rows (nr_id n) (nr_steps n)))"
      by (rule distinct_pending_rows [OF dist])
    moreover have "(\<lambda>s. (row_run s, row_step s)) ` set (tb_steps t)
        \<inter> (\<lambda>s. (row_run s, row_step s)) ` set (pending_rows (nr_id n) (nr_steps n)) = {}"
      using runs by (auto dest!: set_pending_rows)
    moreover have "list_all (\<lambda>s. status_parse (row_status s) \<noteq> None) (pending_rows (nr_id n) (nr_steps n))"
      using set_pending_rows parse_pending by (simp add: list_all_iff)
    ultimately show ?thesis using ok by (simp add: tables_ok_def steps_ok_def)
  qed
  moreover have "cancelled_ok (t\<lparr>tb_runs := tb_runs t @ [queued_row n now],
      tb_steps := tb_steps t @ pending_rows (nr_id n) (nr_steps n)\<rparr>)"
  proof -
    have "rn_id r \<noteq> row_run x" if "r \<in> set (tb_runs t)" "x \<in> set (pending_rows (nr_id n) (nr_steps n))" for r x
      using ids [OF that(1)] set_pending_rows [OF that(2)] by simp
    then show ?thesis using ok row(2)
      by (fastforce simp: tables_ok_def cancelled_ok_def list_all_iff)
  qed
  ultimately show ?thesis using True
    by (simp add: queue_workflow_run_def tables_ok_def)
next
  case False
  then show ?thesis using ok by (auto simp: queue_workflow_run_def split: option.splits)
qed

text \<open>An update that keeps ids and places and does not cancel anything.\<close>

lemma update_run_ok:
  assumes ok: "tables_ok t" and keeps: "\<And>r. rn_id (f r) = rn_id r \<and> run_place (f r) = run_place r"
    and was: "\<And>x. allowed x \<Longrightarrow> active_status x"
    and now: "\<And>r. allowed (rn_status r) \<Longrightarrow> rn_status (f r) \<noteq> ''cancelled''"
  shows "tables_ok (snd (update_run i allowed f t))"
proof -
  let ?f = "\<lambda>r. if rn_id r = i \<and> allowed (rn_status r) then f r else r"
  have "places_ok (map ?f (tb_runs t))"
    using ok keeps was
    by (intro places_ok_map) (auto simp: tables_ok_def holds_place_def run_active_def run_place_def)
  moreover have "cancelled_ok (t\<lparr>tb_runs := map ?f (tb_runs t)\<rparr>)"
    using ok keeps now by (auto simp: tables_ok_def cancelled_ok_def list_all_iff)
  ultimately show ?thesis using ok by (simp add: tables_ok_def update_run_def)
qed

lemma start_ok: "tables_ok t \<Longrightarrow> tables_ok (snd (start_workflow_run i ctx now t))"
  unfolding start_workflow_run_def
  by (rule update_run_ok) (auto simp: run_place_def active_status_def)

lemma finish_ok:
  "tables_ok t \<Longrightarrow> tables_ok (snd (finish_workflow_run i (finish_status why) why now t))"
proof -
  assume ok: "tables_ok t"
  have "tables_ok (snd (update_run i active_status
      (\<lambda>r. r\<lparr>rn_status := finish_status why, rn_error := why, rn_ended := Some now\<rparr>) t))"
    by (rule update_run_ok) (auto simp: ok run_place_def finish_status_def split: option.splits)
  then show ?thesis using ok
    by (auto simp: finish_workflow_run_def split: prod.splits)
qed

lemma move_ok:
  assumes ok: "tables_ok t"
  shows "tables_ok (snd (move_workflow_step i m now t))"
proof (cases "run_is ''running'' i t")
  case True
  let ?f = "\<lambda>s. if takes_move i m s then moved_row m now s else s"
  have "steps_ok (map ?f (tb_steps t))"
    using ok by (intro steps_ok_map) (auto simp: tables_ok_def moved_row_def)
  moreover have "cancelled_ok (t\<lparr>tb_steps := map ?f (tb_steps t)\<rparr>)"
  proof -
    have "rn_status r \<noteq> ''cancelled''" if "r \<in> set (tb_runs t)" "rn_id r = i" for r
    proof -
      obtain q where "q \<in> set (tb_runs t)" "rn_id q = i" "rn_status q = ''running''"
        using True by (auto simp: run_is_def list_ex_iff)
      then have "q = r" using ok that
        by (auto simp: tables_ok_def places_ok_def distinct_map dest: inj_onD)
      then show ?thesis using \<open>rn_status q = ''running''\<close> by simp
    qed
    then show ?thesis using ok
      by (fastforce simp: tables_ok_def cancelled_ok_def list_all_iff takes_move_def moved_row_def)
  qed
  ultimately show ?thesis using ok True by (simp add: move_workflow_step_def tables_ok_def)
next
  case False
  then show ?thesis using ok by (simp add: move_workflow_step_def)
qed

lemma cancel_ok:
  assumes ok: "tables_ok t"
  shows "tables_ok (snd (cancel_workflow_run i reason now t))"
proof -
  let ?f = "\<lambda>r. if rn_id r = i \<and> active_status (rn_status r)
      then r\<lparr>rn_status := ''cancelled'', rn_error := Some reason, rn_ended := Some now\<rparr> else r"
  let ?g = "\<lambda>s. if row_run s = i \<and> open_status (row_status s)
      then s\<lparr>row_status := ''cancelled'', row_ended := Some now\<rparr> else s"
  let ?changed = "list_ex (\<lambda>r. rn_id r = i \<and> active_status (rn_status r)) (tb_runs t)"
  have "places_ok (map ?f (tb_runs t))"
    using ok by (intro places_ok_map)
      (auto simp: tables_ok_def holds_place_def run_active_def run_place_def active_status_def)
  moreover have "steps_ok (map ?g (tb_steps t))"
    using ok by (intro steps_ok_map) (auto simp: tables_ok_def parse_cancelled)
  moreover have "cancelled_ok (t\<lparr>tb_runs := map ?f (tb_runs t), tb_steps := map ?g (tb_steps t)\<rparr>)"
    using ok by (fastforce simp: tables_ok_def cancelled_ok_def list_all_iff open_status_def)
  moreover have "map ?f (tb_runs t) = tb_runs t" if "\<not> ?changed"
    using that by (intro map_idI) (auto simp: list_ex_iff)
  ultimately show ?thesis using ok
    by (auto simp: cancel_workflow_run_def update_run_def tables_ok_def Let_def)
qed

lemma store_step_ok: "tables_ok t \<Longrightarrow> tables_ok (store_step op t)"
proof (cases op)
  case (WorkspaceGone ws)
  assume ok: "tables_ok t"
  let ?f = "\<lambda>r. if rn_workspace r = Some ws then r\<lparr>rn_workspace := None\<rparr> else r"
  have "places_ok (map ?f (tb_runs t))"
    using ok by (intro places_ok_map) (auto simp: tables_ok_def holds_place_def run_active_def run_place_def)
  moreover have "cancelled_ok (t\<lparr>tb_workspaces := xs, tb_runs := map ?f (tb_runs t)\<rparr>)" for xs
    using ok by (auto simp: tables_ok_def cancelled_ok_def list_all_iff)
  ultimately show ?thesis using ok WorkspaceGone by (simp add: tables_ok_def)
qed (simp_all add: queue_ok start_ok move_ok finish_ok cancel_ok)

definition store_steps :: "store_op list \<Rightarrow> tables \<Rightarrow> tables" where
  "store_steps ops t = fold store_step ops t"

lemma no_runs_ok: "tables_ok (no_runs ps ws)"
  by (simp add: tables_ok_def places_ok_def steps_ok_def cancelled_ok_def no_runs_def)

lemma store_steps_ok: "tables_ok t \<Longrightarrow> tables_ok (store_steps ops t)"
  unfolding store_steps_def by (induction ops arbitrary: t) (simp_all add: store_step_ok)

lemmas reached_ok = store_steps_ok [OF no_runs_ok]

section \<open>What has ended stays as it is\<close>

definition run_steps :: "string \<Rightarrow> tables \<Rightarrow> step_row list" where
  "run_steps i t = filter (\<lambda>s. row_run s = i) (tb_steps t)"

lemma workflow_steps_alt: "workflow_steps i t = sort_key row_position (run_steps i t)"
  by (simp add: workflow_steps_def run_steps_def)

lemma find_run_map:
  assumes "\<And>r. rn_id (f r) = rn_id r"
  shows "find (\<lambda>r. rn_id r = i) (map f rs) = map_option f (find (\<lambda>r. rn_id r = i) rs)"
  using assms by (induction rs) auto

lemma find_append: "find P (xs @ ys) = (case find P xs of Some x \<Rightarrow> Some x | None \<Rightarrow> find P ys)"
  by (induction xs) auto

lemma filter_steps_map:
  assumes "\<And>s. row_run (g s) = row_run s" and "\<And>s. row_run s = i \<Longrightarrow> g s = s"
  shows "filter (\<lambda>s. row_run s = i) (map g ss) = filter (\<lambda>s. row_run s = i) ss"
  using assms by (induction ss) auto

lemma workflow_run_SomeD:
  "workflow_run i t = Some r \<Longrightarrow> r \<in> set (tb_runs t) \<and> rn_id r = i"
  by (auto simp: workflow_run_def find_Some_iff)

lemma same_run:
  assumes "tables_ok t" and "workflow_run i t = Some r" and "q \<in> set (tb_runs t)" and "rn_id q = i"
  shows "q = r"
  using assms workflow_run_SomeD [OF assms(2)]
  by (auto simp: tables_ok_def places_ok_def distinct_map dest: inj_onD)

definition untouched :: "string \<Rightarrow> tables \<Rightarrow> tables \<Rightarrow> bool" where
  "untouched i t t' \<longleftrightarrow>
    (\<forall>r. workflow_run i t = Some r \<longrightarrow>
      (\<exists>ws. workflow_run i t' = Some (r\<lparr>rn_workspace := ws\<rparr>)))
    \<and> run_steps i t' = run_steps i t"

lemma untouchedI:
  assumes "\<And>r. workflow_run i t = Some r \<Longrightarrow> \<exists>ws. workflow_run i t' = Some (r\<lparr>rn_workspace := ws\<rparr>)"
    and "run_steps i t' = run_steps i t"
  shows "untouched i t t'"
  using assms by (simp add: untouched_def)

lemma untouched_same: "tb_runs t' = tb_runs t \<Longrightarrow> run_steps i t' = run_steps i t \<Longrightarrow> untouched i t t'"
proof (rule untouchedI)
  fix r assume "tb_runs t' = tb_runs t" "workflow_run i t = Some r"
  then have "workflow_run i t' = Some (r\<lparr>rn_workspace := rn_workspace r\<rparr>)"
    by (simp add: workflow_run_def)
  then show "\<exists>ws. workflow_run i t' = Some (r\<lparr>rn_workspace := ws\<rparr>)" by blast
qed

lemma update_run_other:
  assumes "\<And>r. rn_id (f r) = rn_id r"
    and "\<And>r. workflow_run i t = Some r \<Longrightarrow> j = i \<Longrightarrow> \<not> allowed (rn_status r)"
  shows "untouched i t (snd (update_run j allowed f t))"
proof (rule untouchedI)
  let ?f = "\<lambda>r. if rn_id r = j \<and> allowed (rn_status r) then f r else r"
  fix r assume r: "workflow_run i t = Some r"
  have "workflow_run i (snd (update_run j allowed f t)) = map_option ?f (workflow_run i t)"
    using assms(1) by (simp add: workflow_run_def update_run_def find_run_map)
  also have "\<dots> = Some r"
    using assms(2) [OF r] workflow_run_SomeD [OF r] r by auto
  finally have "workflow_run i (snd (update_run j allowed f t)) = Some (r\<lparr>rn_workspace := rn_workspace r\<rparr>)"
    by simp
  then show "\<exists>ws. workflow_run i (snd (update_run j allowed f t)) = Some (r\<lparr>rn_workspace := ws\<rparr>)"
    by blast
qed (simp add: run_steps_def update_run_def)

text \<open>No operation changes a run that has ended, or its steps; the workspace it ran in may go.\<close>

lemma ended_untouched:
  assumes ok: "tables_ok t" and r: "workflow_run i t = Some r" and ended: "\<not> run_active r"
  shows "untouched i t (store_step op t)"
proof (cases op)
  case (QueueRun n now)
  show ?thesis
  proof (cases "snd (queue_workflow_run n now t) = t")
    case False
    then have acc: "run_accepted n t" and t': "snd (queue_workflow_run n now t) = t\<lparr>tb_runs := tb_runs t @ [queued_row n now],
        tb_steps := tb_steps t @ pending_rows (nr_id n) (nr_steps n)\<rparr>"
      by (auto simp: queue_workflow_run_def split: option.splits if_splits)
    have other: "nr_id n \<noteq> i"
      using acc workflow_run_SomeD [OF r] by (auto simp: run_accepted_def list_all_iff)
    have "workflow_run i (snd (queue_workflow_run n now t)) = Some r"
      using r by (auto simp: t' workflow_run_def find_append split: option.splits)
    moreover have "run_steps i (snd (queue_workflow_run n now t)) = run_steps i t"
      using other set_pending_rows by (fastforce simp: t' run_steps_def filter_empty_conv)
    ultimately show ?thesis
      using r by (intro untouchedI exI [of _ "rn_workspace r"]) (simp_all add: QueueRun)
  qed (simp add: QueueRun untouched_same)
next
  case (MoveStep j m now)
  have "\<not> run_is ''running'' j t" if "j = i"
    using same_run [OF ok r] ended that
    by (auto simp: run_is_def list_ex_iff run_active_def active_status_def)
  then have "run_steps i (snd (move_workflow_step j m now t)) = run_steps i t"
    by (cases "j = i") (auto simp: move_workflow_step_def run_steps_def takes_move_def moved_row_def
        intro!: filter_steps_map)
  then show ?thesis by (intro untouched_same) (auto simp: MoveStep move_workflow_step_def)
next
  case (StartRun j ctx now)
  have "untouched i t (snd (start_workflow_run j ctx now t))"
    unfolding start_workflow_run_def
    using r ended by (intro update_run_other) (auto simp: run_active_def active_status_def)
  then show ?thesis by (simp add: StartRun)
next
  case (FinishRun j why now)
  have "untouched i t (snd (update_run j active_status
      (\<lambda>r. r\<lparr>rn_status := finish_status why, rn_error := why, rn_ended := Some now\<rparr>) t))"
    using r ended by (intro update_run_other) (auto simp: run_active_def)
  then show ?thesis
    by (auto simp: FinishRun finish_workflow_run_def untouched_same split: prod.splits)
next
  case (CancelRun j reason now)
  let ?u = "update_run j active_status
      (\<lambda>r. r\<lparr>rn_status := ''cancelled'', rn_error := Some reason, rn_ended := Some now\<rparr>) t"
  have u: "untouched i t (snd ?u)"
    using r ended by (intro update_run_other) (auto simp: run_active_def)
  have "\<not> fst ?u" if "j = i"
    using same_run [OF ok r] ended that by (auto simp: update_run_def list_ex_iff run_active_def)
  then have "run_steps i (snd (cancel_workflow_run j reason now t)) = run_steps i t"
    by (cases "j = i") (auto simp: cancel_workflow_run_def update_run_def run_steps_def
        intro!: filter_steps_map)
  moreover have "tb_runs (snd (cancel_workflow_run j reason now t)) = tb_runs (snd ?u)"
    by (auto simp: cancel_workflow_run_def split: prod.splits)
  ultimately show ?thesis using u
    by (simp add: CancelRun untouched_def workflow_run_def)
next
  case (WorkspaceGone ws)
  let ?f = "\<lambda>r. if rn_workspace r = Some ws then r\<lparr>rn_workspace := None\<rparr> else r"
  have "workflow_run i (store_step op t) = Some (?f r)"
    using r find_run_map [of ?f i "tb_runs t"] by (simp add: WorkspaceGone workflow_run_def)
  moreover have "?f r = r\<lparr>rn_workspace := rn_workspace (?f r)\<rparr>" by simp
  ultimately have left: "workflow_run i (store_step op t) = Some (r\<lparr>rn_workspace := rn_workspace (?f r)\<rparr>)"
    by metis
  show ?thesis
  proof (rule untouchedI)
    fix q assume "workflow_run i t = Some q"
    then have "q = r" using r by simp
    then show "\<exists>ws. workflow_run i (store_step op t) = Some (q\<lparr>rn_workspace := ws\<rparr>)"
      using left by blast
  qed (simp add: WorkspaceGone run_steps_def)
qed

lemma ended_steps_untouched:
  assumes "tables_ok t" and "workflow_run i t = Some r" and "\<not> run_active r"
  shows "\<exists>ws. workflow_run i (store_steps ops t) = Some (r\<lparr>rn_workspace := ws\<rparr>)
    \<and> run_steps i (store_steps ops t) = run_steps i t"
  using assms
proof (induction ops arbitrary: t r)
  case Nil
  then show ?case by (auto simp: store_steps_def intro: exI [of _ "rn_workspace r"])
next
  case (Cons op ops)
  obtain ws where next_run: "workflow_run i (store_step op t) = Some (r\<lparr>rn_workspace := ws\<rparr>)"
    and next_steps: "run_steps i (store_step op t) = run_steps i t"
    using ended_untouched [OF Cons.prems] Cons.prems(2) unfolding untouched_def by blast
  have "\<not> run_active (r\<lparr>rn_workspace := ws\<rparr>)"
    using Cons.prems(3) by (simp add: run_active_def)
  from Cons.IH [OF store_step_ok [OF Cons.prems(1)] next_run this] next_steps
  show ?case by (auto simp: store_steps_def)
qed

section \<open>Applying a plan\<close>

text \<open>
  What the driver relies on when it applies moves: a table of steps takes a move when its step is
  where the move starts from and the run is still going, and then the step is where the move
  says; otherwise nothing changes.
\<close>

locale step_table =
  fixes apply_move :: "move \<Rightarrow> int \<Rightarrow> 't \<Rightarrow> bool \<times> 't"
    and status_in :: "'t \<Rightarrow> string \<Rightarrow> step_status option"
    and going :: "'t \<Rightarrow> bool"
  assumes takes: "going t \<Longrightarrow> status_in t (mv_step m) = Some s \<Longrightarrow> s \<in> set (mv_from m) \<Longrightarrow>
      fst (apply_move m now t) \<and> going (snd (apply_move m now t))
        \<and> status_in (snd (apply_move m now t)) = (status_in t)(mv_step m \<mapsto> mv_to m)"
    and refuses: "going t \<Longrightarrow> \<not> (\<exists>s. status_in t (mv_step m) = Some s \<and> s \<in> set (mv_from m)) \<Longrightarrow>
      apply_move m now t = (False, t)"
begin

fun apply_moves :: "move list \<Rightarrow> int \<Rightarrow> 't \<Rightarrow> bool list \<times> 't" where
  "apply_moves [] now t = ([], t)"
| "apply_moves (m # ms) now t =
    (case apply_move m now t of (b, t') \<Rightarrow> case apply_moves ms now t' of (bs, t'') \<Rightarrow> (b # bs, t''))"

lemma apply_moves_carried:
  assumes "going t" and "carry_out_moves ms (status_in t) = Some st"
  shows "list_all id (fst (apply_moves ms now t)) \<and> status_in (snd (apply_moves ms now t)) = st
    \<and> going (snd (apply_moves ms now t))"
  using assms
proof (induction ms arbitrary: t)
  case (Cons m ms)
  obtain s where s: "status_in t (mv_step m) = Some s" "s \<in> set (mv_from m)"
    and rest: "carry_out_moves ms ((status_in t)(mv_step m \<mapsto> mv_to m)) = Some st"
    using Cons.prems(2) by (auto split: option.splits if_splits)
  obtain b t' where bt: "apply_move m now t = (b, t')" by fastforce
  have next_t: "b" "going t'" "status_in t' = (status_in t)(mv_step m \<mapsto> mv_to m)"
    using takes [OF Cons.prems(1) s, of now] bt by auto
  obtain bs t'' where "apply_moves ms now t' = (bs, t'')" by fastforce
  then show ?case using Cons.IH [OF next_t(2) rest [folded next_t(3)]] next_t(1) by (simp add: bt)
qed simp

text \<open>The moves of a plan made from the table are all taken.\<close>

lemma plan_applied:
  assumes "going t" and "status_in t = statuses rows"
  shows "list_all id (fst (apply_moves (pl_moves (advance js flow ins rows w)) now t))
    \<and> carry_out_moves (pl_moves (advance js flow ins rows w)) (statuses rows)
      = Some (status_in (snd (apply_moves (pl_moves (advance js flow ins rows w)) now t)))
    \<and> going (snd (apply_moves (pl_moves (advance js flow ins rows w)) now t))"
  using apply_moves_carried [OF assms(1), of "pl_moves (advance js flow ins rows w)"]
    advanced_statuses [of js flow ins rows w] assms(2) by simp

end

text \<open>The rows of a run, as the statuses of its steps.\<close>

lemma distinct_run_steps:
  assumes "tables_ok t"
  shows "distinct (map row_step (run_steps i t))"
proof -
  have "distinct (map (\<lambda>s. (row_run s, row_step s)) (run_steps i t))"
    using assms by (simp add: tables_ok_def steps_ok_def run_steps_def distinct_map_filter)
  then show ?thesis
    by (auto simp: distinct_map inj_on_def run_steps_def)
qed

lemma statuses_Some:
  assumes "distinct (map row_step rows)"
  shows "statuses rows i = Some s \<longleftrightarrow> (\<exists>r\<in>set rows. row_step r = i \<and> row_status_of r = s)"
proof -
  have "distinct (map fst (rev (map (\<lambda>r. (row_step r, row_status_of r)) rows)))"
    using assms by (simp add: rev_map comp_def distinct_map)
  then show ?thesis
    by (auto simp: statuses_def map_of_eq_Some_iff)
qed

definition status_in_run :: "string \<Rightarrow> tables \<Rightarrow> string \<Rightarrow> step_status option" where
  "status_in_run i t = statuses (workflow_steps i t)"

lemma status_in_run_Some:
  assumes "tables_ok t"
  shows "status_in_run i t j = Some s
    \<longleftrightarrow> (\<exists>r\<in>set (tb_steps t). row_run r = i \<and> row_step r = j \<and> row_status_of r = s)"
proof -
  have "distinct (map row_step (workflow_steps i t))"
    using distinct_run_steps [OF assms, of i] by (simp add: workflow_steps_alt distinct_map)
  then show ?thesis
    by (auto simp: status_in_run_def statuses_Some workflow_steps_alt run_steps_def)
qed

definition run_going :: "string \<Rightarrow> tables \<Rightarrow> bool" where
  "run_going i t \<longleftrightarrow> tables_ok t \<and> run_is ''running'' i t"

lemma takes_move_status:
  assumes "tables_ok t" and "r \<in> set (tb_steps t)"
  shows "takes_move i m r \<longleftrightarrow> row_run r = i \<and> row_step r = mv_step m \<and> row_status_of r \<in> set (mv_from m)"
proof -
  obtain s where s: "status_parse (row_status r) = Some s"
    using assms by (auto simp: tables_ok_def steps_ok_def list_all_iff)
  then have "row_status r = status_str s" by (simp add: status_parse_Some)
  then show ?thesis by (auto simp: takes_move_def row_status_of_def)
qed

lemma run_step_unique:
  assumes "tables_ok t" and "r \<in> set (tb_steps t)" and "q \<in> set (tb_steps t)"
    and "row_run r = row_run q" and "row_step r = row_step q"
  shows "r = q"
  using assms by (auto simp: tables_ok_def steps_ok_def distinct_map dest: inj_onD)

lemma run_going_takes:
  assumes "run_going i t" and "status_in_run i t (mv_step m) = Some s" and "s \<in> set (mv_from m)"
  shows "fst (move_workflow_step i m now t) \<and> run_going i (snd (move_workflow_step i m now t))
    \<and> status_in_run i (snd (move_workflow_step i m now t)) = (status_in_run i t)(mv_step m \<mapsto> mv_to m)"
proof -
  note ok = assms(1) [unfolded run_going_def, THEN conjunct1]
  note run = assms(1) [unfolded run_going_def, THEN conjunct2]
  let ?t' = "snd (move_workflow_step i m now t)"
  obtain r where r: "r \<in> set (tb_steps t)" "row_run r = i" "row_step r = mv_step m" "row_status_of r = s"
    using assms(2) status_in_run_Some [OF ok] by blast
  have taken: "takes_move i m r"
    using takes_move_status [OF ok r(1)] r assms(3) by simp
  have only: "takes_move i m q \<longleftrightarrow> q = r" if "q \<in> set (tb_steps t)" for q
    using taken run_step_unique [OF ok that r(1)] r by (auto simp: takes_move_def)
  define f where "f = (\<lambda>q. if takes_move i m q then moved_row m now q else q)"
  have steps': "tb_steps ?t' = map f (tb_steps t)"
    using run by (simp add: move_workflow_step_def f_def)
  have row: "row_run (f q) = row_run q" "row_step (f q) = row_step q"
    "row_status_of (f q) = (if q = r then mv_to m else row_status_of q)" if "q \<in> set (tb_steps t)" for q
    using only [OF that] by (auto simp: f_def moved_row_def row_status_of_def)
  have ok': "tables_ok ?t'" by (rule move_ok [OF ok])
  have "status_in_run i ?t' j = ((status_in_run i t)(mv_step m \<mapsto> mv_to m)) j" for j
  proof -
    have "status_in_run i ?t' j = Some u \<longleftrightarrow> ((status_in_run i t)(mv_step m \<mapsto> mv_to m)) j = Some u" for u
    proof -
      have "status_in_run i ?t' j = Some u \<longleftrightarrow>
          (\<exists>q\<in>set (tb_steps t). row_run q = i \<and> row_step q = j
            \<and> (if q = r then mv_to m else row_status_of q) = u)"
        unfolding status_in_run_Some [OF ok'] steps'
        using row by (simp only: list.set_map bex_simps cong: bex_cong)
      also have "\<dots> \<longleftrightarrow> ((status_in_run i t)(mv_step m \<mapsto> mv_to m)) j = Some u"
      proof (cases "j = mv_step m")
        case True
        have "q = r \<longleftrightarrow> row_run q = i \<and> row_step q = j" if "q \<in> set (tb_steps t)" for q
          using run_step_unique [OF ok that r(1)] r(2,3) True by auto
        then have "(\<exists>q\<in>set (tb_steps t). row_run q = i \<and> row_step q = j
            \<and> (if q = r then mv_to m else row_status_of q) = u) \<longleftrightarrow> mv_to m = u"
          using r(1) by metis
        then show ?thesis using True by simp
      next
        case False
        then have "q = r \<Longrightarrow> row_step q \<noteq> j" for q using r(3) by auto
        then show ?thesis using False status_in_run_Some [OF ok, of i j u] by auto
      qed
      finally show ?thesis .
    qed
    then show ?thesis by (metis option.exhaust)
  qed
  moreover have "fst (move_workflow_step i m now t)"
    using run taken r(1) by (auto simp: move_workflow_step_def list_ex_iff)
  moreover have "run_is ''running'' i ?t'"
    using run by (simp add: move_workflow_step_def run_is_def)
  ultimately show ?thesis using ok' by (auto simp: run_going_def)
qed

lemma run_going_refuses:
  assumes "run_going i t" and "\<not> (\<exists>s. status_in_run i t (mv_step m) = Some s \<and> s \<in> set (mv_from m))"
  shows "move_workflow_step i m now t = (False, t)"
proof -
  note ok = assms(1) [unfolded run_going_def, THEN conjunct1]
  have not: "takes_move i m r = False" if "r \<in> set (tb_steps t)" for r
  proof (rule ccontr)
    assume "takes_move i m r \<noteq> False"
    then have "row_run r = i" "row_step r = mv_step m" "row_status_of r \<in> set (mv_from m)"
      using takes_move_status [OF ok that] by auto
    moreover from this(1,2) have "status_in_run i t (mv_step m) = Some (row_status_of r)"
      using that status_in_run_Some [OF ok] by auto
    ultimately show False using assms(2) by simp
  qed
  have same: "map (\<lambda>q. if takes_move i m q then moved_row m now q else q) (tb_steps t) = tb_steps t"
    by (rule map_idI) (simp only: not if_False)
  have none: "list_ex (takes_move i m) (tb_steps t) = False"
    using not by (auto simp: list_ex_iff)
  have "t\<lparr>tb_steps := tb_steps t\<rparr> = t" by simp
  then show ?thesis unfolding move_workflow_step_def same none by (simp only: if_cancel)
qed

interpretation rows: step_table "move_workflow_step i" "status_in_run i" "run_going i" for i
  by unfold_locales (simp_all add: run_going_takes run_going_refuses)

section \<open>Properties\<close>

text \<open>
  C13. Whatever is queued, started, moved, finished, cancelled or deleted, in any order, a workflow never
  has two queued or running runs in one workspace.
\<close>

theorem one_run_at_a_time:
  "distinct (map run_place (filter holds_place (tb_runs (store_steps ops (no_runs ps ws)))))"
  using reached_ok [of ops ps ws] by (simp add: tables_ok_def places_ok_def)


text \<open>
  C26. While a run is running, the store takes every move of a plan made from the run's rows, and the
  statuses the rows then have are the ones the plan meant.
\<close>

theorem plans_are_taken_whole:
  assumes "t = store_steps ops (no_runs ps wss)" and "run_is ''running'' i t"
    and "p = advance js flow ins (workflow_steps i t) w"
  shows "list_all id (fst (rows.apply_moves i (pl_moves p) now t))
    \<and> carry_out_moves (pl_moves p) (statuses (workflow_steps i t))
      = Some (statuses (workflow_steps i (snd (rows.apply_moves i (pl_moves p) now t))))"
proof -
  have "run_going i t" using assms(1,2) by (simp add: run_going_def reached_ok)
  then show ?thesis
    using rows.plan_applied [of i t "workflow_steps i t" js flow ins w now] assms(3)
    by (simp add: status_in_run_def)
qed

section \<open>Witnesses\<close>

definition example_run :: new_run where
  "example_run = \<lparr>nr_id = ''r'', nr_workflow = ''tell'', nr_workflow_name = ''Tell'', nr_definition = [],
    nr_project = ''p'', nr_workspace = ''w'', nr_workspace_name = ''w'', nr_inputs = ''{}'', nr_context = ''{}'',
    nr_requested_by = ''app'', nr_steps = [(''a'', ''wait_pr_activity''), (''b'', ''notify'')]\<rparr>"

definition example_ops :: "store_op list" where
  "example_ops = [QueueRun example_run 1, StartRun ''r'' None 2]"

lemma example_cancelled:
  "map_option rn_status (workflow_run ''r'' (store_steps (example_ops @ [CancelRun ''r'' ''why'' 3]) (no_runs [''p''] [''w''])))
    = Some ''cancelled''"
  "run_is ''running'' ''r'' (store_steps example_ops (no_runs [''p''] [''w'']))"
  by code_simp+


theorem plans_are_taken_whole_witness:
  "list_all id (fst (rows.apply_moves ''r''
    (pl_moves (advance plain_json two_steps Map.empty
      (workflow_steps ''r'' (store_steps example_ops (no_runs [''p''] [''w'']))) quiet_world)) 5
    (store_steps example_ops (no_runs [''p''] [''w'']))))"
  using plans_are_taken_whole [OF refl example_cancelled(2) refl] by blast

end
