(* ===== verification/Yaml.thy ===== *)
theory Yaml
  imports Template
begin

text \<open>
  \<open>crates/core/src/yaml.rs\<close>: what the workflow parser and the smoke test parser share.  The YAML
  itself is read by \<open>serde_saphyr\<close>, which is not in the repository: what it gives, a value with
  its place (\<open>spanned\<close>), the head of a file or an error, is the input here.  The lemmas show that a
  duration that is accepted is between a second and a week, and that the place reported for a
  piece of text is a place where that text is.
\<close>

section \<open>Places and problems\<close>

record location =
  loc_line :: nat
  loc_column :: nat

record 'a spanned =
  sp_value :: 'a
  sp_at :: location

record problem =
  pb_line :: "nat option"
  pb_column :: "nat option"
  pb_message :: string

definition as_u32 :: "nat \<Rightarrow> nat" where
  "as_u32 n = n mod 2 ^ 32"

definition problem_at :: "nat \<Rightarrow> nat \<Rightarrow> string \<Rightarrow> problem" where
  "problem_at line column message =
    \<lparr>pb_line = Some (as_u32 line), pb_column = Some (as_u32 column), pb_message = message\<rparr>"

definition problem_whole :: "string \<Rightarrow> problem" where
  "problem_whole message = \<lparr>pb_line = None, pb_column = None, pb_message = message\<rparr>"

definition problem_text :: "problem \<Rightarrow> string" where
  "problem_text p =
    (case (pb_line p, pb_column p) of
       (Some line, Some column) \<Rightarrow> num line @ '':'' @ num column @ '': '' @ pb_message p
     | (Some line, None) \<Rightarrow> num line @ '': '' @ pb_message p
     | _ \<Rightarrow> pb_message p)"

definition at_place :: "location \<Rightarrow> string \<Rightarrow> problem" where
  "at_place location message = problem_at (loc_line location) (loc_column location) message"

record invalid =
  iv_id :: "string option"
  iv_name :: "string option"
  iv_problems :: "problem list"

section \<open>Characters\<close>

text \<open>A character starts at a byte that does not continue one.\<close>

definition continues :: "char \<Rightarrow> bool" where
  "continues c \<longleftrightarrow> 0x80 \<le> (of_char c :: nat) \<and> (of_char c :: nat) < 0xC0"

definition char_starts :: "string \<Rightarrow> nat list" where
  "char_starts s = filter (\<lambda>i. \<not> continues (s ! i)) [0..<length s]"

definition char_count :: "string \<Rightarrow> nat" where
  "char_count s = length (filter (\<lambda>c. \<not> continues c) s)"

text \<open>The characters of a text, each as its bytes.\<close>

fun chars_of :: "string \<Rightarrow> string list" where
  "chars_of [] = []"
| "chars_of (c # cs) =
    (case chars_of cs of
       [] \<Rightarrow> [[c]]
     | d # ds \<Rightarrow> if continues (hd d) then (c # d) # ds else [c] # d # ds)"

definition lower :: "char \<Rightarrow> bool" where
  "lower c \<longleftrightarrow> 0x61 \<le> (of_char c :: nat) \<and> (of_char c :: nat) \<le> 0x7A"

definition decimal :: "char \<Rightarrow> bool" where
  "decimal c \<longleftrightarrow> 0x30 \<le> (of_char c :: nat) \<and> (of_char c :: nat) \<le> 0x39"

section \<open>Names and durations\<close>

definition starts_with :: "(char \<Rightarrow> bool) \<Rightarrow> string \<Rightarrow> bool" where
  "starts_with p s = (case s of [] \<Rightarrow> False | c # _ \<Rightarrow> p c)"

definition is_name :: "string \<Rightarrow> bool" where
  "is_name txt \<longleftrightarrow> starts_with lower txt
    \<and> list_all (\<lambda>c. lower c \<or> decimal c \<or> c = CHR ''_'' \<or> c = CHR ''-'') txt"

definition is_id :: "string \<Rightarrow> bool" where
  "is_id txt \<longleftrightarrow> length txt \<le> 64 \<and> starts_with (\<lambda>c. lower c \<or> decimal c) txt
    \<and> list_all (\<lambda>c. lower c \<or> decimal c \<or> c = CHR ''-'') txt"

definition MAX_TIMEOUT_SECS :: nat where
  "MAX_TIMEOUT_SECS = 7 * 24 * 60 * 60"

definition strip_suffix :: "string \<Rightarrow> string \<Rightarrow> string option" where
  "strip_suffix suff s = (if suffix suff s then Some (take (length s - length suff) s) else None)"

fun trim_start_matches :: "nat \<Rightarrow> string \<Rightarrow> string \<Rightarrow> string" where
  "trim_start_matches 0 pat s = s"
| "trim_start_matches (Suc n) pat s =
    (if pat \<noteq> [] \<and> prefix pat s then trim_start_matches n pat (drop (length pat) s) else s)"

text \<open>The first character in upper case, as \<open>char::to_uppercase\<close> (\<open>upper\<close>) has it.\<close>

definition capitalise :: "(string \<Rightarrow> string) \<Rightarrow> string \<Rightarrow> string" where
  "capitalise upper txt =
    (case chars_of txt of [] \<Rightarrow> [] | c # cs \<Rightarrow> upper c @ concat cs)"

definition duration_units :: "(string \<times> nat) list" where
  "duration_units = [(''s'', 1), (''m'', 60), (''h'', 60 * 60)]"

definition decimal_value :: "string \<Rightarrow> nat" where
  "decimal_value s = foldl (\<lambda>n c. 10 * n + ((of_char c :: nat) - 48)) 0 s"

definition yaml_duration :: "(string \<Rightarrow> string) \<Rightarrow> string \<Rightarrow> string \<Rightarrow> string + nat" where
  "yaml_duration upper whole what =
    (let txt = trim whole;
         usage = ''Write '' @ what @ '' as a whole number and s, m or h, like `45m`.'';
         not_a_duration = ''`'' @ txt @ ''` is not '' @ what @ ''. '' @ usage
     in case find (\<lambda>(u, _). strip_suffix u txt \<noteq> None) duration_units of
          None \<Rightarrow> Inl not_a_duration
        | Some (u, scale) \<Rightarrow>
            let number = the (strip_suffix u txt) in
            if number = [] \<or> \<not> list_all decimal number then Inl not_a_duration
            else if 2 ^ 64 \<le> decimal_value number then Inl not_a_duration
            else
              let seconds = min (decimal_value number * scale) (2 ^ 64 - 1) in
              if seconds = 0
              then Inl (capitalise upper (trim_start_matches (length what) ''an ''
                  (trim_start_matches (length what) ''a '' what)) @ '' of zero would end at once.'')
              else if MAX_TIMEOUT_SECS < seconds
              then Inl (capitalise upper what @ '' may be at most a week (`168h`).'')
              else Inr seconds)"

section \<open>The head of a file, and errors of the reader\<close>

datatype head_value = HeadNumber nat | HeadText string | HeadOther

fun head_text :: "head_value \<Rightarrow> string option" where
  "head_text (HeadText txt) = Some txt"
| "head_text (HeadNumber n) = Some (num n)"
| "head_text HeadOther = None"

record yaml_head =
  hd_id :: "head_value spanned option"
  hd_name :: "head_value spanned option"
  hd_version :: "head_value spanned option"

record heading =
  hg_id :: "string option"
  hg_name :: "string option"
  hg_later_version :: "problem option"

definition head_field :: "yaml_head option \<Rightarrow> (yaml_head \<Rightarrow> head_value spanned option) \<Rightarrow> string option" where
  "head_field head f =
    (case head of None \<Rightarrow> None
     | Some h \<Rightarrow> (case f h of None \<Rightarrow> None | Some v \<Rightarrow> head_text (sp_value v)))"

definition yaml_heading :: "(string \<Rightarrow> yaml_head option) \<Rightarrow> string \<Rightarrow> string \<Rightarrow> nat \<Rightarrow> heading" where
  "yaml_heading read_head txt kind current =
    (let head = read_head txt in
     \<lparr>hg_id = head_field head hd_id, hg_name = head_field head hd_name,
       hg_later_version =
         (case head of None \<Rightarrow> None
          | Some h \<Rightarrow> (case hd_version h of None \<Rightarrow> None
            | Some version \<Rightarrow> (case sp_value version of
                HeadNumber n \<Rightarrow>
                  if current < n
                  then Some (at_place (sp_at version)
                    (''This file is for a later Yardsort ('' @ kind @ '' version '' @ num n
                      @ ''); this one reads version '' @ num current @ ''. Update Yardsort to run it.''))
                  else None
              | _ \<Rightarrow> None)))\<rparr>)"

text \<open>Where \<open>pat\<close> occurs last.\<close>

fun rfind_str :: "string \<Rightarrow> string \<Rightarrow> nat option" where
  "rfind_str pat [] = (if pat = [] then Some 0 else None)"
| "rfind_str pat (c # cs) =
    (case rfind_str pat cs of
       Some n \<Rightarrow> Some (Suc n)
     | None \<Rightarrow> if prefix pat (c # cs) then Some 0 else None)"

text \<open>What the reader says of a file it cannot read, and where.\<close>

record serde_error =
  se_plain :: string
  se_location :: "location option"

definition from_serde :: "(string \<Rightarrow> string) \<Rightarrow> serde_error \<Rightarrow> problem" where
  "from_serde upper e =
    (let plain = se_plain e;
         message = (case rfind_str '' at line '' plain of Some k \<Rightarrow> take k plain | None \<Rightarrow> plain);
         dup = ''duplicate mapping key: '';
         message = (if prefix dup message
           then ''`'' @ trim (takeWhile (\<lambda>c. c \<noteq> CHR '','') (drop (length dup) message)) @ ''` is given twice.''
           else capitalise upper message)
     in case se_location e of Some l \<Rightarrow> at_place l message | None \<Rightarrow> problem_whole message)"

section \<open>Where a text is in the file\<close>

fun index_of :: "char \<Rightarrow> string \<Rightarrow> nat option" where
  "index_of x [] = None"
| "index_of x (c # cs) = (if c = x then Some 0 else map_option Suc (index_of x cs))"

abbreviation newline :: char where "newline \<equiv> CHR 0x0A"

fun skip_lines :: "nat \<Rightarrow> string \<Rightarrow> nat option" where
  "skip_lines 0 s = Some 0"
| "skip_lines (Suc n) s =
    (case index_of newline s of
       None \<Rightarrow> None
     | Some i \<Rightarrow> map_option (\<lambda>k. i + 1 + k) (skip_lines n (drop (i + 1) s)))"

definition nth_opt :: "'a list \<Rightarrow> nat \<Rightarrow> 'a option" where
  "nth_opt xs i = (if i < length xs then Some (xs ! i) else None)"

definition offset_of :: "string \<Rightarrow> nat \<Rightarrow> nat \<Rightarrow> nat option" where
  "offset_of source line column =
    (case skip_lines (line - 1) source of
       None \<Rightarrow> None
     | Some start \<Rightarrow>
         let txt = drop start source in
         Some (start + (case nth_opt (char_starts txt) (column - 1) of Some i \<Rightarrow> i | None \<Rightarrow> length txt)))"

definition line_start :: "string \<Rightarrow> nat" where
  "line_start before = (case rfind_str [newline] before of None \<Rightarrow> 0 | Some i \<Rightarrow> i + 1)"

definition position_of :: "string \<Rightarrow> nat \<Rightarrow> nat \<times> nat" where
  "position_of source offset =
    (let before = take offset source in
     (count_list before newline + 1, char_count (drop (line_start before) before) + 1))"

text \<open>Where \<open>needle\<close> occurs, one occurrence after the other, leaving out those after a backslash.\<close>

function match_indices :: "string \<Rightarrow> nat \<Rightarrow> string \<Rightarrow> nat list" where
  "match_indices needle base hay =
    (if needle = [] then map (\<lambda>i. base + i) (char_starts hay) @ [base + length hay]
     else case find_str needle hay of
       None \<Rightarrow> []
     | Some i \<Rightarrow> (base + i) #
         match_indices needle (base + i + length needle) (drop (i + length needle) hay))"
  by pat_completeness auto
termination
  by (relation "measure (\<lambda>(_, _, hay). length hay)") (auto dest!: find_str_Some simp flip: length_greater_0_conv)

declare match_indices.simps [simp del]

definition unescaped :: "string \<Rightarrow> string \<Rightarrow> nat list" where
  "unescaped hay needle =
    filter (\<lambda>i. \<not> (0 < i \<and> hay ! (i - 1) = backslash)) (match_indices needle 0 hay)"

definition yaml_find :: "string \<Rightarrow> location \<Rightarrow> string \<Rightarrow> string \<Rightarrow> nat \<Rightarrow> nat \<times> nat" where
  "yaml_find source field val raw start =
    (let fallback = (loc_line field, loc_column field) in
     case offset_of source (loc_line field) (loc_column field) of
       None \<Rightarrow> fallback
     | Some base \<Rightarrow>
         let n = length (takeWhile (\<lambda>i. i < start) (unescaped val raw)) in
         (case nth_opt (unescaped (drop base source) raw) n of
            Some found \<Rightarrow> position_of source (base + found)
          | None \<Rightarrow> fallback))"

section \<open>Lists and suggestions\<close>

definition backticked :: "string \<Rightarrow> string" where
  "backticked s = ''`'' @ s @ ''`''"

definition yaml_list :: "string list \<Rightarrow> string" where
  "yaml_list items = join_with '', '' (map backticked items)"

text \<open>One row of the table of edit distances: the row over it, from the value up and to the left.\<close>

fun distance_row :: "'c \<Rightarrow> 'c list \<Rightarrow> nat \<Rightarrow> nat \<Rightarrow> nat list \<Rightarrow> nat list" where
  "distance_row ca (cb # bs) prev left (here # upper_row) =
    (let v = (if ca = cb then prev else 1 + min (min prev left) here)
     in v # distance_row ca bs here v upper_row)"
| "distance_row ca _ prev left _ = []"

fun distance_rows :: "'c list \<Rightarrow> 'c list \<Rightarrow> nat \<Rightarrow> nat list \<Rightarrow> nat list" where
  "distance_rows [] bs i row = row"
| "distance_rows (ca # as) bs i row =
    distance_rows as bs (i + 1) ((i + 1) # distance_row ca bs (hd row) (i + 1) (tl row))"

definition distance :: "string \<Rightarrow> string \<Rightarrow> nat" where
  "distance a b = (let bs = chars_of b in last (distance_rows (chars_of a) bs 0 [0..<length bs + 1]))"

text \<open>The first of the names with the least distance, as \<open>min_by_key\<close> takes it.\<close>

fun min_by_key :: "('a \<Rightarrow> nat) \<Rightarrow> 'a list \<Rightarrow> 'a option" where
  "min_by_key f [] = None"
| "min_by_key f (x # xs) =
    (case min_by_key f xs of None \<Rightarrow> Some x | Some y \<Rightarrow> if f x \<le> f y then Some x else Some y)"

definition suggestion :: "string \<Rightarrow> string list \<Rightarrow> string" where
  "suggestion name known =
    (case min_by_key (distance name) (filter (\<lambda>k. distance name k \<le> 2) known) of
       Some k \<Rightarrow> ''. Did you mean `'' @ k @ ''`?''
     | None \<Rightarrow> ''.'')"

section \<open>Lemmas\<close>

lemma yaml_duration_bounds:
  "yaml_duration upper whole what = Inr n \<Longrightarrow> 1 \<le> n \<and> n \<le> MAX_TIMEOUT_SECS"
  by (auto simp: yaml_duration_def Let_def MAX_TIMEOUT_SECS_def split: option.splits if_splits)

lemma match_indices_at:
  assumes "i \<in> set (match_indices needle base hay)"
  shows "base \<le> i \<and> i \<le> base + length hay \<and> prefix needle (drop (i - base) hay)"
  using assms
proof (induction needle base hay rule: match_indices.induct)
  case (1 needle base hay)
  show ?case
  proof (cases "needle = []")
    case True
    then have "match_indices needle base hay = map (\<lambda>i. base + i) (char_starts hay) @ [base + length hay]"
      by (subst match_indices.simps) simp
    then show ?thesis using "1.prems" True by (auto simp: char_starts_def)
  next
    case False
    have "find_str needle hay \<noteq> None"
    proof
      assume "find_str needle hay = None"
      then have "match_indices needle base hay = []" using False by (subst match_indices.simps) simp
      then show False using "1.prems" by simp
    qed
    then obtain k where k: "find_str needle hay = Some k" by blast
    then have here: "k + length needle \<le> length hay" "take (length needle) (drop k hay) = needle"
      using find_str_Some by auto
    have "match_indices needle base hay = (base + k) #
        match_indices needle (base + k + length needle) (drop (k + length needle) hay)"
      using False k by (subst match_indices.simps) simp
    then consider "i = base + k" | "i \<in> set (match_indices needle (base + k + length needle) (drop (k + length needle) hay))"
      using "1.prems" by auto
    then show ?thesis
    proof cases
      case 1
      then show ?thesis using here by (auto simp: prefix_def) (metis append_take_drop_id)
    next
      case 2
      then have "base + k + length needle \<le> i \<and> i \<le> base + k + length needle + length (drop (k + length needle) hay)
          \<and> prefix needle (drop (i - (base + k + length needle)) (drop (k + length needle) hay))"
        using "1.IH" False k by blast
      moreover from this have "i - (base + k + length needle) + (k + length needle) = i - base" by linarith
      ultimately show ?thesis using here(1) by (auto simp: add.commute)
    qed
  qed
qed

lemma unescaped_at:
  "i \<in> set (unescaped hay needle) \<Longrightarrow> i \<le> length hay \<and> prefix needle (drop i hay)"
  using match_indices_at [of i needle 0 hay] by (auto simp: unescaped_def)

text \<open>The place of an offset leads back to the offset, where a character starts.\<close>

lemma index_of_Some: "index_of x s = Some i \<Longrightarrow> i < length s \<and> s ! i = x \<and> x \<notin> set (take i s)"
proof (induction s arbitrary: i)
  case (Cons c s)
  then show ?case by (auto split: if_splits)
qed simp

lemma index_of_None: "index_of x s = None \<longleftrightarrow> x \<notin> set s"
  by (induction s) auto

lemma rfind_append:
  "rfind_str [x] (xs @ ys) =
    (case rfind_str [x] ys of Some n \<Rightarrow> Some (length xs + n) | None \<Rightarrow> rfind_str [x] xs)"
  by (induction xs) (auto split: option.splits)

lemma rfind_one_None: "rfind_str [x] s = None \<longleftrightarrow> x \<notin> set s"
  by (induction s) (auto split: option.splits)

lemma line_start_first:
  assumes "newline \<notin> set xs"
  shows "line_start xs = 0" and "line_start (xs @ newline # ys) = length xs + 1 + line_start ys"
  using assms rfind_append [of newline xs "newline # ys"]
  by (auto simp: line_start_def rfind_one_None [THEN iffD2] split: option.splits)

lemma line_start_le: "line_start s \<le> length s"
proof -
  have "rfind_str [newline] s = Some n \<Longrightarrow> n < length s" for n
    by (induction s arbitrary: n) (auto split: option.splits if_splits)
  then show ?thesis by (auto simp: line_start_def Suc_le_eq split: option.splits)
qed

lemma skip_lines_start:
  assumes "k \<le> length s"
  shows "skip_lines (count_list (take k s) newline) s = Some (line_start (take k s))"
  using assms
proof (induction "count_list (take k s) newline" arbitrary: k s)
  case 0
  then have "newline \<notin> set (take k s)" by (simp add: count_list_0_iff)
  then show ?case using 0 by (simp add: line_start_first(1))
next
  case (Suc n)
  then have "newline \<in> set (take k s)" using count_list_0_iff by (metis nat.distinct(1))
  then have "newline \<in> set s" by (rule in_set_takeD)
  then obtain i where i: "index_of newline s = Some i" using index_of_None by fastforce
  then have i_props: "i < length s" "s ! i = newline" "newline \<notin> set (take i s)"
    using index_of_Some by auto
  have "i < k"
  proof (rule ccontr)
    assume "\<not> i < k"
    then have "set (take k s) \<subseteq> set (take i s)" by (simp add: set_take_subset_set_take)
    then show False using \<open>newline \<in> set (take k s)\<close> i_props(3) by blast
  qed
  let ?rest = "drop (i + 1) s"
  have split: "take k s = take i s @ newline # take (k - (i + 1)) ?rest"
  proof -
    have "s = take i s @ newline # ?rest" using i_props id_take_nth_drop by fastforce
    then have "take k s = take k (take i s @ newline # ?rest)" by simp
    also have "\<dots> = take i s @ newline # take (k - (i + 1)) ?rest"
      using \<open>i < k\<close> i_props(1) by (simp add: take_Cons' )
    finally show ?thesis .
  qed
  have none: "count_list (take i s) newline = 0" using i_props(3) by (simp add: count_list_0_iff)
  have count: "n = count_list (take (k - (i + 1)) ?rest) newline"
    using Suc.hyps(2) none unfolding split by simp
  have "skip_lines n ?rest = Some (line_start (take (k - (i + 1)) ?rest))"
    using Suc.hyps(1) [OF count] Suc.prems count by simp
  moreover have "line_start (take k s) = i + 1 + line_start (take (k - (i + 1)) ?rest)"
    unfolding split using line_start_first(2) [OF i_props(3)] i_props(1) by simp
  ultimately show ?case using i Suc.hyps(2) by (simp flip: Suc.hyps(2))
qed

lemma char_count_take:
  assumes "k \<le> length s"
  shows "char_count (take k s) = length (filter (\<lambda>i. \<not> continues (s ! i)) [0..<k])"
proof -
  have "take k s = map ((!) s) [0..<k]"
    using assms by (intro nth_equalityI) auto
  then show ?thesis by (simp add: char_count_def filter_map comp_def)
qed

lemma char_starts_nth:
  assumes "k \<le> length s" and "k < length s \<longrightarrow> \<not> continues (s ! k)"
  shows "(case nth_opt (char_starts s) (char_count (take k s)) of Some i \<Rightarrow> i | None \<Rightarrow> length s) = k"
proof (cases "k = length s")
  case True
  then have "char_count (take k s) = length (char_starts s)"
    using char_count_take [OF assms(1)] by (simp add: char_starts_def)
  then show ?thesis using True by (simp add: nth_opt_def)
next
  case False
  then have k: "k < length s" using assms(1) by simp
  then have "[0..<length s] = [0..<k] @ k # [Suc k..<length s]"
    by (metis le_add_same_cancel1 less_imp_add_positive less_imp_le upt_add_eq_append upt_conv_Cons zero_le)
  then have "char_starts s = filter (\<lambda>i. \<not> continues (s ! i)) [0..<k]
      @ k # filter (\<lambda>i. \<not> continues (s ! i)) [Suc k..<length s]"
    using assms(2) k by (simp add: char_starts_def)
  then show ?thesis
    by (simp add: nth_opt_def char_count_take [OF assms(1)])
qed

lemma offset_of_position:
  assumes "k \<le> length s" and "k < length s \<longrightarrow> \<not> continues (s ! k)"
  shows "offset_of s (fst (position_of s k)) (snd (position_of s k)) = Some k"
proof -
  let ?b = "take k s"
  let ?l = "line_start ?b"
  have l: "?l \<le> k" using line_start_le [of ?b] assms(1) by simp
  have cut: "drop ?l ?b = take (k - ?l) (drop ?l s)" by (simp add: drop_take)
  have "(case nth_opt (char_starts (drop ?l s)) (char_count (take (k - ?l) (drop ?l s))) of
      Some i \<Rightarrow> i | None \<Rightarrow> length (drop ?l s)) = k - ?l"
    using assms l by (intro char_starts_nth) auto
  then show ?thesis
    using skip_lines_start [OF assms(1)] l
    by (simp add: offset_of_def position_of_def Let_def cut)
qed

lemma offset_of_le: "offset_of s line column = Some k \<Longrightarrow> k \<le> length s"
proof -
  assume here: "offset_of s line column = Some k"
  have le: "skip_lines n t = Some i \<Longrightarrow> i \<le> length t" for n i and t :: string
  proof (induction n arbitrary: t i)
    case (Suc n)
    then show ?case using index_of_Some
      by (fastforce split: option.splits)
  qed simp
  obtain start where start: "skip_lines (line - 1) s = Some start"
    using here by (auto simp: offset_of_def split: option.splits)
  have "nth_opt (char_starts t) j = Some i \<Longrightarrow> i < length t" for t j i
    by (auto simp: nth_opt_def char_starts_def split: if_splits dest!: nth_mem)
  then show ?thesis using here le [OF start] start
    by (fastforce simp: offset_of_def Let_def split: option.splits)
qed

section \<open>Properties\<close>

text \<open>
   The place the parsers report for a piece of text, a placeholder say, is the place of the value it
  is in, or a line and column that lead to an offset of the file where exactly that text is.
\<close>

theorem mistakes_are_where_they_say:
  assumes "raw \<noteq> []" and "\<not> continues (hd raw)"
  shows "yaml_find source field val raw start = (loc_line field, loc_column field)
    \<or> (\<exists>k. offset_of source (fst (yaml_find source field val raw start)) (snd (yaml_find source field val raw start))
        = Some k \<and> prefix raw (drop k source))"
proof -
  have "\<exists>k. offset_of source (fst (position_of source (base + found))) (snd (position_of source (base + found)))
      = Some k \<and> prefix raw (drop k source)"
    if at: "offset_of source line column = Some base" and found: "found \<in> set (unescaped (drop base source) raw)"
    for line column base found
  proof -
    have le: "base + found \<le> length source" and pre: "prefix raw (drop (base + found) source)"
      using unescaped_at [OF found] offset_of_le [OF at] by (auto simp: add.commute)
    have "base + found < length source \<longrightarrow> \<not> continues (source ! (base + found))"
      using pre assms by (cases raw) (auto simp: prefix_def hd_drop_conv_nth dest: arg_cong [of _ _ hd])
    then show ?thesis using offset_of_position [OF le] pre by blast
  qed
  then show ?thesis
    by (auto simp: yaml_find_def Let_def nth_opt_def split: option.splits)
qed

theorem mistakes_are_where_they_say_witness:
  "\<exists>k. offset_of ''a: {{ x y }}'' 1 4 = Some k \<and> prefix ''{{ x y }}'' (drop k ''a: {{ x y }}'')"
proof -
  have "yaml_find ''a: {{ x y }}'' \<lparr>loc_line = 1, loc_column = 2\<rparr> ''{{ x y }}'' ''{{ x y }}'' 0 = (1, 4)"
    by code_simp
  then show ?thesis
    using mistakes_are_where_they_say [of "''{{ x y }}''" "''a: {{ x y }}''" "\<lparr>loc_line = 1, loc_column = 2\<rparr>" "''{{ x y }}''" 0]
    by (auto simp: continues_def)
qed

end
