(* ===== verification/Checker.thy ===== *)
theory Checker
  imports Runs_Store Yaml
begin

text \<open>
  \<open>crates/core/src/workflow/parse.rs\<close>: from a YAML file to a workflow, with every mistake where it
  is.  What \<open>serde_saphyr\<close> makes of the text (\<open>raw_workflow\<close>, or an error) is the input.  The
  checker's list of problems is what each function returns beside its value; a hash map is a
  function together with its keys, and the order a hash map lists its keys in, which only
  shows in a "did you mean", is the parameter \<open>order\<close>.
\<close>

section \<open>What the reader gives\<close>

record raw_trigger =
  rt_kind :: "string spanned"
  rt_context :: "string spanned option"

record raw_input =
  ri_id :: "string spanned"
  ri_kind :: "string spanned"
  ri_label :: "string option"
  ri_required :: bool
  ri_default :: "string spanned option"
  ri_options :: "string spanned list spanned option"

record raw_step =
  rs_id :: "string spanned"
  rs_action :: "string spanned"
  rs_needs :: "string spanned list"
  rs_harness :: "string spanned option"
  rs_prompt :: "string spanned option"
  rs_model :: "string spanned option"
  rs_effort :: "string spanned option"
  rs_skip_memory :: "bool spanned option"
  rs_session :: "string spanned option"
  rs_until :: "string spanned option"
  rs_timeout :: "string spanned option"
  rs_kind :: "string spanned option"
  rs_test :: "string spanned option"
  rs_inputs :: "(string \<times> string spanned) list spanned option"
  rs_title :: "string spanned option"
  rs_body :: "string spanned option"

record raw_workflow =
  rw_id :: "string spanned"
  rw_name :: "string spanned"
  rw_description :: "string option"
  rw_version :: "nat spanned"
  rw_trigger :: "raw_trigger spanned"
  rw_inputs :: "raw_input list"
  rw_steps :: "raw_step list spanned"

text \<open>What is not in the repository: the YAML reader, and the tables of the standard library.\<close>

record reader =
  rd_head :: "string \<Rightarrow> yaml_head option"
  rd_raw :: "string \<Rightarrow> serde_error + raw_workflow"
  rd_upper :: "string \<Rightarrow> string"
  rd_order :: "string list \<Rightarrow> string list"

section \<open>Tables\<close>

definition SCHEMA_VERSION :: nat where "SCHEMA_VERSION = 1"

definition FIELDS :: "(string \<times> string list) list" where
  "FIELDS = [(''project'', [''name'', ''root'']),
    (''workspace'', [''name'', ''branch'', ''base_branch'', ''path'', ''task'']),
    (''pr'', [''number'', ''url'', ''title''])]"

definition WHOLE :: "string list" where
  "WHOLE = [''memory'', ''handoff'']"

definition ACTIONS :: "string list" where
  "ACTIONS = [''start_session'', ''wait_session'', ''send_to_session'', ''wait_pr_activity'', ''run_test'', ''notify'']"

definition allowed_keys :: "string \<Rightarrow> string list" where
  "allowed_keys a =
    (if a = ''start_session'' then [''harness'', ''prompt'', ''model'', ''effort'', ''skip_memory'']
     else if a = ''wait_session'' then [''session'', ''until'', ''timeout'']
     else if a = ''send_to_session'' then [''session'', ''prompt'', ''timeout'']
     else if a = ''wait_pr_activity'' then [''kind'', ''timeout'']
     else if a = ''run_test'' then [''test'', ''inputs'', ''timeout'']
     else if a = ''notify'' then [''title'', ''body'']
     else [])"

definition present_keys :: "raw_step \<Rightarrow> (string \<times> location) list" where
  "present_keys s =
    List.map_filter (\<lambda>(k, at). map_option (Pair k) at)
     [(''harness'', map_option sp_at (rs_harness s)), (''prompt'', map_option sp_at (rs_prompt s)),
      (''model'', map_option sp_at (rs_model s)), (''effort'', map_option sp_at (rs_effort s)),
      (''skip_memory'', map_option sp_at (rs_skip_memory s)), (''session'', map_option sp_at (rs_session s)),
      (''until'', map_option sp_at (rs_until s)), (''timeout'', map_option sp_at (rs_timeout s)),
      (''kind'', map_option sp_at (rs_kind s)), (''test'', map_option sp_at (rs_test s)),
      (''inputs'', map_option sp_at (rs_inputs s)), (''title'', map_option sp_at (rs_title s)),
      (''body'', map_option sp_at (rs_body s))]"

section \<open>The graph\<close>

text \<open>The needs of each step that name another step, each once: a map from step to its list.\<close>

type_synonym edges = "string \<Rightarrow> string list"

record need_check =
  nc_problems :: "problem list"
  nc_listed :: "string list"
  nc_edges :: edges

definition check_need :: "(string list \<Rightarrow> string list) \<Rightarrow> string list \<Rightarrow> string \<Rightarrow> string spanned \<Rightarrow>
    need_check \<Rightarrow> need_check" where
  "check_need order known i need c =
    (let name = sp_value need; wrong = (\<lambda>m. c\<lparr>nc_problems := nc_problems c @ [at_place (sp_at need) m]\<rparr>) in
     if name = i then wrong (''`'' @ i @ ''` cannot need itself.'')
     else if name \<notin> set known
     then wrong (''There is no step `'' @ name @ ''`'' @ suggestion name (order known))
     else if name \<in> set (nc_listed c) then wrong (''`'' @ name @ ''` is listed twice.'')
     else c\<lparr>nc_listed := name # nc_listed c, nc_edges := (nc_edges c)(i := nc_edges c i @ [name])\<rparr>)"

definition check_needs :: "(string list \<Rightarrow> string list) \<Rightarrow> string list \<Rightarrow> raw_step \<Rightarrow>
    problem list \<times> edges \<Rightarrow> problem list \<times> edges" where
  "check_needs order known s pe =
    (let c = fold (check_need order known (sp_value (rs_id s))) (rs_needs s)
        \<lparr>nc_problems = fst pe, nc_listed = [], nc_edges = snd pe\<rparr>
     in (nc_problems c, nc_edges c))"

text \<open>A depth-first search.  A visit goes at most as deep as there are steps, so fuel that is the number
  of steps and one more is never used up; \<open>visit_ok\<close> below shows it.\<close>

datatype mark = Fresh | Open | Done

type_synonym marks = "string \<Rightarrow> mark"

fun visit_next :: "(string \<Rightarrow> marks \<Rightarrow> string list option \<times> marks) \<Rightarrow> string list \<Rightarrow> string list \<Rightarrow>
    marks \<Rightarrow> string list option \<times> marks" where
  "visit_next deeper path [] marks = (None, marks)"
| "visit_next deeper path (n # ns) marks =
    (case marks n of
       Open \<Rightarrow> (Some ((if n \<in> set path then dropWhile (\<lambda>x. x \<noteq> n) path else path) @ [n]), marks)
     | Fresh \<Rightarrow>
         (case deeper n marks of
            (Some found, marks') \<Rightarrow> (Some found, marks')
          | (None, marks') \<Rightarrow> visit_next deeper path ns marks')
     | Done \<Rightarrow> visit_next deeper path ns marks)"

fun visit :: "nat \<Rightarrow> edges \<Rightarrow> string list \<Rightarrow> string \<Rightarrow> marks \<Rightarrow> string list option \<times> marks" where
  "visit 0 edges path node marks = (Some [], marks)"
| "visit (Suc fuel) edges path node marks =
    (case visit_next (visit fuel edges (path @ [node])) (path @ [node]) (edges node) (marks(node := Open)) of
       (Some found, marks') \<Rightarrow> (Some found, marks')
     | (None, marks') \<Rightarrow> (None, marks'(node := Done)))"

fun circle_from :: "nat \<Rightarrow> edges \<Rightarrow> string list \<Rightarrow> marks \<Rightarrow> string list option" where
  "circle_from fuel edges [] marks = None"
| "circle_from fuel edges (i # is) marks =
    (if marks i = Fresh
     then (case visit fuel edges [] i marks of
             (Some found, _) \<Rightarrow> Some found
           | (None, marks') \<Rightarrow> circle_from fuel edges is marks')
     else circle_from fuel edges is marks)"

definition circle :: "string list \<Rightarrow> edges \<Rightarrow> string list option" where
  "circle ids edges = circle_from (length ids + 1) edges ids (\<lambda>_. Fresh)"

text \<open>What is reached from a stack of steps; the last of the stack is taken first.\<close>

function reach :: "edges \<Rightarrow> string list \<Rightarrow> string list \<Rightarrow> string list \<Rightarrow> string list" where
  "reach edges keys [] reached = reached"
| "reach edges keys (x # xs) reached =
    (let stack = x # xs; top = last stack; rest = butlast stack in
     if top \<in> set reached then reach edges keys rest reached
     else reach edges keys (rest @ (if top \<in> set keys then edges top else [])) (top # reached))"
  by pat_completeness auto
termination
proof (relation "inv_image (less_than <*lex*> less_than)
    (\<lambda>(edges, keys, stack, reached). (length (filter (\<lambda>k. k \<notin> set reached) keys), length stack))", goal_cases)
  case (3 edges keys x xs reached stack top rest)
  show ?case
  proof (cases "top \<in> set keys")
    case True
    have "length (filter (\<lambda>k. k \<noteq> top) (filter (\<lambda>k. k \<notin> set reached) keys))
        < length (filter (\<lambda>k. k \<notin> set reached) keys)"
      using True 3(4) by (intro length_filter_less [of top]) auto
    moreover have "filter (\<lambda>k. k \<noteq> top) (filter (\<lambda>k. k \<notin> set reached) keys)
        = filter (\<lambda>k. k \<notin> set (top # reached)) keys"
      by (auto simp: filter_filter intro: filter_cong)
    ultimately show ?thesis by simp
  next
    case False
    have "filter (\<lambda>k. k \<notin> set (top # reached)) keys = filter (\<lambda>k. k \<notin> set reached) keys"
      using False by (intro filter_cong) auto
    then show ?thesis using False 3 by simp
  qed
qed auto

definition arrow :: string where
  "arrow = CHR '' '' # map char_of [0xE2, 0x86, 0x92 :: nat] @ '' ''"

definition check_graph :: "(string list \<Rightarrow> string list) \<Rightarrow> string list \<Rightarrow> raw_step list \<Rightarrow>
    problem list \<times> (string \<Rightarrow> string list)" where
  "check_graph order known steps =
    (let (problems, edges) = fold (check_needs order known) steps ([], \<lambda>_. []);
         ids = map (sp_value \<circ> rs_id) steps;
         circles =
           (case circle ids edges of
              None \<Rightarrow> []
            | Some c \<Rightarrow>
                (case find (\<lambda>s. sp_value (rs_id s) = hd c) steps of
                   Some s \<Rightarrow> [at_place (case rs_needs s of n # _ \<Rightarrow> sp_at n | [] \<Rightarrow> sp_at (rs_id s))
                     (''These steps wait for each other, so none of them could ever start: ''
                       @ join_with arrow c @ ''.'')]
                 | None \<Rightarrow> []))
     in (problems @ circles, \<lambda>i. if i \<in> set ids then reach edges ids (edges i) [] else []))"

section \<open>One step\<close>

record scope =
  sc_inputs :: "string \<Rightarrow> input_kind option"
  sc_input_keys :: "string list"
  sc_actions :: "string \<Rightarrow> string option"
  sc_action_keys :: "string list"
  sc_before :: "string list"

definition fields_of :: "string \<Rightarrow> string list option" where
  "fields_of n = map_of FIELDS n"

text \<open>What is wrong with a variable here, if anything.\<close>

definition resolve_step :: "(string list \<Rightarrow> string list) \<Rightarrow> scope \<Rightarrow> string \<Rightarrow> string \<Rightarrow> string \<Rightarrow> string option" where
  "resolve_step order sc raw i field =
    (case sc_actions sc i of
       None \<Rightarrow> Some (raw @ '': there is no step `'' @ i @ ''`'' @ suggestion i (order (sc_action_keys sc)))
     | Some a \<Rightarrow>
         if i \<notin> set (sc_before sc)
         then Some (raw @ '' is used before step `'' @ i @ ''` is sure to have run. Add `'' @ i
           @ ''` to this step's `needs`.'')
         else
           let produced = action_produces a in
           if field \<in> set produced then None
           else if produced = [] then Some (raw @ '': a `'' @ a @ ''` step leaves nothing to use.'')
           else Some (raw @ '': a `'' @ a @ ''` step leaves '' @ yaml_list produced @ ''.''))"

definition resolve :: "(string list \<Rightarrow> string list) \<Rightarrow> placeholder \<Rightarrow> scope \<Rightarrow> string option" where
  "resolve order var sc =
    (let raw = backticked (ph_raw var) in
     case ph_path var of
       [] \<Rightarrow> Some (raw @ '' is empty.'')
     | n # fs \<Rightarrow>
         if fields_of n \<noteq> None \<and> length fs = 1
         then (if hd fs \<in> set (the (fields_of n)) then None
           else Some (raw @ '': `'' @ n @ ''` has no `'' @ hd fs @ ''`. It has ''
             @ yaml_list (the (fields_of n)) @ ''.''))
         else if fields_of n \<noteq> None \<and> fs = []
         then Some (raw @ '' needs a field: ''
           @ yaml_list (map (\<lambda>f. n @ ''.'' @ f) (the (fields_of n))) @ ''.'')
         else if n \<in> set WHOLE
         then (if fs = [] then None
           else Some (raw @ '': `'' @ n @ ''` is used whole, as `{{ '' @ n @ '' }}`.''))
         else if n = ''inputs''
         then (if length fs = 1
           then (if sc_inputs sc (hd fs) \<noteq> None then None
             else Some (raw @ '': there is no input `'' @ hd fs @ ''`''
               @ suggestion (hd fs) (order (sc_input_keys sc))))
           else Some (raw @ '': write an input as `{{ inputs.<id> }}`.''))
         else if n = ''steps''
         then (case fs of
             [i, field] \<Rightarrow> resolve_step order sc raw i field
           | _ \<Rightarrow> Some (raw @ '': write a step's result as `{{ steps.<id>.<field> }}`.''))
         else Some (raw @ '': there is no `'' @ n @ ''`. Variables start with ''
           @ yaml_list (map fst FIELDS @ [''inputs'', ''steps''] @ WHOLE) @ ''.''))"

definition check_variable :: "reader \<Rightarrow> string \<Rightarrow> scope \<Rightarrow> location \<Rightarrow> string \<Rightarrow> placeholder \<Rightarrow> problem list" where
  "check_variable rd source sc field val var =
    (case resolve (rd_order rd) var sc of
       None \<Rightarrow> []
     | Some message \<Rightarrow>
         (case yaml_find source field val (ph_raw var) (ph_start var) of
            (line, column) \<Rightarrow> [problem_at line column message]))"

definition check_text :: "reader \<Rightarrow> string \<Rightarrow> scope \<Rightarrow> string spanned option \<Rightarrow> problem list \<times> string option" where
  "check_text rd source sc field =
    (case field of
       None \<Rightarrow> ([], None)
     | Some f \<Rightarrow>
         (case template_parse (sp_value f) of
            Inr _ \<Rightarrow> concat (map (check_variable rd source sc (sp_at f) (sp_value f)) (placeholders (sp_value f)))
          | Inl bad \<Rightarrow> map (\<lambda>b. case yaml_find source (sp_at f) (sp_value f) (mf_raw b) (mf_start b) of
              (line, column) \<Rightarrow> problem_at line column (mf_message b)) bad,
          Some (sp_value f)))"

definition check_required :: "reader \<Rightarrow> string \<Rightarrow> scope \<Rightarrow> raw_step \<Rightarrow> string spanned option \<Rightarrow> string \<Rightarrow> string \<Rightarrow>
    problem list \<times> string" where
  "check_required rd source sc s field key what =
    (case field of
       Some _ \<Rightarrow> (case check_text rd source sc field of
           (ps, v) \<Rightarrow> (ps, case v of Some x \<Rightarrow> x | None \<Rightarrow> []))
     | None \<Rightarrow> ([at_place (sp_at (rs_action s))
         (''A `'' @ sp_value (rs_action s) @ ''` step needs `'' @ key @ ''`: '' @ what @ ''.'')], []))"

text \<open>The one variable a text is, if it is one and nothing else.\<close>

definition only_variable :: "string \<Rightarrow> placeholder option" where
  "only_variable v = (case template_parse v of Inr [Var x] \<Rightarrow> Some x | _ \<Rightarrow> None)"

definition names_input :: "scope \<Rightarrow> input_kind \<Rightarrow> string \<Rightarrow> bool" where
  "names_input sc k v \<longleftrightarrow>
    (case only_variable v of
       None \<Rightarrow> False
     | Some x \<Rightarrow> length (ph_path x) = 2 \<and> ph_path x ! 0 = ''inputs'' \<and> sc_inputs sc (ph_path x ! 1) = Some k)"

definition has_braces :: "string \<Rightarrow> bool" where
  "has_braces v \<longleftrightarrow> find_str ''{{'' v \<noteq> None"

definition check_test :: "scope \<Rightarrow> raw_step \<Rightarrow> problem list \<times> string" where
  "check_test sc s =
    (case rs_test s of
       None \<Rightarrow> ([at_place (sp_at (rs_action s))
         ''A `run_test` step needs `test`: which smoke test to run, like `login` or `{{ inputs.suite }}`.''], [])
     | Some field \<Rightarrow>
         let v = trim (sp_value field) in
         if \<not> has_braces v
         then (if v = [] then [at_place (sp_at field) ''`test` is empty.''] else [], v)
         else (if names_input sc TestInput v then []
           else [at_place (sp_at field) ''`test` is a test id, or one `{{ inputs.<id> }}` naming an input of kind `test`, and nothing else.''], v))"

definition check_harness :: "scope \<Rightarrow> raw_step \<Rightarrow> problem list \<times> string" where
  "check_harness sc s =
    (case rs_harness s of
       None \<Rightarrow> ([at_place (sp_at (rs_action s))
         ''A `start_session` step needs `harness`: which agent to start, like `claude` or `{{ inputs.reviewer }}`.''], [])
     | Some field \<Rightarrow>
         let v = trim (sp_value field) in
         if \<not> has_braces v
         then (if is_name v then [] else [at_place (sp_at field)
           (''`'' @ v @ ''` is not a harness id, like `claude` or `codex`.'')], v)
         else (if names_input sc HarnessInput v then []
           else [at_place (sp_at field) ''`harness` is a harness id, or one `{{ inputs.<id> }}` naming an input of kind `harness`, and nothing else.''], v))"

definition check_test_inputs :: "reader \<Rightarrow> string \<Rightarrow> scope \<Rightarrow> raw_step \<Rightarrow> problem list \<times> texts" where
  "check_test_inputs rd source sc s =
    (case rs_inputs s of
       None \<Rightarrow> ([], [])
     | Some field \<Rightarrow>
         (concat (map (\<lambda>(_, v). fst (check_text rd source sc (Some v))) (sp_value field)),
          map (\<lambda>(n, v). (n, sp_value v)) (sp_value field)))"

definition long_dash :: string where
  "long_dash = map char_of [0xE2, 0x80, 0x94 :: nat]"

definition session_usage :: string where
  "session_usage = ''`session` is `origin` '' @ long_dash @ '' the workspace's own agent '' @ long_dash
    @ '' or `{{ steps.<id>.session }}` for a session this workflow started.''"

definition check_session :: "reader \<Rightarrow> string \<Rightarrow> scope \<Rightarrow> raw_step \<Rightarrow> problem list \<times> session_ref" where
  "check_session rd source sc s =
    (case rs_session s of
       None \<Rightarrow> ([at_place (sp_at (rs_action s))
         (''A `'' @ sp_value (rs_action s) @ ''` step needs `session`. '' @ session_usage)], Origin)
     | Some field \<Rightarrow>
         let v = trim (sp_value field); wrong = (\<lambda>m. [at_place (sp_at field) m]) in
         if v = ''origin'' then ([], Origin)
         else (case only_variable v of
             None \<Rightarrow> (wrong session_usage, Origin)
           | Some x \<Rightarrow>
               if \<not> (length (ph_path x) = 3 \<and> ph_path x ! 0 = ''steps'') then (wrong session_usage, Origin)
               else
                 let i = ph_path x ! 1 in
                 (if ph_path x ! 2 \<noteq> ''session'' then wrong session_usage
                  else if sc_actions sc i = None
                  then wrong (''There is no step `'' @ i @ ''`'' @ suggestion i (rd_order rd (sc_action_keys sc)))
                  else if sc_actions sc i \<noteq> Some ''start_session''
                  then wrong (''`'' @ i @ ''` is not a `start_session` step, so it has no session.'')
                  else check_variable rd source sc (sp_at field) v x,
                  FromStep i)))"

definition check_timeout :: "reader \<Rightarrow> raw_step \<Rightarrow> problem list \<times> nat option" where
  "check_timeout rd s =
    (case rs_timeout s of
       None \<Rightarrow> ([], None)
     | Some field \<Rightarrow>
         (case yaml_duration (rd_upper rd) (sp_value field) ''a timeout'' of
            Inr n \<Rightarrow> ([], if n < 2 ^ 32 then Some n else None)
          | Inl message \<Rightarrow> ([at_place (sp_at field) message], None)))"

definition check_until :: "raw_step \<Rightarrow> problem list \<times> until" where
  "check_until s =
    (case rs_until s of
       None \<Rightarrow> ([], Settled)
     | Some u \<Rightarrow>
         if sp_value u = ''settled'' then ([], Settled)
         else if sp_value u = ''exited'' then ([], UntilExited)
         else ([at_place (sp_at u)
           (''`'' @ sp_value u @ ''` is not a thing to wait for. Use `settled` or `exited`.'')], Settled))"

definition check_kind :: "raw_step \<Rightarrow> problem list \<times> pr_activity" where
  "check_kind s =
    (case rs_kind s of
       None \<Rightarrow> ([], AnyActivity)
     | Some k \<Rightarrow>
         if sp_value k = ''any'' then ([], AnyActivity)
         else if sp_value k = ''review'' then ([], Review)
         else if sp_value k = ''comment'' then ([], Comment)
         else ([at_place (sp_at k) (''`'' @ sp_value k
           @ ''` is not a kind of pull request activity. Use `review`, `comment` or `any`.'')], AnyActivity))"

definition check_action :: "reader \<Rightarrow> string \<Rightarrow> scope \<Rightarrow> raw_step \<Rightarrow> problem list \<times> action" where
  "check_action rd source sc s =
    (let a = sp_value (rs_action s); txt = check_text rd source sc in
     if a = ''start_session'' then
       (fst (check_harness sc s) @ fst (txt (rs_prompt s)) @ fst (txt (rs_model s)) @ fst (txt (rs_effort s)),
        StartSession (snd (check_harness sc s)) (snd (txt (rs_prompt s))) (snd (txt (rs_model s)))
          (snd (txt (rs_effort s))) (case rs_skip_memory s of Some b \<Rightarrow> sp_value b | None \<Rightarrow> False))
     else if a = ''wait_session'' then
       (fst (check_session rd source sc s) @ fst (check_until s) @ fst (check_timeout rd s),
        WaitSession (snd (check_session rd source sc s)) (snd (check_until s)) (snd (check_timeout rd s)))
     else if a = ''send_to_session'' then
       (fst (check_session rd source sc s)
         @ fst (check_required rd source sc s (rs_prompt s) ''prompt'' ''the message to send'')
         @ fst (check_timeout rd s),
        SendToSession (snd (check_session rd source sc s))
          (snd (check_required rd source sc s (rs_prompt s) ''prompt'' ''the message to send''))
          (snd (check_timeout rd s)))
     else if a = ''wait_pr_activity'' then
       (fst (check_kind s) @ fst (check_timeout rd s),
        WaitPrActivity (snd (check_kind s)) (snd (check_timeout rd s)))
     else if a = ''run_test'' then
       (fst (check_test sc s) @ fst (check_test_inputs rd source sc s) @ fst (check_timeout rd s),
        RunTest (snd (check_test sc s)) (snd (check_test_inputs rd source sc s)) (snd (check_timeout rd s)))
     else
       (fst (check_required rd source sc s (rs_title s) ''title'' ''what the notification says'')
         @ fst (txt (rs_body s)),
        Notify (snd (check_required rd source sc s (rs_title s) ''title'' ''what the notification says''))
          (snd (txt (rs_body s)))))"

definition check_step :: "reader \<Rightarrow> string \<Rightarrow> scope \<Rightarrow> raw_step \<Rightarrow> problem list \<times> flow_step" where
  "check_step rd source sc s =
    (let a = sp_value (rs_action s); i = sp_value (rs_id s); needs = map sp_value (rs_needs s) in
     if a \<notin> set ACTIONS
     then ([at_place (sp_at (rs_action s)) (''`'' @ a @ ''` is not an action. The actions are ''
         @ join_with '', '' (map backticked ACTIONS) @ ''.'')],
       \<lparr>st_id = i, st_needs = needs, st_action = Notify [] None\<rparr>)
     else
       (map (\<lambda>(k, at). at_place at (''`'' @ k @ ''` is not something a `'' @ a @ ''` step takes.''))
           (filter (\<lambda>(k, _). k \<notin> set (allowed_keys a)) (present_keys s))
         @ fst (check_action rd source sc s),
        \<lparr>st_id = i, st_needs = needs, st_action = snd (check_action rd source sc s)\<rparr>))"

section \<open>The whole file\<close>

text \<open>The ids of the steps: a second step with an id is a problem, and does not count.\<close>

record step_ids =
  si_problems :: "problem list"
  si_lines :: "(string \<times> nat) list"
  si_actions :: "string \<Rightarrow> string option"

definition check_step_id :: "raw_step \<Rightarrow> step_ids \<Rightarrow> step_ids" where
  "check_step_id s c =
    (let i = sp_value (rs_id s); at = sp_at (rs_id s);
         named = (if is_name i then [] else [at_place at (''`'' @ i
           @ ''` cannot be a step's id. Start with a letter; use lowercase letters, digits, `_` and `-`.'')])
     in case map_of (si_lines c) i of
          Some line \<Rightarrow> c\<lparr>si_problems := si_problems c @ named
            @ [at_place at (''There is already a step `'' @ i @ ''`, on line '' @ num line @ ''.'')]\<rparr>
        | None \<Rightarrow> \<lparr>si_problems = si_problems c @ named,
            si_lines = si_lines c @ [(i, loc_line at)],
            si_actions = (si_actions c)(i \<mapsto> sp_value (rs_action s))\<rparr>)"

definition first_kinds :: "input list \<Rightarrow> string \<Rightarrow> input_kind option" where
  "first_kinds ins = map_of (map (\<lambda>i. (in_id i, in_kind i)) ins)"

definition check_steps :: "reader \<Rightarrow> string \<Rightarrow> raw_step list spanned \<Rightarrow> input list \<Rightarrow> problem list \<times> flow_step list" where
  "check_steps rd source raw ins =
    (if sp_value raw = [] then ([at_place (sp_at raw) ''A workflow needs at least one step.''], [])
     else
       let c = fold check_step_id (sp_value raw) \<lparr>si_problems = [], si_lines = [], si_actions = Map.empty\<rparr>;
           known = map fst (si_lines c);
           (graph_problems, before) = check_graph (rd_order rd) known (sp_value raw);
           scope_of = (\<lambda>s. \<lparr>sc_inputs = first_kinds ins, sc_input_keys = remdups (map in_id ins),
             sc_actions = si_actions c, sc_action_keys = known, sc_before = before (sp_value (rs_id s))\<rparr>);
           checked = map (\<lambda>s. check_step rd source (scope_of s) s) (sp_value raw)
       in (si_problems c @ graph_problems @ concat (map fst checked), map snd checked))"

definition input_kind_of :: "raw_input \<Rightarrow> problem list \<times> input_kind" where
  "input_kind_of r =
    (let k = sp_value (ri_kind r) in
     if k = ''harness'' then ([], HarnessInput)
     else if k = ''test'' then ([], TestInput)
     else if k = ''text'' then ([], TextInput)
     else if k = ''choice'' then ([], ChoiceInput)
     else ([at_place (sp_at (ri_kind r)) (''`'' @ k
       @ ''` is not a kind of input. Use `harness`, `test`, `text` or `choice`.'')], TextInput))"

fun twice :: "string list \<Rightarrow> string spanned list \<Rightarrow> problem list" where
  "twice seen [] = []"
| "twice seen (o1 # os) =
    (if sp_value o1 \<in> set seen
     then [at_place (sp_at o1) (''`'' @ sp_value o1 @ ''` is listed twice.'')] else [])
    @ twice (sp_value o1 # seen) os"

definition check_options :: "raw_input \<Rightarrow> input_kind \<Rightarrow> problem list \<times> string list" where
  "check_options r k =
    (case (ri_options r, k = ChoiceInput) of
       (Some given, True) \<Rightarrow>
         (twice [] (sp_value given)
           @ (if sp_value given = [] then [at_place (sp_at given) ''A choice needs at least one option.''] else []),
          map sp_value (sp_value given))
     | (None, True) \<Rightarrow>
         ([at_place (sp_at (ri_kind r)) (''The choice `'' @ sp_value (ri_id r)
           @ ''` needs `options`: the answers to choose from.'')], [])
     | (Some given, False) \<Rightarrow> ([at_place (sp_at given) ''Only a `choice` input has `options`.''], [])
     | (None, False) \<Rightarrow> ([], []))"

definition input_label :: "raw_input \<Rightarrow> string" where
  "input_label r =
    (case ri_label r of
       Some l \<Rightarrow> if trim l = [] then sp_value (ri_id r) else trim l
     | None \<Rightarrow> sp_value (ri_id r))"

definition check_input :: "raw_input \<Rightarrow> (problem list \<times> (string \<Rightarrow> location option)) \<times> input list \<Rightarrow>
    (problem list \<times> (string \<Rightarrow> location option)) \<times> input list" where
  "check_input r acc =
    (case acc of ((ps, seen), ins) \<Rightarrow>
      let i = sp_value (ri_id r); at = sp_at (ri_id r);
          named = (if is_name i then [] else [at_place at (''`'' @ i
            @ ''` cannot be an input's id. Start with a letter; use lowercase letters, digits, `_` and `-`.'')]);
          again = (case seen i of
              Some l \<Rightarrow> [at_place at (''There is already an input `'' @ i @ ''`, on line '' @ num (loc_line l) @ ''.'')]
            | None \<Rightarrow> []);
          (kind_problems, k) = input_kind_of r;
          (option_problems, options) = check_options r k;
          default_problems = (case ri_default r of
              Some d \<Rightarrow>
                if k = ChoiceInput \<and> options \<noteq> [] \<and> sp_value d \<notin> set options
                then [at_place (sp_at d) (''`'' @ sp_value d @ ''` is not one of the options.'')] else []
            | None \<Rightarrow> [])
      in ((ps @ named @ again @ kind_problems @ option_problems @ default_problems, seen(i \<mapsto> at)),
          ins @ [\<lparr>in_id = i, in_kind = k, in_label = input_label r, in_required = ri_required r,
            in_default = map_option sp_value (ri_default r), in_options = options\<rparr>]))"

definition check_input_list :: "raw_input list \<Rightarrow> problem list \<times> input list" where
  "check_input_list raw =
    (case fold check_input raw (([], Map.empty), []) of ((ps, _), ins) \<Rightarrow> (ps, ins))"

definition check_trigger :: "raw_trigger \<Rightarrow> problem list \<times> trigger" where
  "check_trigger r =
    ((if sp_value (rt_kind r) = ''manual'' then []
      else [at_place (sp_at (rt_kind r)) (''`'' @ sp_value (rt_kind r)
        @ ''` is not a trigger this Yardsort has. Only `manual` for now.'')])
     @ (case rt_context r of
          Some c \<Rightarrow>
            if sp_value c = ''workspace'' then []
            else [at_place (sp_at c) (''`'' @ sp_value c
              @ ''` is not a context this Yardsort has. Only `workspace` for now.'')]
        | None \<Rightarrow> []),
     \<lparr>trg_kind = Manual, trg_context = WorkspaceRun\<rparr>)"

definition check_workflow :: "reader \<Rightarrow> string \<Rightarrow> raw_workflow \<Rightarrow> problem list \<times> workflow" where
  "check_workflow rd source r =
    (let (trigger_problems, trg) = check_trigger (sp_value (rw_trigger r));
         (input_problems, ins) = check_input_list (rw_inputs r);
         (step_problems, steps) = check_steps rd source (rw_steps r) ins
     in ((if is_id (sp_value (rw_id r)) then []
          else [at_place (sp_at (rw_id r)) (''`'' @ sp_value (rw_id r)
            @ ''` cannot be an id. Use lowercase letters, digits and `-`, like `code-review`.'')])
         @ (if trim (sp_value (rw_name r)) = [] then [at_place (sp_at (rw_name r)) ''The name is empty.''] else [])
         @ (if sp_value (rw_version r) = SCHEMA_VERSION then []
            else [at_place (sp_at (rw_version r))
              (''`version` is '' @ num SCHEMA_VERSION @ '' for this Yardsort.'')])
         @ trigger_problems @ input_problems @ step_problems,
         \<lparr>wf_id = sp_value (rw_id r), wf_name = trim (sp_value (rw_name r)),
           wf_description = not_blank (map_option trim (rw_description r)),
           wf_version = sp_value (rw_version r), wf_trigger = trg, wf_inputs = ins, wf_steps = steps\<rparr>))"

definition in_file_order :: "problem list \<Rightarrow> problem list" where
  "in_file_order ps =
    remdups_adj
      (sort_key (\<lambda>p. case pb_line p of Some n \<Rightarrow> n | None \<Rightarrow> 0)
        (sort_key (\<lambda>p. case pb_column p of Some n \<Rightarrow> n | None \<Rightarrow> 0) ps))"

definition workflow_parse :: "reader \<Rightarrow> string \<Rightarrow> invalid + workflow" where
  "workflow_parse rd txt =
    (let hg = yaml_heading (rd_head rd) txt ''workflow'' SCHEMA_VERSION;
         refuse = (\<lambda>ps. \<lparr>iv_id = hg_id hg, iv_name = hg_name hg, iv_problems = ps\<rparr>)
     in case hg_later_version hg of
          Some later \<Rightarrow> Inl (refuse [later])
        | None \<Rightarrow>
            (case rd_raw rd txt of
               Inl e \<Rightarrow> Inl (refuse [from_serde (rd_upper rd) e])
             | Inr r \<Rightarrow>
                 (case check_workflow rd txt r of
                    (problems, flow) \<Rightarrow>
                      if problems = [] then Inr flow
                      else Inl \<lparr>iv_id = Some (wf_id flow), iv_name = Some (wf_name flow),
                        iv_problems = in_file_order problems\<rparr>)))"

text \<open>Where each step is, for a chart; a step whose id is used twice is nowhere.\<close>

definition step_lines :: "(string \<Rightarrow> string spanned list option) \<Rightarrow> string \<Rightarrow> string \<Rightarrow> nat option" where
  "step_lines read_ids txt =
    (case read_ids txt of
       None \<Rightarrow> Map.empty
     | Some is \<Rightarrow> (\<lambda>i. case filter (\<lambda>x. sp_value x = i) is of
         [x] \<Rightarrow> Some (as_u32 (loc_line (sp_at x))) | _ \<Rightarrow> None))"

section \<open>A search that finds no circle\<close>

text \<open>When the search ends, the steps that are done can be listed so that each comes after all it
  needs.\<close>

definition listed :: "edges \<Rightarrow> string list \<Rightarrow> bool" where
  "listed edges done_list \<longleftrightarrow>
    distinct done_list
    \<and> (\<forall>xs n ys. done_list = xs @ n # ys \<longrightarrow> set (edges n) \<subseteq> set xs)"

definition all_listed :: "edges \<Rightarrow> marks \<Rightarrow> bool" where
  "all_listed edges marks \<longleftrightarrow> (\<exists>ds. set ds = {n. marks n = Done} \<and> listed edges ds)"

definition grows :: "marks \<Rightarrow> marks \<Rightarrow> bool" where
  "grows marks marks' \<longleftrightarrow>
    (\<forall>n. marks n \<noteq> Fresh \<longrightarrow> marks' n = marks n) \<and> (\<forall>n. marks' n = Open \<longrightarrow> marks n = Open)"

lemma grows_trans: "grows a b \<Longrightarrow> grows b c \<Longrightarrow> grows a c"
  unfolding grows_def by metis

lemma grows_Done: "grows a b \<Longrightarrow> a n = Done \<Longrightarrow> b n = Done"
  unfolding grows_def by simp

lemma grows_Open: "grows a b \<Longrightarrow> {n. b n = Open} = {n. a n = Open}"
  unfolding grows_def by (metis mark.distinct(1))

lemma listed_snoc:
  assumes "listed edges ds" and "n \<notin> set ds" and "set (edges n) \<subseteq> set ds"
  shows "listed edges (ds @ [n])"
  using assms unfolding listed_def
proof (intro conjI allI impI)
  fix xs m ys assume split: "ds @ [n] = xs @ m # ys"
  show "set (edges m) \<subseteq> set xs"
  proof (cases ys rule: rev_cases)
    case Nil
    then show ?thesis using split assms(3) by simp
  next
    case (snoc zs z)
    then have "ds = xs @ m # zs" using split by simp
    then show ?thesis using assms(1) unfolding listed_def by blast
  qed
qed auto

lemma visit_listed:
  "visit fuel edges path node marks = (None, marks') \<Longrightarrow> marks node = Fresh \<Longrightarrow> all_listed edges marks \<Longrightarrow>
    all_listed edges marks' \<and> grows marks marks' \<and> marks' node = Done"
proof (induction fuel arbitrary: path node marks marks')
  case (Suc fuel)
  let ?go = "visit fuel edges (path @ [node])"
  have nexts: "all_listed edges m' \<and> grows m m' \<and> (\<forall>n\<in>set ns. m' n = Done)"
    if "visit_next ?go p ns m = (None, m')" "all_listed edges m" for p ns m m'
    using that
  proof (induction ns arbitrary: m)
    case Nil
    then show ?case by (simp add: grows_def)
  next
    case (Cons n ns)
    show ?case
    proof (cases "m n")
      case Fresh
      then obtain m1 where m1: "?go n m = (None, m1)" and rest: "visit_next ?go p ns m1 = (None, m')"
        using Cons.prems(1) by (auto split: prod.splits option.splits)
      have here: "all_listed edges m1" "grows m m1" "m1 n = Done"
        using Suc.IH [OF m1 Fresh Cons.prems(2)] by auto
      then have "all_listed edges m'" "grows m1 m'" "\<forall>n\<in>set ns. m' n = Done"
        using Cons.IH [OF rest] by auto
      moreover from this(2) have "grows m m'" "m' n = Done"
        using here grows_trans [of m m1 m'] grows_Done [of m1 m' n] by blast+
      ultimately show ?thesis by simp
    next
      case Open
      then show ?thesis using Cons.prems(1) by simp
    next
      case Done
      then have "all_listed edges m'" "grows m m'" "\<forall>n\<in>set ns. m' n = Done"
        using Cons by auto
      then show ?thesis using Done grows_Done by auto
    qed
  qed
  obtain m1 where m1: "visit_next ?go (path @ [node]) (edges node) (marks(node := Open)) = (None, m1)"
    and marks': "marks' = m1(node := Done)"
    using Suc.prems(1) by (auto split: prod.splits option.splits)
  have "{n. (marks(node := Open)) n = Done} = {n. marks n = Done}"
    using Suc.prems(2) by auto
  then have "all_listed edges (marks(node := Open))"
    using Suc.prems(3) by (simp add: all_listed_def)
  then have after: "all_listed edges m1" "grows (marks(node := Open)) m1" "\<forall>n\<in>set (edges node). m1 n = Done"
    using nexts [OF m1] by auto
  obtain ds where ds: "set ds = {n. m1 n = Done}" "listed edges ds"
    using after(1) by (auto simp: all_listed_def)
  have opened: "m1 node = Open" using after(2) by (auto simp: grows_def)
  have "set (ds @ [node]) = {n. marks' n = Done}" using ds(1) opened by (auto simp: marks')
  moreover have "listed edges (ds @ [node])"
    using ds opened after(3) by (intro listed_snoc) auto
  ultimately have "all_listed edges marks'" unfolding all_listed_def by blast
  moreover have "grows marks marks'"
    using after(2) Suc.prems(2) by (auto simp: grows_def marks' split: if_splits)
  moreover have "marks' node = Done" by (simp add: marks')
  ultimately show ?case by blast
qed simp

lemma circle_from_listed:
  assumes "circle_from fuel edges is marks = None" and "all_listed edges marks" and "\<forall>n. marks n \<noteq> Open"
  shows "\<exists>ds. set is \<union> {n. marks n = Done} \<subseteq> set ds \<and> listed edges ds"
  using assms
proof (induction "is" arbitrary: marks)
  case Nil
  then show ?case by (auto simp: all_listed_def)
next
  case (Cons i "is")
  show ?case
  proof (cases "marks i = Fresh")
    case True
    then obtain m1 where m1: "visit fuel edges [] i marks = (None, m1)" and rest: "circle_from fuel edges is m1 = None"
      using Cons.prems(1) by (auto split: prod.splits option.splits)
    have here: "all_listed edges m1" "grows marks m1" "m1 i = Done"
      using visit_listed [OF m1 True Cons.prems(2)] by auto
    have "\<forall>n. m1 n \<noteq> Open" using here(2) Cons.prems(3) by (auto simp: grows_def)
    then obtain ds where ds: "set is \<union> {n. m1 n = Done} \<subseteq> set ds" "listed edges ds"
      using Cons.IH [OF rest here(1)] by blast
    have "{n. marks n = Done} \<subseteq> {n. m1 n = Done}" using grows_Done [OF here(2)] by blast
    then have "set (i # is) \<union> {n. marks n = Done} \<subseteq> set ds" using ds(1) here(3) by auto
    then show ?thesis using ds(2) by blast
  next
    case False
    then have i_done: "marks i = Done" using Cons.prems(3) by (cases "marks i") auto
    have "circle_from fuel edges is marks = None" using Cons.prems(1) False by simp
    then obtain ds where "set is \<union> {n. marks n = Done} \<subseteq> set ds" "listed edges ds"
      using Cons.IH Cons.prems(2,3) by blast
    then show ?thesis using i_done by auto
  qed
qed

text \<open>The place of a step in that list goes down along its needs.\<close>

definition place_in :: "string list \<Rightarrow> string \<Rightarrow> nat" where
  "place_in ds n = length (takeWhile (\<lambda>x. x \<noteq> n) ds)"

lemma place_in_needs:
  assumes "listed edges ds" and "n \<in> set ds" and "need \<in> set (edges n)"
  shows "place_in ds need < place_in ds n"
proof -
  obtain xs ys where split: "ds = xs @ n # ys" "n \<notin> set xs" by (meson assms(2) split_list_first)
  then have "takeWhile (\<lambda>x. x \<noteq> n) ds = xs" by (auto simp: takeWhile_tail intro: takeWhile_eq_all_conv [THEN iffD2])
  then have "place_in ds n = length xs" by (simp add: place_in_def)
  moreover have "need \<in> set xs" using assms(1,3) split(1) unfolding listed_def by blast
  then obtain us vs where us: "xs = us @ need # vs" "need \<notin> set us" by (meson split_list_first)
  then have "takeWhile (\<lambda>x. x \<noteq> need) ds = us"
    unfolding split(1) by (auto simp: takeWhile_tail intro: takeWhile_eq_all_conv [THEN iffD2])
  then have "place_in ds need < length xs" using us(1) by (simp add: place_in_def)
  ultimately show ?thesis by simp
qed

lemma circle_None_rank:
  assumes "circle ids edges = None"
  shows "\<exists>rank. \<forall>n\<in>set ids. \<forall>need\<in>set (edges n). rank need < (rank n :: nat)"
proof -
  have "all_listed edges (\<lambda>_. Fresh)" by (auto simp: all_listed_def listed_def intro: exI [of _ "[]"])
  from circle_from_listed [OF assms [unfolded circle_def] this]
  obtain ds where "set ids \<subseteq> set ds" "listed edges ds" by auto
  then show ?thesis using place_in_needs by blast
qed

section \<open>Every circle that is reported is one\<close>

fun chained :: "edges \<Rightarrow> string list \<Rightarrow> bool" where
  "chained edges (a # b # xs) \<longleftrightarrow> b \<in> set (edges a) \<and> chained edges (b # xs)"
| "chained edges _ \<longleftrightarrow> True"

definition is_circle :: "edges \<Rightarrow> string list \<Rightarrow> bool" where
  "is_circle edges c \<longleftrightarrow> 2 \<le> length c \<and> hd c = last c \<and> chained edges c"

lemma chained_append:
  "chained edges (xs @ [a, b]) \<longleftrightarrow> chained edges (xs @ [a]) \<and> b \<in> set (edges a)"
  by (induction edges xs rule: chained.induct) auto

lemma chained_suffix: "chained edges (xs @ ys) \<Longrightarrow> chained edges ys"
proof (induction xs)
  case (Cons x xs)
  then have "chained edges (xs @ ys)" by (cases "xs @ ys") auto
  then show ?case by (rule Cons.IH)
qed simp

text \<open>When the search goes back to a step on its path, the path from there is a circle.\<close>

lemma path_circle:
  assumes "chained edges (path @ [n])" and "n \<in> set path"
  shows "is_circle edges (dropWhile (\<lambda>x. x \<noteq> n) path @ [n])"
proof -
  obtain xs ys where split: "path = xs @ n # ys" "n \<notin> set xs" by (meson assms(2) split_list_first)
  then have "dropWhile (\<lambda>x. x \<noteq> n) path = n # ys" by (induction xs arbitrary: path) auto
  moreover have "chained edges ((n # ys) @ [n])"
    using assms(1) chained_suffix [of edges xs] by (simp add: split(1))
  ultimately show ?thesis by (simp add: is_circle_def)
qed

definition search_ok :: "edges \<Rightarrow> string set \<Rightarrow> string list \<Rightarrow> marks \<Rightarrow> bool" where
  "search_ok edges U path marks \<longleftrightarrow>
    {n. marks n = Open} = set path \<and> distinct path \<and> set path \<subseteq> U \<and> all_listed edges marks"

lemma search_ok_fresh:
  assumes "search_ok edges U path marks" and "marks node = Fresh"
  shows "node \<notin> set path"
proof
  assume "node \<in> set path"
  then have "marks node = Open" using assms(1) by (auto simp: search_ok_def)
  then show False using assms(2) by simp
qed

lemma visit_ok:
  assumes "visit fuel edges path node marks = (Some c, marks')"
    and "search_ok edges U path marks" and "marks node = Fresh" and "node \<in> U"
    and "chained edges (path @ [node])" and "card U < length path + fuel"
    and "finite U" and "\<forall>n. set (edges n) \<subseteq> U"
  shows "is_circle edges c"
  using assms
proof (induction fuel arbitrary: path node marks marks')
  case 0
  have "node \<notin> set path" by (rule search_ok_fresh [OF 0(2,3)])
  then have "distinct (path @ [node])" "set (path @ [node]) \<subseteq> U"
    using 0 by (auto simp: search_ok_def)
  then have "length (path @ [node]) \<le> card U"
    using 0(7) by (metis card_mono distinct_card)
  then show ?case using 0(6) by simp
next
  case (Suc fuel)
  let ?path = "path @ [node]"
  have opened: "search_ok edges U ?path (marks(node := Open))"
  proof -
    have "{n. (marks(node := Open)) n = Done} = {n. marks n = Done}" using Suc.prems(3) by auto
    then have "all_listed edges (marks(node := Open))"
      using Suc.prems(2) by (simp add: search_ok_def all_listed_def)
    moreover have "{n. (marks(node := Open)) n = Open} = set ?path"
      using Suc.prems(2) by (auto simp: search_ok_def)
    ultimately show ?thesis
      using Suc.prems(2,4) search_ok_fresh [OF Suc.prems(2,3)] by (simp add: search_ok_def)
  qed
  have nexts: "is_circle edges c"
    if "visit_next (visit fuel edges ?path) ?path ns m = (Some c, m')" "search_ok edges U ?path m"
      "set ns \<subseteq> set (edges node)" for ns m m'
    using that
  proof (induction ns arbitrary: m)
    case (Cons n ns)
    have n: "n \<in> set (edges node)" "n \<in> U" using Cons.prems(3) Suc.prems(8) by auto
    then have chain: "chained edges (?path @ [n])"
      using Suc.prems(5) chained_append [of edges path node n] by simp
    show ?case
    proof (cases "m n")
      case Fresh
      show ?thesis
      proof (cases "visit fuel edges ?path n m")
        case (Pair r m1)
        show ?thesis
        proof (cases r)
          case (Some found)
          then have "found = c" using Cons.prems(1) Fresh Pair by simp
          then show ?thesis
            using Suc.IH [of ?path n m m1] Pair Some Fresh Cons.prems(2) n(2) chain Suc.prems(6,7,8) by simp
        next
          case None
          then have "all_listed edges m1" "grows m m1"
            using visit_listed [of fuel edges ?path n m m1] Pair Fresh Cons.prems(2) by (auto simp: search_ok_def)
          then have "search_ok edges U ?path m1"
            using Cons.prems(2) grows_Open [of m m1] by (simp add: search_ok_def)
          then show ?thesis using Cons Fresh Pair None by simp
        qed
      qed
    next
      case Open
      then have "n \<in> set ?path" using Cons.prems(2) by (auto simp: search_ok_def)
      then show ?thesis using path_circle [OF chain] Cons.prems(1) Open by auto
    next
      case Done
      then show ?thesis using Cons by simp
    qed
  qed simp
  show ?case
    using Suc.prems(1) nexts [OF _ opened subset_refl]
    by (auto split: prod.splits option.splits)
qed

lemma circle_from_ok:
  assumes "circle_from fuel edges is marks = Some c" and "\<forall>n. marks n \<noteq> Open" and "all_listed edges marks"
    and "set is \<subseteq> U" and "finite U" and "card U < fuel" and "\<forall>n. set (edges n) \<subseteq> U"
  shows "is_circle edges c"
  using assms
proof (induction "is" arbitrary: marks)
  case (Cons i "is")
  have ok: "search_ok edges U [] marks" using Cons.prems(2,3) by (auto simp: search_ok_def)
  show ?case
  proof (cases "marks i = Fresh")
    case True
    show ?thesis
    proof (cases "visit fuel edges [] i marks")
      case (Pair r m1)
      show ?thesis
      proof (cases r)
        case (Some found)
        then show ?thesis using visit_ok [OF Pair [unfolded Some] ok True] Cons.prems True Pair by auto
      next
        case None
        then have "all_listed edges m1" "grows marks m1"
          using visit_listed [OF Pair [unfolded None] True Cons.prems(3)] by auto
        then show ?thesis using Cons True Pair None by (auto simp: grows_def)
      qed
    qed
  next
    case False
    then show ?thesis using Cons by simp
  qed
qed simp

text \<open>The search reports a circle exactly when there is one, and never runs out of fuel.\<close>

lemma rank_no_circle:
  assumes "\<forall>n. \<forall>need\<in>set (edges n). rank need < (rank n :: nat)" and "is_circle edges c"
  shows False
proof -
  have down: "rank (last (a # b # xs)) < rank a" if "chained edges (a # b # xs)" for a b xs
    using that
  proof (induction xs arbitrary: a b)
    case Nil
    then show ?case using assms(1) by simp
  next
    case (Cons x xs)
    then have "rank (last (b # x # xs)) < rank b" "rank b < rank a" using assms(1) by auto
    then show ?case by simp
  qed
  obtain a b xs where c: "c = a # b # xs"
    using assms(2) unfolding is_circle_def by (cases c; cases "tl c") auto
  then have "rank (last c) < rank a" "last c = a"
    using assms(2) down unfolding is_circle_def by auto
  then show False by simp
qed

lemma circle_iff:
  assumes "\<forall>n. set (edges n) \<subseteq> set ids" and "\<forall>n. n \<notin> set ids \<longrightarrow> edges n = []"
  shows "case circle ids edges of Some c \<Rightarrow> is_circle edges c | None \<Rightarrow> \<not> (\<exists>c. is_circle edges c)"
proof (cases "circle ids edges")
  case None
  then obtain rank where "\<forall>n\<in>set ids. \<forall>need\<in>set (edges n). rank need < (rank n :: nat)"
    using circle_None_rank by blast
  then have "\<forall>n. \<forall>need\<in>set (edges n). rank need < rank n"
    using assms(2) by (metis empty_iff list.set(1))
  then have "\<not> is_circle edges c" for c using rank_no_circle by blast
  then show ?thesis using None by simp
next
  case (Some c)
  have "card (set ids) < length ids + 1" using card_length [of ids] by simp
  moreover have "all_listed edges (\<lambda>_. Fresh)"
    by (auto simp: all_listed_def listed_def intro: exI [of _ "[]"])
  ultimately have "is_circle edges c"
    using circle_from_ok [OF Some [unfolded circle_def], of "set ids"] assms(1) by simp
  then show ?thesis using Some by simp
qed

section \<open>A file without a problem\<close>

lemma fold_check_need:
  assumes "c' = fold (check_need order known i) needs c"
  shows "\<exists>ps. nc_problems c' = nc_problems c @ ps
    \<and> (ps = [] \<longrightarrow> sp_value ` set needs \<subseteq> set (nc_edges c' i) \<and> sp_value ` set needs \<subseteq> set known)
    \<and> (\<forall>n. set (nc_edges c n) \<subseteq> set (nc_edges c' n))
    \<and> (\<forall>n. set (nc_edges c' n) \<subseteq> set (nc_edges c n) \<union> (if n = i then set known else {}))"
  using assms
proof (induction needs arbitrary: c)
  case (Cons need needs)
  let ?c = "check_need order known i need c"
  have one: "\<exists>ps. nc_problems ?c = nc_problems c @ ps
    \<and> (ps = [] \<longrightarrow> sp_value need \<in> set (nc_edges ?c i) \<and> sp_value need \<in> set known)
    \<and> (\<forall>n. set (nc_edges c n) \<subseteq> set (nc_edges ?c n))
    \<and> (\<forall>n. set (nc_edges ?c n) \<subseteq> set (nc_edges c n) \<union> (if n = i then set known else {}))"
    by (auto simp: check_need_def Let_def)
  have "c' = fold (check_need order known i) needs ?c" using Cons.prems by simp
  from Cons.IH [OF this] obtain ps where ps: "nc_problems c' = nc_problems ?c @ ps"
    "ps = [] \<longrightarrow> sp_value ` set needs \<subseteq> set (nc_edges c' i) \<and> sp_value ` set needs \<subseteq> set known"
    "\<forall>n. set (nc_edges ?c n) \<subseteq> set (nc_edges c' n)"
    "\<forall>n. set (nc_edges c' n) \<subseteq> set (nc_edges ?c n) \<union> (if n = i then set known else {})"
    by blast
  from one obtain qs where qs: "nc_problems ?c = nc_problems c @ qs"
    "qs = [] \<longrightarrow> sp_value need \<in> set (nc_edges ?c i) \<and> sp_value need \<in> set known"
    "\<forall>n. set (nc_edges c n) \<subseteq> set (nc_edges ?c n)"
    "\<forall>n. set (nc_edges ?c n) \<subseteq> set (nc_edges c n) \<union> (if n = i then set known else {})"
    by blast
  show ?case
  proof (intro exI [of _ "qs @ ps"] conjI)
    show "nc_problems c' = nc_problems c @ qs @ ps" using ps(1) qs(1) by simp
    show "qs @ ps = [] \<longrightarrow> sp_value ` set (need # needs) \<subseteq> set (nc_edges c' i)
        \<and> sp_value ` set (need # needs) \<subseteq> set known"
      using ps(2,3) qs(2) by auto
    show "\<forall>n. set (nc_edges c n) \<subseteq> set (nc_edges c' n)" using ps(3) qs(3) by blast
    show "\<forall>n. set (nc_edges c' n) \<subseteq> set (nc_edges c n) \<union> (if n = i then set known else {})"
    proof
      fix n
      have "set (nc_edges c' n) \<subseteq> set (nc_edges ?c n) \<union> (if n = i then set known else {})"
        and "set (nc_edges ?c n) \<subseteq> set (nc_edges c n) \<union> (if n = i then set known else {})"
        using ps(4) qs(4) by blast+
      then show "set (nc_edges c' n) \<subseteq> set (nc_edges c n) \<union> (if n = i then set known else {})"
        by (cases "n = i") auto
    qed
  qed
qed simp

abbreviation raw_id :: "raw_step \<Rightarrow> string" where
  "raw_id s \<equiv> sp_value (rs_id s)"

abbreviation raw_needs :: "raw_step \<Rightarrow> string set" where
  "raw_needs s \<equiv> sp_value ` set (rs_needs s)"

lemma fold_check_needs:
  assumes "(ps', edges') = fold (check_needs order known) steps (ps, edges)"
  shows "\<exists>qs. ps' = ps @ qs
    \<and> (qs = [] \<longrightarrow> (\<forall>s\<in>set steps. raw_needs s \<subseteq> set (edges' (raw_id s)) \<and> raw_needs s \<subseteq> set known))
    \<and> (\<forall>n. set (edges n) \<subseteq> set (edges' n))
    \<and> (\<forall>n. set (edges' n) \<subseteq> set (edges n) \<union> (if n \<in> raw_id ` set steps then set known else {}))"
  using assms
proof (induction steps arbitrary: ps edges)
  case (Cons s steps)
  obtain ps1 edges1 where one: "check_needs order known s (ps, edges) = (ps1, edges1)" by fastforce
  then obtain qs1 where qs1: "ps1 = ps @ qs1"
    "qs1 = [] \<longrightarrow> raw_needs s \<subseteq> set (edges1 (raw_id s)) \<and> raw_needs s \<subseteq> set known"
    "\<forall>n. set (edges n) \<subseteq> set (edges1 n)"
    "\<forall>n. set (edges1 n) \<subseteq> set (edges n) \<union> (if n = raw_id s then set known else {})"
    using fold_check_need [OF refl, of order known "raw_id s" "rs_needs s"
        "\<lparr>nc_problems = ps, nc_listed = [], nc_edges = edges\<rparr>"]
    by (auto simp: check_needs_def Let_def)
  have "(ps', edges') = fold (check_needs order known) steps (ps1, edges1)" using Cons.prems one by simp
  from Cons.IH [OF this] obtain qs2 where qs2: "ps' = ps1 @ qs2"
    "qs2 = [] \<longrightarrow> (\<forall>s\<in>set steps. raw_needs s \<subseteq> set (edges' (raw_id s)) \<and> raw_needs s \<subseteq> set known)"
    "\<forall>n. set (edges1 n) \<subseteq> set (edges' n)"
    "\<forall>n. set (edges' n) \<subseteq> set (edges1 n) \<union> (if n \<in> raw_id ` set steps then set known else {})"
    by blast
  show ?case
  proof (intro exI [of _ "qs1 @ qs2"] conjI)
    show "ps' = ps @ qs1 @ qs2" using qs1(1) qs2(1) by simp
    show "qs1 @ qs2 = [] \<longrightarrow> (\<forall>x\<in>set (s # steps). raw_needs x \<subseteq> set (edges' (raw_id x)) \<and> raw_needs x \<subseteq> set known)"
      using qs1(2) qs2(2,3) by (metis append_is_Nil_conv set_ConsD subset_trans)
    show "\<forall>n. set (edges n) \<subseteq> set (edges' n)" using qs1(3) qs2(3) by blast
    show "\<forall>n. set (edges' n) \<subseteq> set (edges n) \<union> (if n \<in> raw_id ` set (s # steps) then set known else {})"
    proof
      fix n
      have "set (edges' n) \<subseteq> set (edges1 n) \<union> (if n \<in> raw_id ` set steps then set known else {})"
        and "set (edges1 n) \<subseteq> set (edges n) \<union> (if n = raw_id s then set known else {})"
        using qs1(4) qs2(4) by blast+
      then show "set (edges' n) \<subseteq> set (edges n) \<union> (if n \<in> raw_id ` set (s # steps) then set known else {})"
        by (cases "n = raw_id s"; cases "n \<in> raw_id ` set steps") auto
    qed
  qed
qed simp

lemma check_graph_clean:
  assumes "fst (check_graph order known steps) = []" and "set known \<subseteq> raw_id ` set steps"
  shows "(\<exists>rank. \<forall>s\<in>set steps. \<forall>need\<in>raw_needs s. rank need < (rank (raw_id s) :: nat))
    \<and> (\<forall>s\<in>set steps. raw_needs s \<subseteq> set known)"
proof -
  let ?ids = "map (sp_value \<circ> rs_id) steps"
  obtain ps edges where fold: "(ps, edges) = fold (check_needs order known) steps ([], \<lambda>_. [])"
    by (metis surj_pair)
  from fold_check_needs [OF fold] obtain qs where qs: "ps = qs"
    "qs = [] \<longrightarrow> (\<forall>s\<in>set steps. raw_needs s \<subseteq> set (edges (raw_id s)) \<and> raw_needs s \<subseteq> set known)"
    "\<forall>n. set (edges n) \<subseteq> (if n \<in> raw_id ` set steps then set known else {})"
    by auto
  have qs3: "set (edges n) \<subseteq> set known \<and> (n \<notin> set ?ids \<longrightarrow> edges n = [])" for n
    using spec [OF qs(3), of n] by (cases "n \<in> raw_id ` set steps") auto
  have "\<forall>n. set (edges n) \<subseteq> set ?ids" using qs3 assms(2) by fastforce
  moreover have "\<forall>n. n \<notin> set ?ids \<longrightarrow> edges n = []" using qs3 by blast
  ultimately have iff: "case circle ?ids edges of Some c \<Rightarrow> is_circle edges c | None \<Rightarrow> \<not> (\<exists>c. is_circle edges c)"
    by (rule circle_iff)
  have none: "ps = [] \<and> circle ?ids edges = None"
  proof (cases "circle ?ids edges")
    case None
    then show ?thesis using assms(1) fold [symmetric] by (simp add: check_graph_def Let_def)
  next
    case (Some c)
    then have "is_circle edges c" using iff by simp
    then obtain a b xs where "c = a # b # xs" "b \<in> set (edges a)"
      unfolding is_circle_def by (cases c; cases "tl c") auto
    then have "a \<in> set ?ids" using qs3 [of a] by fastforce
    then have "hd c \<in> raw_id ` set steps" using \<open>c = a # b # xs\<close> by auto
    then have "find (\<lambda>s. raw_id s = hd c) steps \<noteq> None" by (auto simp: find_None_iff)
    then show ?thesis
      using assms(1) fold [symmetric] Some by (auto simp: check_graph_def Let_def)
  qed
  then obtain rank where "\<forall>n\<in>set ?ids. \<forall>need\<in>set (edges n). rank need < (rank n :: nat)"
    using circle_None_rank by blast
  then have "\<forall>s\<in>set steps. \<forall>need\<in>raw_needs s. rank need < rank (raw_id s)"
    using qs(1,2) none by (auto simp: subset_iff)
  then show ?thesis using qs(1,2) none by blast
qed

lemma fold_check_step_id:
  assumes "c' = fold check_step_id steps c" and "distinct (map fst (si_lines c))"
    and "set (map fst (si_lines c)) = dom (si_actions c)"
  shows "\<exists>ps. si_problems c' = si_problems c @ ps
    \<and> distinct (map fst (si_lines c')) \<and> set (map fst (si_lines c')) = dom (si_actions c')
    \<and> set (map fst (si_lines c')) \<subseteq> set (map fst (si_lines c)) \<union> raw_id ` set steps
    \<and> (ps = [] \<longrightarrow> map fst (si_lines c') = map fst (si_lines c) @ map raw_id steps
        \<and> list_all is_name (map raw_id steps)
        \<and> si_actions c' = si_actions c ++ map_of (map (\<lambda>s. (raw_id s, sp_value (rs_action s))) steps))"
  using assms
proof (induction steps arbitrary: c)
  case (Cons s steps)
  let ?i = "raw_id s" and ?c = "check_step_id s c"
  have c': "c' = fold check_step_id steps ?c" using Cons.prems(1) by simp
  show ?case
  proof (cases "map_of (si_lines c) ?i")
    case (Some line)
    have "si_lines ?c = si_lines c" "si_actions ?c = si_actions c" and probs: "\<exists>q qs. si_problems ?c = si_problems c @ q # qs"
      using Some by (auto simp: check_step_id_def Let_def)
    then obtain q qs where q: "si_lines ?c = si_lines c" "si_actions ?c = si_actions c"
      "si_problems ?c = si_problems c @ q # qs" by blast
    from Cons.IH [OF c'] Cons.prems(2,3) obtain ps where "si_problems c' = si_problems ?c @ ps"
      "distinct (map fst (si_lines c')) \<and> set (map fst (si_lines c')) = dom (si_actions c')"
      "set (map fst (si_lines c')) \<subseteq> set (map fst (si_lines c)) \<union> raw_id ` set steps"
      unfolding q(1,2) by blast
    then show ?thesis using q(3) by (intro exI [of _ "(q # qs) @ ps"]) auto
  next
    case None
    have new: "?i \<notin> set (map fst (si_lines c))" using None by (simp add: map_of_eq_None_iff)
    have fields: "si_lines ?c = si_lines c @ [(?i, loc_line (sp_at (rs_id s)))]"
      "si_actions ?c = (si_actions c)(?i \<mapsto> sp_value (rs_action s))"
      using None by (simp_all add: check_step_id_def Let_def)
    obtain q where q: "si_problems ?c = si_problems c @ q" "q = [] \<longrightarrow> is_name ?i"
      using None by (auto simp: check_step_id_def Let_def)
    have "distinct (map fst (si_lines ?c))" "set (map fst (si_lines ?c)) = dom (si_actions ?c)"
      using Cons.prems(2,3) new by (auto simp: fields)
    from Cons.IH [OF c' this] obtain ps where ps: "si_problems c' = si_problems ?c @ ps"
      "distinct (map fst (si_lines c'))" "set (map fst (si_lines c')) = dom (si_actions c')"
      "set (map fst (si_lines c')) \<subseteq> set (map fst (si_lines ?c)) \<union> raw_id ` set steps"
      "ps = [] \<longrightarrow> map fst (si_lines c') = map fst (si_lines ?c) @ map raw_id steps
        \<and> list_all is_name (map raw_id steps)
        \<and> si_actions c' = si_actions ?c ++ map_of (map (\<lambda>s. (raw_id s, sp_value (rs_action s))) steps)"
      by blast
    show ?thesis
    proof (intro exI [of _ "q @ ps"] conjI)
      show "si_problems c' = si_problems c @ q @ ps" using ps(1) q(1) by simp
      show "set (map fst (si_lines c')) \<subseteq> set (map fst (si_lines c)) \<union> raw_id ` set (s # steps)"
        using ps(4) by (auto simp: fields)
      show "q @ ps = [] \<longrightarrow> map fst (si_lines c') = map fst (si_lines c) @ map raw_id (s # steps)
        \<and> list_all is_name (map raw_id (s # steps))
        \<and> si_actions c' = si_actions c ++ map_of (map (\<lambda>s. (raw_id s, sp_value (rs_action s))) (s # steps))"
      proof
        assume none: "q @ ps = []"
        then have lines: "map fst (si_lines c') = map fst (si_lines c) @ ?i # map raw_id steps"
          using ps(5) by (simp add: fields)
        then have "?i \<notin> raw_id ` set steps" using ps(2) by auto
        then have "map_of (map (\<lambda>s. (raw_id s, sp_value (rs_action s))) steps) ?i = None"
          by (auto simp: map_of_eq_None_iff)
        then have "(si_actions c)(?i \<mapsto> sp_value (rs_action s)) ++ map_of (map (\<lambda>s. (raw_id s, sp_value (rs_action s))) steps)
            = si_actions c ++ map_of (map (\<lambda>s. (raw_id s, sp_value (rs_action s))) (s # steps))"
          by (auto simp: map_add_def fun_eq_iff split: option.splits)
        then show "map fst (si_lines c') = map fst (si_lines c) @ map raw_id (s # steps)
          \<and> list_all is_name (map raw_id (s # steps))
          \<and> si_actions c' = si_actions c ++ map_of (map (\<lambda>s. (raw_id s, sp_value (rs_action s))) (s # steps))"
          using lines ps(5) q(2) none by (simp add: fields)
      qed
    qed (use ps(2,3) in auto)
  qed
qed simp

section \<open>A checked workflow\<close>

definition session_ok :: "flow_step list \<Rightarrow> session_ref \<Rightarrow> bool" where
  "session_ok steps ref =
    (case ref of
       Origin \<Rightarrow> True
     | FromStep i \<Rightarrow> list_ex (\<lambda>s. st_id s = i \<and> action_name (st_action s) = ''start_session'') steps)"

definition limit_ok :: "nat option \<Rightarrow> bool" where
  "limit_ok limit = (case limit of Some n \<Rightarrow> 1 \<le> n \<and> n \<le> MAX_TIMEOUT_SECS | None \<Rightarrow> True)"

fun action_ok :: "flow_step list \<Rightarrow> action \<Rightarrow> bool" where
  "action_ok steps (StartSession harness _ _ _ _) \<longleftrightarrow> is_name harness \<or> has_braces harness"
| "action_ok steps (WaitSession ref _ limit) \<longleftrightarrow> session_ok steps ref \<and> limit_ok limit"
| "action_ok steps (SendToSession ref _ limit) \<longleftrightarrow> session_ok steps ref \<and> limit_ok limit"
| "action_ok steps (WaitPrActivity _ limit) \<longleftrightarrow> limit_ok limit"
| "action_ok steps (RunTest test _ limit) \<longleftrightarrow> test \<noteq> [] \<and> limit_ok limit"
| "action_ok steps (Notify _ _) \<longleftrightarrow> True"

definition well_formed :: "workflow \<Rightarrow> bool" where
  "well_formed flow \<longleftrightarrow>
    is_id (wf_id flow) \<and> wf_version flow = SCHEMA_VERSION
    \<and> wf_steps flow \<noteq> [] \<and> distinct (map st_id (wf_steps flow))
    \<and> list_all (\<lambda>s. is_name (st_id s)
        \<and> list_all (\<lambda>need. need \<in> st_id ` set (wf_steps flow)) (st_needs s)
        \<and> action_ok (wf_steps flow) (st_action s)) (wf_steps flow)"

lemma check_timeout_ok: "limit_ok (snd (check_timeout rd s))"
  using yaml_duration_bounds
  by (fastforce simp: check_timeout_def limit_ok_def split: option.splits sum.splits)

lemma check_session_ok:
  assumes "fst (check_session rd source sc s) = []" and "snd (check_session rd source sc s) = FromStep i"
  shows "sc_actions sc i = Some ''start_session''"
  using assms
  by (auto simp: check_session_def Let_def split: option.splits if_splits)

lemma check_test_ok: "fst (check_test sc s) = [] \<Longrightarrow> snd (check_test sc s) \<noteq> []"
  by (auto simp: check_test_def Let_def has_braces_def split: option.splits if_splits)

lemma check_harness_ok:
  "fst (check_harness sc s) = [] \<Longrightarrow> is_name (snd (check_harness sc s)) \<or> has_braces (snd (check_harness sc s))"
  by (auto simp: check_harness_def Let_def split: option.splits if_splits)

lemma check_step_clean:
  assumes "fst (check_step rd source sc s) = []"
  shows "st_id (snd (check_step rd source sc s)) = raw_id s
    \<and> set (st_needs (snd (check_step rd source sc s))) = raw_needs s
    \<and> action_name (st_action (snd (check_step rd source sc s))) = sp_value (rs_action s)"
  using assms by (auto simp: check_step_def check_action_def ACTIONS_def Let_def split: if_splits)

lemma check_step_action_ok:
  assumes "fst (check_step rd source sc s) = []"
    and "\<And>i. sc_actions sc i = Some ''start_session'' \<Longrightarrow> session_ok steps (FromStep i)"
  shows "action_ok steps (st_action (snd (check_step rd source sc s)))"
proof -
  have ref: "session_ok steps (snd (check_session rd source sc s))" if "fst (check_session rd source sc s) = []"
    using check_session_ok [OF that] assms(2)
    by (cases "snd (check_session rd source sc s)") (auto simp: session_ok_def)
  have "fst (check_action rd source sc s) = []"
    and "st_action (snd (check_step rd source sc s)) = snd (check_action rd source sc s)"
    using assms(1) by (auto simp: check_step_def Let_def split: if_splits)
  then show ?thesis
    using ref check_timeout_ok check_test_ok check_harness_ok
    by (auto simp: check_action_def Let_def split: if_splits)
qed

lemma map_of_steps_action:
  assumes "map_of (map (\<lambda>s. (raw_id s, sp_value (rs_action s))) raws) i = Some a"
    and "list_all (\<lambda>r. st_id (f r) = raw_id r \<and> action_name (st_action (f r)) = sp_value (rs_action r)) raws"
  shows "list_ex (\<lambda>s. st_id s = i \<and> action_name (st_action s) = a) (map f raws)"
  using assms by (induction raws) (auto split: if_splits)

definition scope_for :: "input list \<Rightarrow> step_ids \<Rightarrow> (string \<Rightarrow> string list) \<Rightarrow> raw_step \<Rightarrow> scope" where
  "scope_for ins c before s =
    \<lparr>sc_inputs = first_kinds ins, sc_input_keys = remdups (map in_id ins),
      sc_actions = si_actions c, sc_action_keys = map fst (si_lines c), sc_before = before (raw_id s)\<rparr>"

lemma check_steps_unfold:
  assumes "c = fold check_step_id (sp_value raw) \<lparr>si_problems = [], si_lines = [], si_actions = Map.empty\<rparr>"
    and "check_graph (rd_order rd) (map fst (si_lines c)) (sp_value raw) = (gp, before)"
    and "sp_value raw \<noteq> []"
  shows "check_steps rd source raw ins =
    (si_problems c @ gp @ concat (map (\<lambda>s. fst (check_step rd source (scope_for ins c before s) s)) (sp_value raw)),
     map (\<lambda>s. snd (check_step rd source (scope_for ins c before s) s)) (sp_value raw))"
  using assms(2,3) by (simp add: check_steps_def Let_def assms(1) scope_for_def comp_def)

definition steps_well_formed :: "flow_step list \<Rightarrow> bool" where
  "steps_well_formed steps \<longleftrightarrow>
    steps \<noteq> [] \<and> distinct (map st_id steps)
    \<and> list_all (\<lambda>s. is_name (st_id s)
        \<and> list_all (\<lambda>need. need \<in> st_id ` set steps) (st_needs s)
        \<and> action_ok steps (st_action s)) steps"

lemma check_steps_clean:
  assumes "fst (check_steps rd source raw ins) = []"
  shows "steps_well_formed (snd (check_steps rd source raw ins))
    \<and> (\<exists>rank. goes_down rank (snd (check_steps rd source raw ins)))"
proof -
  let ?raws = "sp_value raw"
  have some: "?raws \<noteq> []" using assms by (auto simp: check_steps_def)
  define c where "c = fold check_step_id ?raws \<lparr>si_problems = [], si_lines = [], si_actions = Map.empty\<rparr>"
  obtain gp before where g: "check_graph (rd_order rd) (map fst (si_lines c)) ?raws = (gp, before)" by fastforce
  define f where "f = (\<lambda>s. snd (check_step rd source (scope_for ins c before s) s))"
  have unfolded: "check_steps rd source raw ins =
    (si_problems c @ gp @ concat (map (\<lambda>s. fst (check_step rd source (scope_for ins c before s) s)) ?raws), map f ?raws)"
    unfolding f_def by (rule check_steps_unfold [OF c_def g some])
  have clean: "si_problems c = []" "gp = []"
    "\<And>s. s \<in> set ?raws \<Longrightarrow> fst (check_step rd source (scope_for ins c before s) s) = []"
    using assms unfolding unfolded by auto
  from fold_check_step_id [OF c_def] clean(1)
  have ids: "distinct (map raw_id ?raws)" "map fst (si_lines c) = map raw_id ?raws"
    "list_all is_name (map raw_id ?raws)"
    "si_actions c = map_of (map (\<lambda>s. (raw_id s, sp_value (rs_action s))) ?raws)"
    by auto
  have graph: "\<exists>rank. \<forall>s\<in>set ?raws. \<forall>need\<in>raw_needs s. rank need < (rank (raw_id s) :: nat)"
    "\<forall>s\<in>set ?raws. raw_needs s \<subseteq> raw_id ` set ?raws"
    using check_graph_clean [of "rd_order rd" "map fst (si_lines c)" ?raws] g clean(2) ids(2) by auto
  have step: "st_id (f s) = raw_id s" "set (st_needs (f s)) = raw_needs s"
    "action_name (st_action (f s)) = sp_value (rs_action s)" if "s \<in> set ?raws" for s
    using check_step_clean [OF clean(3) [OF that]] by (auto simp: f_def)
  have st_ids: "map st_id (map f ?raws) = map raw_id ?raws" using step(1) by simp
  then have st_set: "st_id ` set (map f ?raws) = raw_id ` set ?raws" by (metis list.set_map)
  have sessions: "session_ok (map f ?raws) (FromStep i)" if "si_actions c i = Some ''start_session''" for i
    using map_of_steps_action [of ?raws i "''start_session''" f] that step ids(4)
    by (simp add: session_ok_def list_all_iff)
  have "action_ok (map f ?raws) (st_action (f s))" if s: "s \<in> set ?raws" for s
    unfolding f_def using check_step_action_ok [OF clean(3) [OF s]] sessions
    by (simp add: scope_for_def f_def)
  moreover have "is_name (st_id (f s)) \<and> (\<forall>need\<in>set (st_needs (f s)). need \<in> raw_id ` set ?raws)"
    if s: "s \<in> set ?raws" for s
  proof -
    have "raw_needs s \<subseteq> raw_id ` set ?raws" using graph(2) s by blast
    then show ?thesis using ids(3) step(1,2) [OF s] s by (simp add: list_all_iff subset_iff)
  qed
  moreover have "distinct (map st_id (map f ?raws))" unfolding st_ids by (rule ids(1))
  ultimately have "steps_well_formed (map f ?raws)"
    unfolding steps_well_formed_def st_set using some by (auto simp: list_all_iff)
  moreover have "\<exists>rank. goes_down rank (map f ?raws)"
    using graph(1) step by (auto simp: goes_down_def list_all_iff)
  ultimately show ?thesis by (simp add: unfolded)
qed

lemma workflow_parse_clean:
  assumes "workflow_parse rd txt = Inr flow"
  shows "is_id (wf_id flow) \<and> wf_version flow = SCHEMA_VERSION \<and> steps_well_formed (wf_steps flow)
    \<and> (\<exists>rank. goes_down rank (wf_steps flow))"
proof -
  obtain r where r: "check_workflow rd txt r = ([], flow)"
    using assms by (auto simp: workflow_parse_def Let_def split: option.splits sum.splits prod.splits if_splits)
  obtain tp trg where t: "check_trigger (sp_value (rw_trigger r)) = (tp, trg)" by fastforce
  obtain ip ins where i: "check_input_list (rw_inputs r) = (ip, ins)" by fastforce
  obtain sp steps where s: "check_steps rd txt (rw_steps r) ins = (sp, steps)" by fastforce
  have "is_id (sp_value (rw_id r))" "sp_value (rw_version r) = SCHEMA_VERSION" "sp = []"
    and flow: "flow = \<lparr>wf_id = sp_value (rw_id r), wf_name = trim (sp_value (rw_name r)),
           wf_description = not_blank (map_option trim (rw_description r)),
           wf_version = sp_value (rw_version r), wf_trigger = trg, wf_inputs = ins, wf_steps = steps\<rparr>"
    using r by (auto simp: check_workflow_def Let_def t i s split: if_splits)
  moreover have "steps_well_formed steps \<and> (\<exists>rank. goes_down rank steps)"
    using check_steps_clean [of rd "txt" "rw_steps r" ins] s \<open>sp = []\<close> by simp
  ultimately show ?thesis by (simp add: flow)
qed

section \<open>Properties\<close>

text \<open>
  C39. Whatever the reader makes of a file: a workflow that checks out has an id, the version this build
  reads and at least one step; its steps have different ids, need only steps that are there,
  talk only to sessions that a \<open>start_session\<close> step starts, and time out, where they do, after a
  second to a week.
\<close>

theorem checked_workflows_are_well_formed:
  "case workflow_parse rd txt of
     Inr flow \<Rightarrow> is_id (wf_id flow) \<and> wf_version flow = SCHEMA_VERSION \<and> steps_well_formed (wf_steps flow)
   | Inl _ \<Rightarrow> True"
  using workflow_parse_clean by (fastforce split: sum.splits)

definition needs_edges :: "(string list \<Rightarrow> string list) \<Rightarrow> raw_step list \<Rightarrow> edges" where
  "needs_edges order steps = snd (fold (check_needs order (map raw_id steps)) steps ([], \<lambda>_. []))"

text \<open>
  C38. The search of the graph reports a circle exactly when the needs have one, and what it reports is
  one: each step of it needs the next, and the last is the first.  Its fuel is never used up.
\<close>

theorem circles_are_found:
  "case circle (map raw_id raws) (needs_edges order raws) of
     Some c \<Rightarrow> is_circle (needs_edges order raws) c
   | None \<Rightarrow> \<not> (\<exists>c. is_circle (needs_edges order raws) c)"
proof (rule circle_iff)
  obtain ps edges where fold: "(ps, edges) = fold (check_needs order (map raw_id raws)) raws ([], \<lambda>_. [])"
    by (metis surj_pair)
  then have edges: "needs_edges order raws = edges" by (metis needs_edges_def snd_conv)
  have sub: "set (edges n) \<subseteq> (if n \<in> raw_id ` set raws then raw_id ` set raws else {})" for n
  proof -
    from fold_check_needs [OF fold]
    have "\<forall>n. set (edges n) \<subseteq> set [] \<union> (if n \<in> raw_id ` set raws then set (map raw_id raws) else {})"
      by blast
    from spec [OF this, of n] show ?thesis by (cases "n \<in> raw_id ` set raws") simp_all
  qed
  show "\<forall>n. set (needs_edges order raws n) \<subseteq> set (map raw_id raws)"
  proof
    fix n show "set (needs_edges order raws n) \<subseteq> set (map raw_id raws)"
      using sub [of n] by (cases "n \<in> raw_id ` set raws") (auto simp: edges)
  qed
  show "\<forall>n. n \<notin> set (map raw_id raws) \<longrightarrow> needs_edges order raws n = []"
  proof (intro allI impI)
    fix n assume "n \<notin> set (map raw_id raws)"
    then show "needs_edges order raws n = []" using sub [of n] by (simp add: edges)
  qed
qed

text \<open>
  C15. A run of a workflow that checks out never gets stuck, whatever its inputs, its rows and the world:
  when a plan does not finish it, some step is left \<open>running\<close> or \<open>waiting\<close>.
\<close>

theorem checked_workflows_never_get_stuck:
  assumes "workflow_parse rd txt = Inr flow"
    and "list_all (\<lambda>r. row_step r \<in> st_id ` set (wf_steps flow)) rows"
    and "pl_finish (advance js flow ins rows w) = None"
  shows "\<exists>st i. carry_out_moves (pl_moves (advance js flow ins rows w)) (statuses rows) = Some st
    \<and> (st i = Some Running \<or> st i = Some Waiting)"
proof -
  obtain rank where "goes_down rank (wf_steps flow)" using workflow_parse_clean [OF assms(1)] by blast
  then show ?thesis using assms(2,3) by (rule run_never_gets_stuck)
qed

section \<open>Witnesses\<close>

definition at_line :: "nat \<Rightarrow> 'a \<Rightarrow> 'a spanned" where
  "at_line n v = \<lparr>sp_value = v, sp_at = \<lparr>loc_line = n, loc_column = 1\<rparr>\<rparr>"

definition raw_notify :: "nat \<Rightarrow> string \<Rightarrow> string list \<Rightarrow> raw_step" where
  "raw_notify n i needs =
    \<lparr>rs_id = at_line n i, rs_action = at_line n ''notify'', rs_needs = map (at_line n) needs,
      rs_harness = None, rs_prompt = None, rs_model = None, rs_effort = None, rs_skip_memory = None,
      rs_session = None, rs_until = None, rs_timeout = None, rs_kind = None, rs_test = None, rs_inputs = None,
      rs_title = Some (at_line n ''hi''), rs_body = None\<rparr>"

definition raw_two :: raw_workflow where
  "raw_two =
    \<lparr>rw_id = at_line 1 ''tell'', rw_name = at_line 2 ''Tell'', rw_description = None, rw_version = at_line 3 1,
      rw_trigger = at_line 4 \<lparr>rt_kind = at_line 4 ''manual'', rt_context = None\<rparr>, rw_inputs = [],
      rw_steps = at_line 5 [raw_notify 6 ''b'' [''a''], raw_notify 7 ''a'' []]\<rparr>"

definition reads_two :: reader where
  "reads_two = \<lparr>rd_head = (\<lambda>_. None), rd_raw = (\<lambda>_. Inr raw_two), rd_upper = id, rd_order = id\<rparr>"

lemma two_checks_out: "fst (check_workflow reads_two [] raw_two) = []"
  by code_simp

lemma two_left:
  "list_all (\<lambda>r. row_step r \<in> st_id ` set (wf_steps (snd (check_workflow reads_two [] raw_two))))
    [example_row ''a'' ''pending'', example_row ''b'' ''pending'']"
  "pl_finish (advance plain_json (snd (check_workflow reads_two [] raw_two)) Map.empty
    [example_row ''a'' ''pending'', example_row ''b'' ''pending''] quiet_world) = None"
  by code_simp+

lemma two_parsed: "workflow_parse reads_two [] = Inr (snd (check_workflow reads_two [] raw_two))"
  using two_checks_out
  by (auto simp: workflow_parse_def yaml_heading_def Let_def reads_two_def split: prod.splits)

theorem checked_workflows_never_get_stuck_witness:
  "\<exists>flow st i. workflow_parse reads_two [] = Inr flow
    \<and> carry_out_moves (pl_moves (advance plain_json flow Map.empty
        [example_row ''a'' ''pending'', example_row ''b'' ''pending''] quiet_world))
      (statuses [example_row ''a'' ''pending'', example_row ''b'' ''pending'']) = Some st
    \<and> (st i = Some Running \<or> st i = Some Waiting)"
  using checked_workflows_never_get_stuck [OF two_parsed two_left] two_parsed by blast

end
