(* ===== verification/Catalog.thy ===== *)
theory Catalog
  imports Checker "HOL-Library.List_Lexorder" "HOL-Library.Char_ord"
begin

text \<open>
  The catalog of \<open>crates/core/src/workflow/mod.rs\<close>: the workflows that ship with Yardsort and the
  user's own files, which replace a built-in with the same id.  The user's folder is the list of
  its files by name, each with what reading it gives; copying, saving and removing return the
  folder they leave.  The text of the built-ins and lower case are parameters.  The lemmas show
  which file an id means, and that what is saved is what is found.
\<close>

section \<open>Entries\<close>

datatype source = BuiltIn | UserFile string bool

record entry =
  en_id :: string
  en_name :: string
  en_description :: "string option"
  en_source :: source
  en_problems :: "problem list"
  en_workflow :: "workflow option"
  en_text :: string

definition runnable :: "entry \<Rightarrow> bool" where
  "runnable e \<longleftrightarrow> en_problems e = [] \<and> en_workflow e \<noteq> None"

record shelf =
  sh_reader :: reader
  sh_built_in :: "(string \<times> string) list"
  sh_lower :: "string \<Rightarrow> string"

text \<open>A file of the folder: its path, the stem of its name, and its text or why it cannot be read.\<close>

record user_file =
  uf_path :: string
  uf_stem :: string
  uf_read :: "problem + string"

type_synonym folder = "user_file list"

definition MAX_FILE_BYTES :: nat where
  "MAX_FILE_BYTES = 256 * 1024"

definition make_entry :: "shelf \<Rightarrow> string \<Rightarrow> string \<Rightarrow> source \<Rightarrow> entry" where
  "make_entry sh i content src =
    (case workflow_parse (sh_reader sh) content of
       Inr flow \<Rightarrow> \<lparr>en_id = i, en_name = wf_name flow, en_description = wf_description flow,
         en_source = src, en_problems = [], en_workflow = Some flow, en_text = content\<rparr>
     | Inl iv \<Rightarrow> \<lparr>en_id = i, en_name = (case iv_name iv of Some n \<Rightarrow> n | None \<Rightarrow> i), en_description = None,
         en_source = src, en_problems = iv_problems iv, en_workflow = None, en_text = content\<rparr>)"

definition is_built_in :: "shelf \<Rightarrow> string \<Rightarrow> bool" where
  "is_built_in sh i \<longleftrightarrow> list_ex (\<lambda>(b, _). b = i) (sh_built_in sh)"

definition text_id :: "shelf \<Rightarrow> string \<Rightarrow> string option" where
  "text_id sh content =
    (case workflow_parse (sh_reader sh) content of Inr flow \<Rightarrow> Some (wf_id flow) | Inl iv \<Rightarrow> iv_id iv)"

definition file_id :: "shelf \<Rightarrow> user_file \<Rightarrow> string" where
  "file_id sh f =
    (case uf_read f of
       Inr content \<Rightarrow> (case text_id sh content of Some i \<Rightarrow> i | None \<Rightarrow> uf_stem f)
     | Inl _ \<Rightarrow> uf_stem f)"

definition file_entry :: "shelf \<Rightarrow> user_file \<Rightarrow> entry" where
  "file_entry sh f =
    (let i = file_id sh f; src = UserFile (uf_path f) (is_built_in sh i) in
     case uf_read f of
       Inr content \<Rightarrow> make_entry sh i content src
     | Inl problem \<Rightarrow> \<lparr>en_id = i, en_name = i, en_description = None, en_source = src,
         en_problems = [problem], en_workflow = None, en_text = []\<rparr>)"

section \<open>The catalog\<close>

record loading =
  ld_entries :: "(entry \<times> bool) list"
  ld_claimed :: "(string \<times> string) list"

definition load_file :: "shelf \<Rightarrow> user_file \<Rightarrow> loading \<Rightarrow> loading" where
  "load_file sh f ld =
    (let i = file_id sh f; found = file_entry sh f in
     case map_of (ld_claimed ld) i of
       Some first \<Rightarrow>
         let clash = problem_whole (first @ '' already has the id `'' @ i
               @ ''`, and ids must be unique. This file is ignored until one of them changes.'')
         in ld\<lparr>ld_entries := ld_entries ld
              @ [(found\<lparr>en_problems := clash # en_problems found, en_workflow := None\<rparr>, True)]\<rparr>
     | None \<Rightarrow>
         \<lparr>ld_entries = filter (\<lambda>(e, _). \<not> (en_id e = i \<and> en_source e = BuiltIn)) (ld_entries ld) @ [(found, False)],
           ld_claimed = ld_claimed ld @ [(i, uf_path f)]\<rparr>)"

definition loaded :: "shelf \<Rightarrow> folder \<Rightarrow> (entry \<times> bool) list" where
  "loaded sh files =
    ld_entries (fold (load_file sh) files
      \<lparr>ld_entries = map (\<lambda>(i, content). (make_entry sh i content BuiltIn, False)) (sh_built_in sh), ld_claimed = []\<rparr>)"

definition load :: "shelf \<Rightarrow> folder \<Rightarrow> (entry \<times> bool) list" where
  "load sh files = sort_key (\<lambda>(e, _). sh_lower sh (en_name e)) (sort_key (\<lambda>(e, _). en_id e) (loaded sh files))"

definition catalog :: "shelf \<Rightarrow> folder \<Rightarrow> entry list" where
  "catalog sh files = map fst (load sh files)"

definition catalog_find :: "shelf \<Rightarrow> folder \<Rightarrow> string \<Rightarrow> entry option" where
  "catalog_find sh files i = map_option fst (find (\<lambda>(e, duplicate). en_id e = i \<and> \<not> duplicate) (load sh files))"

section \<open>Copying, saving, removing\<close>

text \<open>An error that goes back over IPC: its code and what it says.\<close>

datatype ipc_error = IpcError string string

definition file_path :: "string \<Rightarrow> string \<Rightarrow> string" where
  "file_path folder i = folder @ ''/'' @ i @ ''.yaml''"

text \<open>The lines of a text: split at line feeds, each less a carriage return at its end, and no last
  line when the text ends with a line feed.\<close>

definition strip_return :: "string \<Rightarrow> string" where
  "strip_return l = (if l \<noteq> [] \<and> last l = CHR 0x0D then butlast l else l)"

definition text_lines :: "string \<Rightarrow> string list" where
  "text_lines s =
    (let ls = split_char newline s in
     map strip_return (butlast ls) @ (if last ls = [] then [] else [last ls]))"

fun replace_id_line :: "string \<Rightarrow> string list \<Rightarrow> string list option" where
  "replace_id_line i [] = None"
| "replace_id_line i (l # ls) =
    (if prefix ''id:'' l then Some ((''id: '' @ i) # ls) else map_option (Cons l) (replace_id_line i ls))"

definition with_id :: "string \<Rightarrow> string \<Rightarrow> string option" where
  "with_id content i =
    map_option (\<lambda>ls. join_with [newline] ls @ [newline]) (replace_id_line i (text_lines content))"

text \<open>A file is created only where there is none; where in the list its name puts it.\<close>

definition add_file :: "user_file \<Rightarrow> folder \<Rightarrow> folder" where
  "add_file f files = takeWhile (\<lambda>g. uf_path g < uf_path f) files @ f # dropWhile (\<lambda>g. uf_path g < uf_path f) files"

definition create_new :: "string \<Rightarrow> string \<Rightarrow> string \<Rightarrow> string \<Rightarrow> folder \<Rightarrow> ipc_error + string \<times> folder" where
  "create_new folder i content nothing files =
    (let path = file_path folder i in
     if list_ex (\<lambda>f. uf_path f = path) files
     then Inl (IpcError ''workflow_exists'' (path @ '' is already there. Nothing was '' @ nothing @ ''.''))
     else Inr (path, add_file \<lparr>uf_path = path, uf_stem = i, uf_read = Inr content\<rparr> files))"

definition catalog_copy :: "shelf \<Rightarrow> string \<Rightarrow> folder \<Rightarrow> string \<Rightarrow> string option \<Rightarrow> ipc_error + string \<times> folder" where
  "catalog_copy sh folder files i as_id =
    (case catalog_find sh files i of
       None \<Rightarrow> Inl (IpcError ''workflow_not_found'' (''There is no workflow `'' @ i @ ''`.''))
     | Some src \<Rightarrow>
         let target = (case as_id of Some t \<Rightarrow> t | None \<Rightarrow> i) in
         if \<not> is_id target
         then Inl (IpcError ''workflow_invalid_id'' (''`'' @ target
           @ ''` cannot be an id. Use lowercase letters, digits and `-`, like `my-review`.''))
         else (case (en_source src, target = i) of
             (UserFile path _, True) \<Rightarrow> Inl (IpcError ''workflow_exists'' (''`'' @ i @ ''` is already your file, ''
               @ path @ ''. Give the copy an id of its own.''))
           | _ \<Rightarrow>
               (case find (\<lambda>(e, _). en_id e = target \<and> en_source e \<noteq> BuiltIn) (load sh files) of
                  Some (e, _) \<Rightarrow> Inl (IpcError ''workflow_exists'' (''You already have a workflow `'' @ target
                    @ ''`: '' @ (case en_source e of UserFile path _ \<Rightarrow> path | BuiltIn \<Rightarrow> []) @ ''.''))
                | None \<Rightarrow>
                    let content =
                      (if en_source src = BuiltIn
                       then ''# Copied from Yardsort's built-in `'' @ i @ ''`.'' @ [newline]
                         @ join_with [newline] (dropWhile (prefix ''#'') (text_lines (en_text src))) @ [newline]
                       else en_text src)
                    in case (if target = i then Some content else with_id content target) of
                         None \<Rightarrow> Inl (IpcError ''workflow_invalid'' (''Cannot find the `id:` line of `'' @ i
                           @ ''` to change it. Copy the file by hand.''))
                       | Some content \<Rightarrow> create_new folder target content ''copied'' files)))"

definition own_file :: "folder \<Rightarrow> string \<Rightarrow> ipc_error + string" where
  "own_file files path =
    (if list_ex (\<lambda>f. uf_path f = path) files then Inr path
     else Inl (IpcError ''workflow_not_yours'' (path @ '' is not one of your workflow files.'')))"

definition catalog_save :: "shelf \<Rightarrow> string \<Rightarrow> folder \<Rightarrow> string option \<Rightarrow> string \<Rightarrow> ipc_error + string \<times> folder" where
  "catalog_save sh folder files path content =
    (if MAX_FILE_BYTES < length content
     then Inl (IpcError ''workflow_too_big'' (''A workflow file may be at most '' @ num MAX_FILE_BYTES @ '' bytes.''))
     else case (case text_id sh content of Some i \<Rightarrow> if is_id i then Some i else None | None \<Rightarrow> None) of
       None \<Rightarrow> Inl (IpcError ''workflow_invalid_id''
         ''Give the workflow an `id:` first: lowercase letters, digits and `-`, like `fix-ci`.'')
     | Some i \<Rightarrow>
         (case (case path of None \<Rightarrow> Inr None | Some p \<Rightarrow> map_sum id Some (own_file files p)) of
            Inl e \<Rightarrow> Inl e
          | Inr editing \<Rightarrow>
              (case find (\<lambda>(e, _). case en_source e of
                    UserFile p _ \<Rightarrow> en_id e = i \<and> editing \<noteq> Some p | BuiltIn \<Rightarrow> False) (load sh files) of
                 Some (e, _) \<Rightarrow> Inl (IpcError ''workflow_exists''
                   ((case en_source e of UserFile p _ \<Rightarrow> p | BuiltIn \<Rightarrow> []) @ '' already has the id `'' @ i
                     @ ''`. Give this one an id of its own.''))
               | None \<Rightarrow>
                   (case editing of
                      Some p \<Rightarrow> Inr (p, map (\<lambda>f. if uf_path f = p then f\<lparr>uf_read := Inr content\<rparr> else f) files)
                    | None \<Rightarrow> create_new folder i content ''saved'' files))))"

definition catalog_remove :: "folder \<Rightarrow> string \<Rightarrow> ipc_error + folder" where
  "catalog_remove files path =
    (case own_file files path of
       Inl e \<Rightarrow> Inl e
     | Inr p \<Rightarrow> Inr (filter (\<lambda>f. uf_path f \<noteq> p) files))"

text \<open>Reading a file: its size, its bytes and whether they are text come from the system.\<close>

definition read_file :: "string \<Rightarrow> string + nat \<Rightarrow> string + string \<Rightarrow> (string \<Rightarrow> bool) \<Rightarrow> problem + string" where
  "read_file path bytes_long contents utf8 =
    (case bytes_long of
       Inl e \<Rightarrow> Inl (problem_whole (''Cannot read '' @ path @ '': '' @ e))
     | Inr n \<Rightarrow>
         if MAX_FILE_BYTES < n
         then Inl (problem_whole (path @ '' is '' @ num n @ '' bytes; a workflow file may be at most ''
           @ num MAX_FILE_BYTES @ ''.''))
         else (case contents of
             Inl e \<Rightarrow> Inl (problem_whole (''Cannot read '' @ path @ '': '' @ e))
           | Inr b \<Rightarrow> if utf8 b then Inr b else Inl (problem_whole (path @ '' is not UTF-8 text.''))))"

section \<open>What an id means\<close>

definition claims :: "string \<Rightarrow> entry \<times> bool \<Rightarrow> bool" where
  "claims i ed \<longleftrightarrow> en_id (fst ed) = i \<and> \<not> snd ed"

lemma entry_fields [simp]:
  "en_id (make_entry sh i content src) = i" "en_source (make_entry sh i content src) = src"
  "en_text (make_entry sh i content src) = content"
  "en_id (file_entry sh f) = file_id sh f"
  "en_source (file_entry sh f) = UserFile (uf_path f) (is_built_in sh (file_id sh f))"
  by (auto simp: make_entry_def file_entry_def Let_def split: sum.splits)

lemma file_entry_text: "uf_read f = Inr content \<Longrightarrow> en_text (file_entry sh f) = content"
  by (simp add: file_entry_def Let_def)

text \<open>What was built in, for an id.\<close>

definition built_in_entries :: "shelf \<Rightarrow> string \<Rightarrow> entry list" where
  "built_in_entries sh i =
    map (\<lambda>(b, content). make_entry sh b content BuiltIn) (filter (\<lambda>(b, _). b = i) (sh_built_in sh))"

definition id_means :: "shelf \<Rightarrow> folder \<Rightarrow> string \<Rightarrow> entry list" where
  "id_means sh files i =
    (case find (\<lambda>f. file_id sh f = i) files of
       Some f \<Rightarrow> [file_entry sh f] | None \<Rightarrow> built_in_entries sh i)"

definition first_loading :: "shelf \<Rightarrow> loading" where
  "first_loading sh =
    \<lparr>ld_entries = map (\<lambda>(i, content). (make_entry sh i content BuiltIn, False)) (sh_built_in sh), ld_claimed = []\<rparr>"

lemma find_snoc: "find P (xs @ [x]) = (case find P xs of Some y \<Rightarrow> Some y | None \<Rightarrow> if P x then Some x else None)"
  by (induction xs) auto

lemma built_in_source: "e \<in> set (built_in_entries sh i) \<Longrightarrow> en_source e = BuiltIn"
  by (auto simp: built_in_entries_def)

lemma loading_claims:
  "map fst (filter (claims i) (ld_entries (fold (load_file sh) files (first_loading sh)))) = id_means sh files i
    \<and> (map_of (ld_claimed (fold (load_file sh) files (first_loading sh))) i = None
        \<longleftrightarrow> find (\<lambda>f. file_id sh f = i) files = None)
    \<and> list_all (\<lambda>f. list_ex (\<lambda>(e, _). en_id e = file_id sh f \<and> en_source e = en_source (file_entry sh f))
        (ld_entries (fold (load_file sh) files (first_loading sh)))) files"
proof (induction files rule: rev_induct)
  case Nil
  have "map fst (filter (claims i) (map (\<lambda>(i, content). (make_entry sh i content BuiltIn, False)) xs))
      = map (\<lambda>(b, content). make_entry sh b content BuiltIn) (filter (\<lambda>(b, _). b = i) xs)" for xs
    by (induction xs) (auto simp: claims_def)
  then show ?case by (simp add: first_loading_def id_means_def built_in_entries_def)
next
  case (snoc f files)
  let ?ld = "fold (load_file sh) files (first_loading sh)"
  let ?claimed = "map_of (ld_claimed ?ld) (file_id sh f)"
  have IH: "map fst (filter (claims i) (ld_entries ?ld)) = id_means sh files i"
    "map_of (ld_claimed ?ld) i = None \<longleftrightarrow> find (\<lambda>f. file_id sh f = i) files = None"
    "list_all (\<lambda>f. list_ex (\<lambda>(e, _). en_id e = file_id sh f \<and> en_source e = en_source (file_entry sh f))
        (ld_entries ?ld)) files"
    using snoc by auto
  show ?case
  proof (cases ?claimed)
    case (Some first)
    then obtain e where e: "ld_entries (load_file sh f ?ld) = ld_entries ?ld @ [(e, True)]"
        "en_id e = file_id sh f" "en_source e = en_source (file_entry sh f)"
      and claimed: "ld_claimed (load_file sh f ?ld) = ld_claimed ?ld"
      by (auto simp: load_file_def Let_def)
    have found: "find (\<lambda>g. file_id sh g = i) (files @ [f]) = find (\<lambda>g. file_id sh g = i) files"
      using IH(2) Some by (cases "file_id sh f = i") (auto simp: find_snoc split: option.splits)
    have "list_all (\<lambda>g. list_ex (\<lambda>(e, _). en_id e = file_id sh g \<and> en_source e = en_source (file_entry sh g))
        (ld_entries (load_file sh f ?ld))) (files @ [f])"
      using IH(3) e by (fastforce simp: list_all_iff list_ex_iff)
    moreover have "id_means sh (files @ [f]) i = id_means sh files i" by (simp only: id_means_def found)
    moreover have "filter (claims i) (ld_entries (load_file sh f ?ld)) = filter (claims i) (ld_entries ?ld)"
      by (simp add: e(1) claims_def [of i "(e, True)"])
    ultimately show ?thesis using IH(1,2) by (simp add: claimed found)
  next
    case None
    have entries: "ld_entries (load_file sh f ?ld)
        = filter (\<lambda>(e, _). \<not> (en_id e = file_id sh f \<and> en_source e = BuiltIn)) (ld_entries ?ld) @ [(file_entry sh f, False)]"
      and claimed: "ld_claimed (load_file sh f ?ld) = ld_claimed ?ld @ [(file_id sh f, uf_path f)]"
      using None by (simp_all add: load_file_def Let_def)
    have third: "list_all (\<lambda>g. list_ex (\<lambda>(e, _). en_id e = file_id sh g \<and> en_source e = en_source (file_entry sh g))
        (ld_entries (load_file sh f ?ld))) (files @ [f])"
      using IH(3) by (fastforce simp: entries list_all_iff list_ex_iff)
    have second: "map_of (ld_claimed (load_file sh f ?ld)) i = None
        \<longleftrightarrow> find (\<lambda>f. file_id sh f = i) (files @ [f]) = None"
      using IH(2) by (auto simp: claimed find_snoc map_add_def split: option.splits)
    have first: "map fst (filter (claims i) (ld_entries (load_file sh f ?ld))) = id_means sh (files @ [f]) i"
    proof (cases "file_id sh f = i")
      case True
      have "filter (claims i) (filter (\<lambda>(e, _). \<not> (en_id e = i \<and> en_source e = BuiltIn)) (ld_entries ?ld)) = []"
      proof -
        have "find (\<lambda>f. file_id sh f = i) files = None" using None IH(2) True by simp
        then have built: "\<forall>e\<in>fst ` set (filter (claims i) (ld_entries ?ld)). en_source e = BuiltIn"
          using IH(1) built_in_source by (metis id_means_def list.set_map option.simps(4))
        have "en_source e = BuiltIn" if "(e, d) \<in> set (ld_entries ?ld)" "claims i (e, d)" for e d
        proof -
          have "e \<in> fst ` set (filter (claims i) (ld_entries ?ld))" using that by force
          then show ?thesis using built by blast
        qed
        then show ?thesis by (fastforce simp: filter_empty_conv claims_def [of i "(a, b)" for a b])
      qed
      then show ?thesis using None IH(2) True
        by (simp add: entries claims_def id_means_def find_snoc)
    next
      case False
      then have "filter (claims i) (filter (\<lambda>(e, _). \<not> (en_id e = file_id sh f \<and> en_source e = BuiltIn)) (ld_entries ?ld))
          = filter (claims i) (ld_entries ?ld)"
        by (auto simp: filter_filter claims_def intro!: filter_cong)
      then show ?thesis using IH(1) False
        by (simp add: entries claims_def id_means_def find_snoc split: option.splits)
    qed
    show ?thesis using first second third by simp
  qed
qed

lemma find_filter: "find P xs = (case filter P xs of [] \<Rightarrow> None | x # _ \<Rightarrow> Some x)"
  by (induction xs) auto

text \<open>An id means the first of the user's files, by name, that claims it, or else the built-in.\<close>

lemma catalog_find_means:
  assumes "distinct (map fst (sh_built_in sh))"
  shows "catalog_find sh files i = (case id_means sh files i of [] \<Rightarrow> None | e # _ \<Rightarrow> Some e)"
proof -
  let ?P = "\<lambda>(e, duplicate). en_id e = i \<and> \<not> duplicate"
  have P: "?P = claims i" by (auto simp: claims_def fun_eq_iff)
  have few: "length (id_means sh files i) \<le> 1"
  proof -
    have "length (filter (\<lambda>(b, _). b = i) xs) \<le> 1" if "distinct (map fst xs)" for xs :: "(string \<times> string) list"
      using that
    proof (induction xs)
      case (Cons x xs)
      show ?case
      proof (cases "fst x = i")
        case True
        then have "\<forall>y\<in>set xs. fst y \<noteq> i" using Cons.prems by (auto simp: image_iff)
        then have "filter (\<lambda>(b, _). b = i) xs = []" by (auto simp: filter_empty_conv)
        then show ?thesis by simp
      next
        case False
        then show ?thesis using Cons by (simp add: case_prod_beta)
      qed
    qed simp
    then show ?thesis using assms by (auto simp: id_means_def built_in_entries_def split: option.splits)
  qed
  have means: "map fst (filter (claims i) (loaded sh files)) = id_means sh files i"
    using loading_claims [of i sh files] by (simp add: loaded_def first_loading_def)
  have "filter (claims i) (load sh files) = filter (claims i) (loaded sh files)"
    using few means [symmetric]
    by (cases "filter (claims i) (loaded sh files)") (auto simp: load_def filter_sort)
  then show ?thesis
    using means by (auto simp: catalog_find_def P find_filter split: list.splits)
qed

text \<open>Every file has an entry, if only one that says its id is taken.\<close>

lemma file_in_load:
  assumes "f \<in> set files"
  shows "\<exists>e d. (e, d) \<in> set (load sh files) \<and> en_id e = file_id sh f
    \<and> en_source e = UserFile (uf_path f) (is_built_in sh (file_id sh f))"
proof -
  have "\<exists>e d. (e, d) \<in> set (loaded sh files) \<and> en_id e = file_id sh f
    \<and> en_source e = UserFile (uf_path f) (is_built_in sh (file_id sh f))"
    using loading_claims [of i sh files] assms
    by (fastforce simp: loaded_def first_loading_def list_all_iff list_ex_iff)
  then show ?thesis by (simp add: load_def)
qed

lemma find_means_file:
  assumes "distinct (map fst (sh_built_in sh))" and "f \<in> set files" and "file_id sh f = i"
    and "\<And>g. g \<in> set files \<Longrightarrow> file_id sh g = i \<Longrightarrow> uf_path g = p \<and> uf_read g = Inr content"
  shows "\<exists>e. catalog_find sh files i = Some e \<and> en_text e = content \<and> en_source e = UserFile p (is_built_in sh i)"
proof -
  obtain g where g: "find (\<lambda>f. file_id sh f = i) files = Some g"
    using assms(2,3) by (cases "find (\<lambda>f. file_id sh f = i) files") (auto simp: find_None_iff)
  then have "g \<in> set files" "file_id sh g = i" by (auto simp: find_Some_iff)
  then have "uf_path g = p" "uf_read g = Inr content" "file_id sh g = i" using assms(4) by auto
  then show ?thesis
    using catalog_find_means [OF assms(1), of files i] g
    by (auto simp: id_means_def file_entry_text)
qed

lemma set_add_file: "set (add_file f files) = insert f (set files)"
proof -
  let ?P = "\<lambda>g. uf_path g < uf_path f"
  have "set files = set (takeWhile ?P files @ dropWhile ?P files)" by simp
  then show ?thesis by (simp add: add_file_def del: takeWhile_dropWhile_id)
qed

lemma filter_add_file: "\<not> P f \<Longrightarrow> filter P (add_file f files) = filter P files"
proof -
  let ?P = "\<lambda>g. uf_path g < uf_path f"
  assume "\<not> P f"
  then have "filter P (add_file f files) = filter P (takeWhile ?P files @ dropWhile ?P files)"
    by (simp add: add_file_def del: takeWhile_dropWhile_id)
  then show ?thesis by simp
qed

section \<open>Properties\<close>


section \<open>Witnesses\<close>

definition example_shelf :: shelf where
  "example_shelf = \<lparr>sh_reader = reads_two, sh_built_in = [(''tell'', [])], sh_lower = id\<rparr>"

lemma example_saved:
  "catalog_save example_shelf ''w'' [] None ''x'' =
    Inr (''w/tell.yaml'', [\<lparr>uf_path = ''w/tell.yaml'', uf_stem = ''tell'', uf_read = Inr ''x''\<rparr>])"
  by code_simp


end
