(* ===== verification/Asking.thy ===== *)
theory Asking
  imports Catalog
begin

text \<open>
  \<open>crates/core/src/workflow/runs.rs\<close>: asking for a run, and what a run can know about where it
  runs.  Whoever asks answers whether an agent can be started and what pull request there is
  (\<open>look\<close>); git, the forge and the tables of projects and workspaces are functions.  The lemmas
  show that a run that is queued has every input it needs, and that a refusal writes nothing.
\<close>

section \<open>What a run knows\<close>

record pr_facts =
  pf_number :: nat
  pf_url :: string
  pf_title :: string

record facts =
  fc_pr :: "pr_facts option"
  fc_origin :: "string option"
  fc_unattended :: bool

definition no_facts :: facts where
  "no_facts = \<lparr>fc_pr = None, fc_origin = None, fc_unattended = False\<rparr>"

text \<open>Facts as JSON: \<open>serde_json\<close> reads and prints them.\<close>

record facts_json =
  fj_parse :: "string \<Rightarrow> facts option"
  fj_print :: "facts \<Rightarrow> string option"

definition facts_parse :: "facts_json \<Rightarrow> string \<Rightarrow> facts" where
  "facts_parse fj s = (case fj_parse fj s of Some f \<Rightarrow> f | None \<Rightarrow> no_facts)"

definition facts_to_json :: "facts_json \<Rightarrow> facts \<Rightarrow> string" where
  "facts_to_json fj f = (case fj_print fj f of Some s \<Rightarrow> s | None \<Rightarrow> ''{}'')"

definition facts_var :: "facts \<Rightarrow> string list \<Rightarrow> string option" where
  "facts_var f path =
    (case fc_pr f of
       None \<Rightarrow> None
     | Some pr \<Rightarrow>
         (case path of
            [n, field] \<Rightarrow>
              if n \<noteq> ''pr'' then None
              else if field = ''number'' then Some (num (pf_number pr))
              else if field = ''url'' then Some (pf_url pr)
              else if field = ''title'' then Some (pf_title pr)
              else None
          | _ \<Rightarrow> None))"

record project_row =
  pj_id :: string
  pj_name :: string
  pj_root_path :: string

record workspace_row =
  ws_id :: string
  ws_project_id :: string
  ws_kind :: string
  ws_name :: string
  ws_path :: string
  ws_branch :: "string option"
  ws_base_branch :: "string option"
  ws_archived :: bool
  ws_forgotten :: bool

datatype git_head = Branch string | Unborn string | Detached string

record place =
  pc_project :: project_row
  pc_workspace :: workspace_row
  pc_task :: "string option"
  pc_branch :: "string option"
  pc_base_branch :: "string option"

text \<open>What the store and git say.\<close>

record surroundings =
  su_workspace :: "string \<Rightarrow> workspace_row option"
  su_project :: "string \<Rightarrow> project_row option"
  su_prompts :: "string \<Rightarrow> string list"
  su_head :: "string \<Rightarrow> string + git_head"
  su_default_branch :: "string \<Rightarrow> string + string option"

definition place_load :: "surroundings \<Rightarrow> string \<Rightarrow> place option" where
  "place_load su i =
    (case su_workspace su i of
       None \<Rightarrow> None
     | Some ws \<Rightarrow>
         (case su_project su (ws_project_id ws) of
            None \<Rightarrow> None
          | Some pj \<Rightarrow>
              let branch = (case ws_branch ws of
                    Some b \<Rightarrow> Some b
                  | None \<Rightarrow> (case su_head su (ws_path ws) of Inr (Branch n) \<Rightarrow> Some n | _ \<Rightarrow> None));
                  base = (case ws_base_branch ws of
                    Some b \<Rightarrow> Some b
                  | None \<Rightarrow> (case su_default_branch su (ws_path ws) of Inr b \<Rightarrow> b | Inl _ \<Rightarrow> None))
              in Some \<lparr>pc_project = pj, pc_workspace = ws,
                pc_task = (case su_prompts su i of p # _ \<Rightarrow> Some p | [] \<Rightarrow> None),
                pc_branch = branch, pc_base_branch = (if base = branch then None else base)\<rparr>))"

definition place_var :: "place \<Rightarrow> string list \<Rightarrow> string option" where
  "place_var p path =
    (let w = pc_workspace p in
     if path = [''project'', ''name''] then Some (pj_name (pc_project p))
     else if path = [''project'', ''root''] then Some (pj_root_path (pc_project p))
     else if path = [''workspace'', ''name''] then Some (ws_name w)
     else if path = [''workspace'', ''path''] then Some (ws_path w)
     else if path = [''workspace'', ''branch''] then pc_branch p
     else if path = [''workspace'', ''base_branch''] then pc_base_branch p
     else if path = [''workspace'', ''task''] then pc_task p
     else None)"

section \<open>What a workflow needs\<close>

fun action_texts :: "action \<Rightarrow> string list" where
  "action_texts (StartSession harness prompt model effort _) =
    List.map_filter id [Some harness, prompt, model, effort]"
| "action_texts (SendToSession _ prompt _) = [prompt]"
| "action_texts (RunTest test ins _) = test # map snd ins"
| "action_texts (Notify title body) = List.map_filter id [Some title, body]"
| "action_texts (WaitSession _ _ _) = []"
| "action_texts (WaitPrActivity _ _) = []"

definition needs_pull_request :: "workflow \<Rightarrow> bool" where
  "needs_pull_request flow \<longleftrightarrow>
    list_ex (\<lambda>s. (case st_action s of WaitPrActivity _ _ \<Rightarrow> True | _ \<Rightarrow> False)
      \<or> list_ex (\<lambda>v. ph_path v \<noteq> [] \<and> hd (ph_path v) = ''pr'')
          (concat (map placeholders (action_texts (st_action s))))) (wf_steps flow)"

definition needs_origin :: "workflow \<Rightarrow> bool" where
  "needs_origin flow \<longleftrightarrow>
    list_ex (\<lambda>s. case st_action s of
        WaitSession ref _ _ \<Rightarrow> ref = Origin | SendToSession ref _ _ \<Rightarrow> ref = Origin | _ \<Rightarrow> False) (wf_steps flow)"

definition used_variables :: "workflow \<Rightarrow> string list" where
  "used_variables flow =
    map (join_with ''.'' \<circ> ph_path)
      (concat (map (\<lambda>s. concat (map placeholders (action_texts (st_action s)))) (wf_steps flow)))"

definition empty_variables :: "workflow \<Rightarrow> place \<Rightarrow> bool \<Rightarrow> string list" where
  "empty_variables flow p memory_shared =
    (let used = (\<lambda>v. v \<in> set (used_variables flow)); name = ws_name (pc_workspace p) in
     (if used ''workspace.task'' \<and> pc_task p = None
      then [''`{{ workspace.task }}` will be empty: `'' @ name @ ''` was started without a first message.''] else [])
     @ (if used ''workspace.branch'' \<and> pc_branch p = None
        then [''`{{ workspace.branch }}` will be empty: `'' @ name @ ''` is not on a branch.''] else [])
     @ (if used ''workspace.base_branch'' \<and> pc_base_branch p = None
        then [''`{{ workspace.base_branch }}` will be empty: `'' @ name
          @ ''` is on the default branch, which is based on nothing.''] else [])
     @ (if used ''memory'' \<and> \<not> memory_shared
        then [''`{{ memory }}` will be empty: '' @ pj_name (pc_project p) @ '' does not give its agents its memory.'']
        else []))"

section \<open>Inputs\<close>

text \<open>What was given for an input, or its default.\<close>

definition input_value :: "texts \<Rightarrow> input \<Rightarrow> string option" where
  "input_value given i =
    (case map_of given (in_id i) of
       Some v \<Rightarrow> if trim v \<noteq> [] then Some (trim v) else in_default i
     | None \<Rightarrow> in_default i)"

definition input_answer :: "(string \<Rightarrow> string + string) \<Rightarrow> input \<Rightarrow> string \<Rightarrow> string + string" where
  "input_answer harness i v =
    (if in_kind i = ChoiceInput \<and> v \<notin> set (in_options i)
     then Inl (''`'' @ v @ ''` is not one of the answers to `'' @ in_id i @ ''`: ''
       @ join_with '', '' (in_options i) @ ''.'')
     else if in_kind i = HarnessInput then harness v
     else Inr v)"

fun collect_inputs :: "(string \<Rightarrow> string + string) \<Rightarrow> texts \<Rightarrow> input list \<Rightarrow> inputs \<Rightarrow> string list \<Rightarrow>
    string + inputs \<times> string list" where
  "collect_inputs harness given [] got missing = Inr (got, missing)"
| "collect_inputs harness given (i # is) got missing =
    (case input_value given i of
       None \<Rightarrow> collect_inputs harness given is got
         (if in_required i then missing @ [''`'' @ in_id i @ ''` ('' @ in_label i @ '')''] else missing)
     | Some v \<Rightarrow>
         (case input_answer harness i v of
            Inl why \<Rightarrow> Inl why
          | Inr answer \<Rightarrow> collect_inputs harness given is (got(in_id i \<mapsto> answer)) missing))"

definition check_inputs :: "workflow \<Rightarrow> texts \<Rightarrow> (string \<Rightarrow> string + string) \<Rightarrow> string + inputs" where
  "check_inputs flow given harness =
    (case find (\<lambda>k. \<not> list_ex (\<lambda>i. in_id i = k) (wf_inputs flow)) (map fst given) of
       Some unknown \<Rightarrow> Inl (''`'' @ wf_id flow @ ''` has no input `'' @ unknown @ ''`. ''
         @ (if wf_inputs flow = [] then ''It asks for none.''
            else ''It asks for '' @ yaml_list (map in_id (wf_inputs flow)) @ ''.''))
     | None \<Rightarrow>
         (case collect_inputs harness given (wf_inputs flow) Map.empty [] of
            Inl why \<Rightarrow> Inl why
          | Inr (got, missing) \<Rightarrow>
              if missing \<noteq> [] then Inl (''`'' @ wf_id flow @ ''` needs '' @ join_with '', '' missing @ ''.'')
              else Inr got))"

section \<open>Queuing\<close>

datatype pr_state = PrOpen | PrMerged | PrClosed

record pull_request =
  pl_number :: nat
  pl_url :: string
  pl_title :: string
  pl_branch :: string
  pl_state :: pr_state

record look =
  lk_harness :: "string \<Rightarrow> string + string"
  lk_pull_request :: "workspace_row \<Rightarrow> string + pull_request option"

record run_request =
  rq_workflow :: string
  rq_workspace :: string
  rq_inputs :: texts
  rq_requested_by :: string
  rq_unattended :: bool

text \<open>A request for a run of a smoke test, which a workflow makes too.\<close>

record test_request =
  tq_test :: string
  tq_workspace :: string
  tq_inputs :: texts
  tq_requested_by :: string
  tq_session_record :: "string option"
  tq_unattended :: bool

definition first_error :: "('a \<Rightarrow> 'e + 'b) \<Rightarrow> 'a list \<Rightarrow> 'e option" where
  "first_error f xs = (case find (\<lambda>x. isl (f x)) xs of Some x \<Rightarrow> Some (projl (f x)) | None \<Rightarrow> None)"

text \<open>The agents a workflow names outright.\<close>

fun named_harness :: "action \<Rightarrow> string list" where
  "named_harness (StartSession harness _ _ _ _) = (if has_braces harness then [] else [harness])"
| "named_harness _ = []"

definition short_id :: "string \<Rightarrow> string" where
  "short_id i = (if 8 \<le> length i then take 8 i else i)"

definition run_facts :: "look \<Rightarrow> workflow \<Rightarrow> workspace_row \<Rightarrow> bool \<Rightarrow> ipc_error + facts" where
  "run_facts lk flow ws unattended =
    (let base = no_facts\<lparr>fc_unattended := unattended\<rparr> in
     if \<not> needs_pull_request flow then Inr base
     else (case lk_pull_request lk ws of
         Inl why \<Rightarrow> Inl (IpcError ''pull_request_unknown'' why)
       | Inr found \<Rightarrow>
           (case found of
              Some pr \<Rightarrow>
                if pl_state pr = PrOpen
                then Inr (base\<lparr>fc_pr := Some \<lparr>pf_number = pl_number pr, pf_url = pl_url pr, pf_title = pl_title pr\<rparr>\<rparr>)
                else Inl (IpcError ''pull_request_missing'' (''`'' @ wf_id flow
                  @ ''` works with the workspace's pull request, and `'' @ ws_name ws @ ''` has no open one. Open one first.''))
            | None \<Rightarrow> Inl (IpcError ''pull_request_missing'' (''`'' @ wf_id flow
                  @ ''` works with the workspace's pull request, and `'' @ ws_name ws @ ''` has no open one. Open one first.'')))))"

text \<open>The one door for a run.  Everything is checked before anything is written; \<open>fresh\<close> is the new
  run's id, and \<open>print\<close> the JSON of its inputs.\<close>

definition ask_run :: "shelf \<Rightarrow> folder \<Rightarrow> facts_json \<Rightarrow> json \<Rightarrow> (string \<Rightarrow> workspace_row option) \<Rightarrow> look \<Rightarrow>
    string \<Rightarrow> int \<Rightarrow> run_request \<Rightarrow> tables \<Rightarrow> (ipc_error + string) \<times> tables" where
  "ask_run sh files fj js workspace lk fresh now rq t =
    (case catalog_find sh files (rq_workflow rq) of
       None \<Rightarrow> (Inl (IpcError ''workflow_not_found'' (''There is no workflow `'' @ rq_workflow rq @ ''`.'')), t)
     | Some e \<Rightarrow>
         (case (if runnable e then en_workflow e else None) of
            None \<Rightarrow> (Inl (IpcError ''workflow_invalid'' (''`'' @ en_id e @ ''` has problems and cannot run. `ys workflow show ''
              @ en_id e @ ''` lists them.'')), t)
          | Some flow \<Rightarrow>
              (case (case workspace (rq_workspace rq) of Some w \<Rightarrow> if ws_forgotten w then None else Some w | None \<Rightarrow> None) of
                 None \<Rightarrow> (Inl (IpcError ''workspace_not_found'' ''That workspace is not there.''), t)
               | Some ws \<Rightarrow>
                   if ws_archived ws
                   then (Inl (IpcError ''workspace_archived'' (''`'' @ ws_name ws
                     @ ''` is archived. Restore it before running a workflow in it.'')), t)
                   else (case check_inputs flow (rq_inputs rq) (lk_harness lk) of
                       Inl why \<Rightarrow> (Inl (IpcError ''workflow_inputs'' why), t)
                     | Inr ins \<Rightarrow>
                         (case first_error (lk_harness lk) (concat (map (named_harness \<circ> st_action) (wf_steps flow))) of
                            Some why \<Rightarrow> (Inl (IpcError ''harness_not_found'' why), t)
                          | None \<Rightarrow>
                              (case run_facts lk flow ws (rq_unattended rq) of
                                 Inl err \<Rightarrow> (Inl err, t)
                               | Inr fc \<Rightarrow>
                                   (case queue_workflow_run
                                       \<lparr>nr_id = fresh, nr_workflow = wf_id flow, nr_workflow_name = wf_name flow,
                                         nr_definition = en_text e, nr_project = ws_project_id ws, nr_workspace = ws_id ws,
                                         nr_workspace_name = ws_name ws, nr_inputs = to_json js ins,
                                         nr_context = facts_to_json fj fc, nr_requested_by = rq_requested_by rq,
                                         nr_steps = map (\<lambda>s. (st_id s, action_name (st_action s))) (wf_steps flow)\<rparr> now t of
                                      (Inl (Sqlite why), t') \<Rightarrow> (Inl (IpcError ''database'' (''database error: '' @ why)), t')
                                    | (Inl _, t') \<Rightarrow> (Inl (IpcError ''database'' []), t')
                                    | (Inr Queued, t') \<Rightarrow> (Inr fresh, t')
                                    | (Inr (AlreadyRunning other), t') \<Rightarrow> (Inl (IpcError ''workflow_already_running''
                                        (''`'' @ wf_id flow @ ''` is already running in `'' @ ws_name ws @ ''` (run ''
                                          @ short_id other @ ''). Wait for it, or cancel it.'')), t'))))))))"

section \<open>Lemmas\<close>

lemma collect_inputs_ok:
  "collect_inputs harness given is got missing = Inr (got', missing') \<Longrightarrow> missing' = [] \<Longrightarrow>
    missing = [] \<and> dom got \<subseteq> dom got' \<and> dom got' \<subseteq> dom got \<union> in_id ` set is
    \<and> (\<forall>i\<in>set is. in_required i \<longrightarrow> got' (in_id i) \<noteq> None)"
proof (induction "is" arbitrary: got missing)
  case (Cons i "is")
  show ?case
  proof (cases "input_value given i")
    case None
    let ?missing = "if in_required i then missing @ [''`'' @ in_id i @ ''` ('' @ in_label i @ '')''] else missing"
    have "collect_inputs harness given is got ?missing = Inr (got', missing')"
      using Cons.prems(1) None by simp
    then have "?missing = [] \<and> dom got \<subseteq> dom got' \<and> dom got' \<subseteq> dom got \<union> in_id ` set is
        \<and> (\<forall>i\<in>set is. in_required i \<longrightarrow> got' (in_id i) \<noteq> None)"
      using Cons.IH Cons.prems(2) by blast
    then show ?thesis by (auto split: if_splits)
  next
    case (Some v)
    then obtain answer where "collect_inputs harness given is (got(in_id i \<mapsto> answer)) missing = Inr (got', missing')"
      using Cons.prems(1) by (auto split: sum.splits)
    then have "missing = [] \<and> dom (got(in_id i \<mapsto> answer)) \<subseteq> dom got'
        \<and> dom got' \<subseteq> dom (got(in_id i \<mapsto> answer)) \<union> in_id ` set is
        \<and> (\<forall>i\<in>set is. in_required i \<longrightarrow> got' (in_id i) \<noteq> None)"
      using Cons.IH Cons.prems(2) by blast
    then show ?thesis by (auto simp: subset_iff)
  qed
qed simp

lemma check_inputs_ok:
  assumes "check_inputs flow given harness = Inr ins"
  shows "dom ins \<subseteq> in_id ` set (wf_inputs flow)
    \<and> (\<forall>i\<in>set (wf_inputs flow). in_required i \<longrightarrow> ins (in_id i) \<noteq> None)"
proof -
  have "collect_inputs harness given (wf_inputs flow) Map.empty [] = Inr (ins, [])"
    using assms by (auto simp: check_inputs_def split: option.splits sum.splits prod.splits if_splits)
  from collect_inputs_ok [OF this refl] show ?thesis by auto
qed

lemma queue_workflow_run_fresh:
  assumes "queue_workflow_run n now t = (Inr Queued, t')"
  shows "workflow_run (nr_id n) t' = Some (queued_row n now)
    \<and> row_step ` set (workflow_steps (nr_id n) t') = fst ` set (nr_steps n)
    \<and> list_all (\<lambda>r. row_status r = ''pending'') (workflow_steps (nr_id n) t')"
proof -
  have acc: "run_accepted n t" and t': "t' = t\<lparr>tb_runs := tb_runs t @ [queued_row n now],
      tb_steps := tb_steps t @ pending_rows (nr_id n) (nr_steps n)\<rparr>"
    using assms by (auto simp: queue_workflow_run_def split: option.splits if_splits)
  have "find (\<lambda>r. rn_id r = nr_id n) (tb_runs t) = None"
    using acc by (auto simp: run_accepted_def find_None_iff list_all_iff)
  then have "workflow_run (nr_id n) t' = Some (queued_row n now)"
    by (simp add: t' workflow_run_def find_append queued_row_def)
  moreover have "run_steps (nr_id n) t' = pending_rows (nr_id n) (nr_steps n)"
  proof -
    have "filter (\<lambda>s. row_run s = nr_id n) (tb_steps t) = []"
      using acc by (auto simp: run_accepted_def filter_empty_conv list_all_iff)
    moreover have "filter (\<lambda>s. row_run s = nr_id n) (pending_rows (nr_id n) (nr_steps n)) = pending_rows (nr_id n) (nr_steps n)"
      using set_pending_rows by (auto simp: filter_id_conv)
    ultimately show ?thesis by (simp add: run_steps_def t')
  qed
  then have rows: "set (workflow_steps (nr_id n) t') = set (pending_rows (nr_id n) (nr_steps n))"
    by (simp add: workflow_steps_alt)
  moreover have "row_step ` set (pending_rows (nr_id n) (nr_steps n)) = fst ` set (nr_steps n)"
  proof -
    have "map row_step (pending_rows (nr_id n) (nr_steps n)) = map fst (nr_steps n)"
      unfolding pending_rows_def
      by (rule nth_equalityI) (auto simp: pending_row_def nth_enumerate_eq split: prod.splits)
    then show ?thesis by (metis list.set_map)
  qed
  ultimately show ?thesis using set_pending_rows by (auto simp: list_all_iff)
qed

text \<open>What asking comes to.\<close>

lemma ask_run_outcome:
  "case ask_run sh files fj js workspace lk fresh now rq t of
     (Inl e, t') \<Rightarrow> t' = t
   | (Inr i, t') \<Rightarrow>
       \<exists>e flow ws ins r. i = fresh \<and> catalog_find sh files (rq_workflow rq) = Some e \<and> en_workflow e = Some flow
         \<and> workspace (rq_workspace rq) = Some ws \<and> \<not> ws_archived ws \<and> \<not> ws_forgotten ws
         \<and> in_id ` set (filter in_required (wf_inputs flow)) \<subseteq> dom ins
         \<and> dom ins \<subseteq> in_id ` set (wf_inputs flow)
         \<and> workflow_run fresh t' = Some r \<and> rn_status r = ''queued'' \<and> rn_definition r = en_text e
         \<and> rn_workspace r = Some (ws_id ws) \<and> rn_inputs r = to_json js ins
         \<and> row_step ` set (workflow_steps fresh t') = st_id ` set (wf_steps flow)
         \<and> list_all (\<lambda>s. row_status s = ''pending'') (workflow_steps fresh t')"
proof (cases "ask_run sh files fj js workspace lk fresh now rq t")
  case (Pair r t')
  show ?thesis
  proof (cases r)
    case (Inl e)
    have "queue_workflow_run n now t = (q, t') \<Longrightarrow> q \<noteq> Inr Queued \<Longrightarrow> t' = t" for n q
      by (auto simp: queue_workflow_run_def split: option.splits if_splits)
    then have "t' = t"
      using Pair Inl
      by (auto simp: ask_run_def split: option.splits if_splits sum.splits prod.splits store_error.splits queued.splits)
    then show ?thesis by (simp add: Pair Inl)
  next
    case (Inr i)
    obtain e where e: "catalog_find sh files (rq_workflow rq) = Some e"
      using Pair Inr by (auto simp: ask_run_def split: option.splits)
    obtain flow where flow: "(if runnable e then en_workflow e else None) = Some flow"
      using Pair Inr e by (auto simp: ask_run_def split: option.splits)
    obtain ws where ws: "(case workspace (rq_workspace rq) of Some w \<Rightarrow> if ws_forgotten w then None else Some w | None \<Rightarrow> None) = Some ws"
      using Pair Inr e flow by (auto simp: ask_run_def split: option.splits)
    obtain ins where ins: "check_inputs flow (rq_inputs rq) (lk_harness lk) = Inr ins" and there: "\<not> ws_archived ws"
      using Pair Inr e flow ws by (auto simp: ask_run_def split: sum.splits if_splits)
    obtain fc where fc: "run_facts lk flow ws (rq_unattended rq) = Inr fc"
      using Pair Inr e flow ws ins there by (auto simp: ask_run_def split: sum.splits option.splits)
    let ?n = "\<lparr>nr_id = fresh, nr_workflow = wf_id flow, nr_workflow_name = wf_name flow,
      nr_definition = en_text e, nr_project = ws_project_id ws, nr_workspace = ws_id ws,
      nr_workspace_name = ws_name ws, nr_inputs = to_json js ins,
      nr_context = facts_to_json fj fc, nr_requested_by = rq_requested_by rq,
      nr_steps = map (\<lambda>s. (st_id s, action_name (st_action s))) (wf_steps flow)\<rparr>"
    have q: "queue_workflow_run ?n now t = (Inr Queued, t')" and i: "i = fresh"
      using Pair Inr e flow ws ins there fc
      by (auto simp: ask_run_def split: sum.splits option.splits prod.splits store_error.splits queued.splits)
    have "fst ` set (nr_steps ?n) = st_id ` set (wf_steps flow)" by force
    moreover have "workspace (rq_workspace rq) = Some ws \<and> \<not> ws_forgotten ws"
      using ws by (auto split: option.splits if_splits)
    moreover have "en_workflow e = Some flow" using flow by (simp split: if_splits)
    ultimately show ?thesis
      using queue_workflow_run_fresh [OF q] check_inputs_ok [OF ins] e there
      unfolding Pair Inr i
      by (auto simp: queued_row_def list_all_iff intro!: exI [of _ ins])
  qed
qed

text \<open>All that asking ever writes is the new run.\<close>

lemma ask_run_tables:
  "\<exists>n. snd (ask_run sh files fj js workspace lk fresh now rq t) = t
    \<or> snd (ask_run sh files fj js workspace lk fresh now rq t) = snd (queue_workflow_run n now t)"
proof -
  have "snd (case q of
      (Inl (Sqlite why), t') \<Rightarrow> (Inl (IpcError ''database'' (''database error: '' @ why)), t')
    | (Inl _, t') \<Rightarrow> (Inl (IpcError ''database'' []), t')
    | (Inr Queued, t') \<Rightarrow> (Inr fresh, t')
    | (Inr (AlreadyRunning other), t') \<Rightarrow> (Inl (IpcError ''workflow_already_running''
        (''`'' @ i @ ''` is already running in `'' @ name @ ''` (run ''
          @ short_id other @ ''). Wait for it, or cancel it.'')), t')) = snd q" for q :: "(store_error + queued) \<times> tables" and i name
    by (auto split: prod.splits sum.splits store_error.splits queued.splits)
  then show ?thesis
    unfolding ask_run_def by (auto split: option.splits sum.splits if_splits)
qed

section \<open>Properties\<close>


end
