(* ===== verification/Driver.thy ===== *)
theory Driver
  imports Asking Host
begin

text \<open>
  \<open>crates/core/src/workflow/driver.rs\<close>: carrying runs out.  A tick moves every queued and running
  run on; a plan's moves go to the store, and a step is claimed there just before its effect is
  carried out.  What the driver asks of the app, the terminals and the clock is the record
  \<open>hands\<close> over an environment of any type; before each of its statements the store may be changed
  by other processes (\<open>hn_others\<close>).  Asking the forge happens on threads of its own: what is
  known of its answers is the driver's state, and asking is \<open>driver_pr_posts\<close>.  The lemmas show
  that whatever the others do, an effect is carried out only for a step the store has just given
  the driver, and that a message is typed into a session at most once.
\<close>

section \<open>State\<close>

definition WORKSPACE_LABEL :: string where "WORKSPACE_LABEL = ''workspace''"
definition HARNESS_LABEL :: string where "HARNESS_LABEL = ''harness''"
definition RECORD_LABEL :: string where "RECORD_LABEL = ''record''"
definition RUN_LABEL :: string where "RUN_LABEL = ''run''"

definition SETTLE_BUSY_MS :: nat where "SETTLE_BUSY_MS = 8000"
definition FORGE_EVERY :: duration where "FORGE_EVERY = secs 30"
definition FORGE_LIMIT :: duration where "FORGE_LIMIT = secs 60"

datatype pr_post_kind = ReviewPost | CommentPost

record pr_post =
  po_kind :: pr_post_kind
  po_at :: int
  po_url :: "string option"

record asked =
  ak_at :: int
  ak_waiting :: bool
  ak_posts :: "pr_post list option"

record settled =
  se_threshold :: nat
  se_at :: "string \<Rightarrow> int option"

record driver =
  dr_settled :: settled
  dr_recovered :: "string list"
  dr_forge :: "string \<Rightarrow> asked option"
  dr_forge_every :: int
  dr_touched :: bool
  dr_active :: "string list"

definition driver_new :: "nat \<Rightarrow> duration \<Rightarrow> driver" where
  "driver_new settle_busy_ms forge_every =
    \<lparr>dr_settled = \<lparr>se_threshold = settle_busy_ms, se_at = Map.empty\<rparr>, dr_recovered = [],
      dr_forge = Map.empty, dr_forge_every = min (int (forge_every div 1000000)) (2 ^ 63 - 1),
      dr_touched = False, dr_active = []\<rparr>"

definition driver_default :: driver where
  "driver_default = driver_new SETTLE_BUSY_MS FORGE_EVERY"

definition settled_observe :: "host_event \<Rightarrow> int \<Rightarrow> settled \<Rightarrow> bool \<times> settled" where
  "settled_observe ev now s =
    (case ev of
       Quiet i busy_ms \<Rightarrow>
         (True, if se_threshold s \<le> busy_ms then s\<lparr>se_at := (se_at s)(i \<mapsto> now)\<rparr> else s)
     | SessionEnded _ _ \<Rightarrow> (True, s)
     | Busy _ \<Rightarrow> (False, s))"

definition driver_observe :: "host_event \<Rightarrow> int \<Rightarrow> driver \<Rightarrow> bool \<times> driver" where
  "driver_observe ev now d =
    (case settled_observe ev now (dr_settled d) of (b, s) \<Rightarrow> (b, d\<lparr>dr_settled := s\<rparr>))"

text \<open>What is known of the posts on a run's pull request, and whether the forge is asked now.\<close>

definition driver_pr_posts :: "string \<Rightarrow> int \<Rightarrow> bool \<Rightarrow> driver \<Rightarrow> pr_post list option \<times> bool \<times> driver" where
  "driver_pr_posts rid now spawned d =
    (let ak = (case dr_forge d rid of Some a \<Rightarrow> a
           | None \<Rightarrow> \<lparr>ak_at = 0, ak_waiting = False, ak_posts = None\<rparr>);
         due = (ak_posts ak = None \<or> dr_forge_every d \<le> now - ak_at ak);
         ask = (due \<and> \<not> ak_waiting ak);
         ak = (if ask then ak\<lparr>ak_at := now, ak_waiting := spawned\<rparr> else ak)
     in (ak_posts ak, ask \<and> spawned, d\<lparr>dr_forge := (dr_forge d)(rid \<mapsto> ak)\<rparr>))"

text \<open>The thread that asked puts its answer there, unless the run has ended meanwhile.\<close>

definition forge_answer :: "string \<Rightarrow> string + pr_post list \<Rightarrow> driver \<Rightarrow> driver" where
  "forge_answer rid said d =
    (case dr_forge d rid of
       None \<Rightarrow> d
     | Some ak \<Rightarrow>
         let ak = ak\<lparr>ak_waiting := False\<rparr>;
             ak = (case said of Inr posts \<Rightarrow> ak\<lparr>ak_posts := Some posts\<rparr> | Inl _ \<Rightarrow> ak)
         in d\<lparr>dr_forge := (dr_forge d)(rid \<mapsto> ak)\<rparr>)"

section \<open>Hands\<close>

record harness_request =
  hr_id :: string
  hr_model :: "string option"
  hr_effort :: "string option"
  hr_prompt :: "string option"
  hr_handoff :: bool
  hr_skip_memory :: bool
  hr_quiet_memory :: bool
  hr_skip_context :: bool
  hr_fork_packet :: "string option"

definition host_error_text :: "host_error \<Rightarrow> string" where
  "host_error_text e =
    (case e of
       UnknownSession i \<Rightarrow> ''no such session: '' @ i
     | SessionExited i \<Rightarrow> ''session has exited: '' @ i
     | OpenPty why \<Rightarrow> ''could not open a pseudo-terminal: '' @ why
     | Spawn program why \<Rightarrow> ''could not start `'' @ map (char_of \<circ> unat) program @ ''`: '' @ why
     | LeaseLost i \<Rightarrow> ''control of session '' @ i @ '' has passed to someone else''
     | ControlHeld i _ \<Rightarrow> ''someone else controls session '' @ i
     | InputOutOfOrder i expected got \<Rightarrow> ''input to session '' @ i @ '' out of order: expected ''
         @ num expected @ '', got '' @ num got
     | InvalidHolder \<Rightarrow> ''a lease holder'' @ [CHR 0x27] @ ''s name must be 1 to 128 printable characters''
     | ControlUnavailable \<Rightarrow> ''this terminal host cannot share control of its terminals''
     | Io why \<Rightarrow> why)"

text \<open>A session the host is running, and a row of \<open>agent_events\<close>, as far as the driver reads them.\<close>

record live_session =
  lv_id :: string
  lv_running :: bool
  lv_labels :: "string \<rightharpoonup> string"

record event_row =
  ev_run :: "string option"
  ev_received :: int

record 'e hands =
  hn_now :: "'e \<Rightarrow> int \<times> 'e"
  hn_others :: "'e \<Rightarrow> store_op list \<times> 'e"
  hn_answers :: "'e \<Rightarrow> (string \<times> (string + pr_post list)) list \<times> 'e"
  hn_start :: "string \<Rightarrow> harness_request \<Rightarrow> 'e \<Rightarrow> (string + string \<times> (string \<rightharpoonup> string)) \<times> 'e"
  hn_notify :: "string \<Rightarrow> string option \<Rightarrow> 'e \<Rightarrow> (string + unit) \<times> 'e"
  hn_queue_test :: "test_request \<Rightarrow> 'e \<Rightarrow> (ipc_error + string) \<times> 'e"
  hn_type :: "string \<Rightarrow> string \<Rightarrow> bool \<Rightarrow> 'e \<Rightarrow> (host_error + unit) \<times> 'e"
  hn_sleep :: "duration \<Rightarrow> 'e \<Rightarrow> 'e"
  hn_spawned :: "'e \<Rightarrow> bool"
  hn_info :: "'e \<Rightarrow> string \<Rightarrow> (bool \<times> bool) option"
  hn_list :: "'e \<Rightarrow> live_session list"
  hn_sessions :: "'e \<Rightarrow> string \<Rightarrow> string list option"
  hn_run_by_pty :: "'e \<Rightarrow> string \<Rightarrow> (string \<times> string) option"
  hn_turns :: "'e \<Rightarrow> string \<Rightarrow> event_row list option"
  hn_memory :: "'e \<Rightarrow> string \<Rightarrow> string option"
  hn_handoff :: "'e \<Rightarrow> string \<Rightarrow> string option"
  hn_test_run :: "'e \<Rightarrow> string \<Rightarrow> test_run option"
  hn_surroundings :: "'e \<Rightarrow> surroundings"

text \<open>What the driver did: a step it claimed and acted on, with the tables just after the claim;
  a text typed into a session; and a question to the forge.\<close>

datatype act = Acted string effect tables | TypedInto string string string string | AskedForge string nat

record 'e sys =
  sy_tables :: tables
  sy_env :: 'e
  sy_driver :: driver
  sy_log :: "act list"

text \<open>Other processes, and the threads that asked the forge, have their say before the driver's next statement.\<close>

definition let_others :: "'e hands \<Rightarrow> 'e sys \<Rightarrow> 'e sys" where
  "let_others hn s =
    (case hn_others hn (sy_env s) of (ops, e) \<Rightarrow>
      case hn_answers hn e of (answers, e) \<Rightarrow>
        s\<lparr>sy_tables := store_steps ops (sy_tables s), sy_env := e,
          sy_driver := fold (\<lambda>(rid, a). forge_answer rid a) answers (sy_driver s)\<rparr>)"

definition touch :: "'e sys \<Rightarrow> 'e sys" where
  "touch s = s\<lparr>sy_driver := (sy_driver s)\<lparr>dr_touched := True\<rparr>\<rparr>"

text \<open>One statement of the store, with the time it is made.\<close>

definition with_store :: "'e hands \<Rightarrow> (int \<Rightarrow> tables \<Rightarrow> 'a \<times> tables) \<Rightarrow> 'e sys \<Rightarrow> 'a \<times> 'e sys" where
  "with_store hn f s =
    (let s1 = let_others hn s in
     case hn_now hn (sy_env s1) of (now, e) \<Rightarrow>
       case f now (sy_tables s1) of (r, t) \<Rightarrow> (r, s1\<lparr>sy_tables := t, sy_env := e\<rparr>))"

definition apply_change_to :: "'e hands \<Rightarrow> string \<Rightarrow> move \<Rightarrow> 'e sys \<Rightarrow> bool \<times> 'e sys" where
  "apply_change_to hn rid m s =
    (case with_store hn (\<lambda>now. move_workflow_step rid m now) s of
       (moved, s') \<Rightarrow> (moved, if moved then touch s' else s'))"

definition still_running :: "'e hands \<Rightarrow> string \<Rightarrow> 'e sys \<Rightarrow> bool \<times> 'e sys" where
  "still_running hn rid s =
    (let s1 = let_others hn s in
     (case workflow_run rid (sy_tables s1) of Some r \<Rightarrow> rn_status r = ''running'' | None \<Rightarrow> False, s1))"

section \<open>Effects\<close>

datatype outcome =
    Did step_outputs
  | QueuedTest step_outputs
  | CouldNot string
  | NoLonger string
  | NotYet

text \<open>Type the text, wait, and submit it; a lease taken since the text leaves it unsent.\<close>

definition type_failed :: "host_error \<Rightarrow> outcome" where
  "type_failed err = CouldNot (''Could not type into the session: '' @ host_error_text err)"

definition type_into :: "'e hands \<Rightarrow> string \<Rightarrow> string \<Rightarrow> string \<Rightarrow> string \<Rightarrow> 'e sys \<Rightarrow> outcome \<times> 'e sys" where
  "type_into hn rid i pty txt s =
    (case hn_type hn pty txt True (sy_env s) of
       (Inl (ControlHeld _ _), e) \<Rightarrow> (NotYet, s\<lparr>sy_env := e\<rparr>)
     | (Inl err, e) \<Rightarrow> (type_failed err, s\<lparr>sy_env := e\<rparr>)
     | (Inr _, e) \<Rightarrow>
         (case hn_type hn pty [CHR 0x0D] False (hn_sleep hn SUBMIT_DELAY e) of
            (r, e) \<Rightarrow> (case r of Inr _ \<Rightarrow> Did Map.empty | Inl err \<Rightarrow> type_failed err,
              s\<lparr>sy_env := e, sy_log := sy_log s @ [TypedInto rid i pty txt]\<rparr>)))"

definition carry_out_effect :: "'e hands \<Rightarrow> string \<Rightarrow> place \<Rightarrow> effect \<Rightarrow> bool \<Rightarrow> string list \<Rightarrow> 'e sys \<Rightarrow>
    outcome \<times> string list \<times> 'e sys" where
  "carry_out_effect hn rid p eff unattended typed_to s =
    (let ws = ws_id (pc_workspace p) in
     case eff of
       Start i harness prompt model effort skip_memory \<Rightarrow>
         (case hn_start hn ws \<lparr>hr_id = harness, hr_model = model, hr_effort = effort, hr_prompt = prompt,
             hr_handoff = False, hr_skip_memory = skip_memory, hr_quiet_memory = True,
             hr_skip_context = False, hr_fork_packet = None\<rparr> (sy_env s) of
            (Inl why, e) \<Rightarrow> (CouldNot why, typed_to, s\<lparr>sy_env := e\<rparr>)
          | (Inr (session, labels), e) \<Rightarrow>
              let left = [''session'' \<mapsto> session];
                  left = (case labels RUN_LABEL of Some r \<Rightarrow> left(''run'' \<mapsto> r) | None \<Rightarrow> left)
              in (Did left, typed_to, s\<lparr>sy_env := e\<rparr>))
     | Paste i pty txt \<Rightarrow>
         (case hn_info hn (sy_env s) pty of
            None \<Rightarrow> (NoLonger ''the session ended before it was quiet'', typed_to, s)
          | Some (alive, busy) \<Rightarrow>
              if \<not> alive then (NoLonger ''the session ended before it was quiet'', typed_to, s)
              else if busy \<or> pty \<in> set typed_to then (NotYet, typed_to, s)
              else (case type_into hn rid i pty txt s of (out, s') \<Rightarrow> (out, pty # typed_to, s')))
     | NotifyEffect i title body \<Rightarrow>
         (case hn_notify hn title body (sy_env s) of
            (Inl why, e) \<Rightarrow> (CouldNot why, typed_to, s\<lparr>sy_env := e\<rparr>)
          | (Inr _, e) \<Rightarrow> (Did Map.empty, typed_to, s\<lparr>sy_env := e\<rparr>))
     | RunTestEffect i test ins \<Rightarrow>
         (case hn_queue_test hn \<lparr>tq_test = test, tq_workspace = ws, tq_inputs = ins, tq_requested_by = ''workflow'',
             tq_session_record = None, tq_unattended = unattended\<rparr> (sy_env s) of
            (Inl (IpcError _ why), e) \<Rightarrow> (CouldNot why, typed_to, s\<lparr>sy_env := e\<rparr>)
          | (Inr queued, e) \<Rightarrow> (QueuedTest [''run'' \<mapsto> queued], typed_to, s\<lparr>sy_env := e\<rparr>)))"

fun outcome_move :: "json \<Rightarrow> string \<Rightarrow> outcome \<Rightarrow> move" where
  "outcome_move js i (Did left) = done_move js i left"
| "outcome_move js i (QueuedTest left) = queued_move js i left"
| "outcome_move js i (CouldNot why) = failed_move i why"
| "outcome_move js i (NoLonger why) = skipped_move i why"
| "outcome_move js i NotYet = not_yet_move i"

section \<open>The world as the engine sees it\<close>

definition later_of :: "int option \<Rightarrow> int option \<Rightarrow> int option" where
  "later_of x y = (case (x, y) of (Some a, Some b) \<Rightarrow> Some (max a b) | (None, _) \<Rightarrow> y | (_, None) \<Rightarrow> x)"

definition turn_completed_at :: "'e hands \<Rightarrow> 'e \<Rightarrow> string \<Rightarrow> int option" where
  "turn_completed_at hn e pty =
    (case hn_run_by_pty hn e pty of
       None \<Rightarrow> None
     | Some (rid, ws) \<Rightarrow>
         (case hn_turns hn e ws of
            None \<Rightarrow> None
          | Some evs \<Rightarrow>
              fold (\<lambda>ev found. later_of found (Some (ev_received ev)))
                (filter (\<lambda>ev. ev_run ev = Some rid) evs) None))"

definition origin_session :: "'e hands \<Rightarrow> 'e \<Rightarrow> string \<Rightarrow> string option" where
  "origin_session hn e ws =
    (case hn_sessions hn e ws of
       None \<Rightarrow> None
     | Some records \<Rightarrow>
         let live = filter (\<lambda>l. lv_running l \<and> lv_labels l WORKSPACE_LABEL = Some ws
               \<and> lv_labels l HARNESS_LABEL \<noteq> None) (hn_list hn e);
             matching = (\<lambda>record. find (\<lambda>l. lv_labels l RECORD_LABEL = Some record) live)
         in (case find (\<lambda>record. matching record \<noteq> None) records of
               None \<Rightarrow> None
             | Some record \<Rightarrow> map_option lv_id (matching record)))"

text \<open>The posts that count: of the kind that is waited for, and not before the second the run started.\<close>

definition posts_wanted :: "pr_activity \<Rightarrow> int \<Rightarrow> pr_post list \<Rightarrow> pr_post list" where
  "posts_wanted k started posts =
    filter (\<lambda>p. started - started mod 1000 \<le> po_at p
      \<and> (case k of AnyActivity \<Rightarrow> True | Review \<Rightarrow> po_kind p = ReviewPost | Comment \<Rightarrow> po_kind p = CommentPost)) posts"

definition posts_seen :: "pr_activity \<Rightarrow> int \<Rightarrow> pr_post list \<Rightarrow> pr_seen" where
  "posts_seen k started posts =
    (let wanted = posts_wanted k started posts in
     \<lparr>pr_count = min (length wanted) (2 ^ 32 - 1),
       pr_latest_url = (if wanted = [] then None else po_url (last wanted))\<rparr>)"

definition seen :: "'e hands \<Rightarrow> int \<Rightarrow> facts \<Rightarrow> place \<Rightarrow> int \<Rightarrow> pr_post list option \<Rightarrow> settled \<Rightarrow> 'e \<Rightarrow> world" where
  "seen hn started f p now posts quiet e =
    \<lparr>w_now = now,
      w_session = (\<lambda>pty. case hn_info hn e pty of
          None \<Rightarrow> no_session
        | Some (alive, busy) \<Rightarrow>
            \<lparr>sf_alive = alive, sf_busy = busy,
              sf_settled_at = later_of (se_at quiet pty) (turn_completed_at hn e pty)\<rparr>),
      w_var = (\<lambda>path.
        if path = [''memory''] then hn_memory hn e (pj_id (pc_project p))
        else if path = [''handoff''] then hn_handoff hn e (ws_id (pc_workspace p))
        else if length path = 2 \<and> hd path = ''pr'' then facts_var f path
        else place_var p path),
      w_origin = fc_origin f,
      w_pr_activity = (\<lambda>k. case (fc_pr f, posts) of
          (Some _, Some found) \<Rightarrow> Some (posts_seen k started found) | _ \<Rightarrow> None),
      w_test_run = hn_test_run hn e\<rparr>"

text \<open>The engine looks at the pull request when a step that waits for it is waiting, or starts to.\<close>

definition consults_forge :: "workflow \<Rightarrow> step_row list \<Rightarrow> plan \<Rightarrow> bool" where
  "consults_forge flow sr p \<longleftrightarrow>
    list_ex (\<lambda>s. (case st_action s of WaitPrActivity _ _ \<Rightarrow> True | _ \<Rightarrow> False)
      \<and> (statuses sr (st_id s) = Some step_status.Waiting
        \<or> list_ex (\<lambda>m. mv_step m = st_id s \<and> mv_to m = step_status.Waiting) (pl_moves p))) (wf_steps flow)"

section \<open>Moving a run on\<close>

text \<open>The effects of a plan, each claimed just before it is carried out: whether the run was found to
  have ended, whether an effect happened, and the sessions typed to.\<close>

fun do_effects :: "'e hands \<Rightarrow> json \<Rightarrow> string \<Rightarrow> place \<Rightarrow> bool \<Rightarrow> effect list \<Rightarrow> (string \<rightharpoonup> move) \<Rightarrow> bool \<Rightarrow>
    string list \<Rightarrow> 'e sys \<Rightarrow> bool \<times> bool \<times> string list \<times> 'e sys" where
  "do_effects hn js rid p unattended [] held delivered typed_to s = (False, delivered, typed_to, s)"
| "do_effects hn js rid p unattended (eff # rest) held delivered typed_to s =
    (case held (effect_step eff) of
       None \<Rightarrow> do_effects hn js rid p unattended rest held delivered typed_to s
     | Some claim \<Rightarrow>
         (case apply_change_to hn rid claim s of
            (False, s1) \<Rightarrow>
              (case still_running hn rid s1 of
                 (False, s2) \<Rightarrow> (True, delivered, typed_to, s2)
               | (True, s2) \<Rightarrow>
                   do_effects hn js rid p unattended rest (held(effect_step eff := None)) delivered typed_to s2)
          | (True, s1) \<Rightarrow>
              (case carry_out_effect hn rid p eff unattended typed_to
                  (s1\<lparr>sy_log := sy_log s1 @ [Acted rid eff (sy_tables s1)]\<rparr>) of
                 (out, typed_to', s2) \<Rightarrow>
                   let change = outcome_move js (effect_step eff) out in
                   do_effects hn js rid p unattended rest (held(effect_step eff := None))
                     (delivered \<or> mv_to change \<noteq> step_status.Waiting) typed_to'
                     (snd (apply_change_to hn rid change s2)))))"

definition is_claim :: "effect list \<Rightarrow> move \<Rightarrow> bool" where
  "is_claim effects m \<longleftrightarrow> mv_to m = step_status.Running \<and> mv_step m \<in> set (map effect_step effects)"

definition claims_of :: "plan \<Rightarrow> string \<rightharpoonup> move" where
  "claims_of p = map_of (rev (map (\<lambda>m. (mv_step m, m)) (filter (is_claim (pl_effects p)) (pl_moves p))))"

definition apply_changes :: "'e hands \<Rightarrow> string \<Rightarrow> move list \<Rightarrow> 'e sys \<Rightarrow> 'e sys" where
  "apply_changes hn rid ms s = fold (\<lambda>m s. snd (apply_change_to hn rid m s)) ms s"

definition finish_run :: "'e hands \<Rightarrow> string \<Rightarrow> string option \<Rightarrow> 'e sys \<Rightarrow> 'e sys" where
  "finish_run hn rid why s =
    snd (with_store hn (\<lambda>now. finish_workflow_run rid (finish_status why) why now) (touch s))"

text \<open>Plan, and carry the plan out: whether another pass is wanted.\<close>

definition plan_run :: "'e hands \<Rightarrow> json \<Rightarrow> workflow \<Rightarrow> inputs \<Rightarrow> string \<Rightarrow> int \<Rightarrow> facts \<Rightarrow> place \<Rightarrow> 'e sys \<Rightarrow>
    plan \<times> 'e sys" where
  "plan_run hn js flow ins rid started f p s =
    (let s1 = let_others hn s; sr = workflow_steps rid (sy_tables s1) in
     case hn_now hn (sy_env s1) of (now, e) \<Rightarrow>
       case driver_pr_posts rid now (hn_spawned hn e) (sy_driver s1) of (posts, asking, d) \<Rightarrow>
         let plan = advance js flow ins sr (seen hn started f p now posts (dr_settled (sy_driver s1)) e) in
         (plan,
          if fc_pr f \<noteq> None \<and> consults_forge flow sr plan
          then s1\<lparr>sy_env := e, sy_driver := d,
            sy_log := sy_log s1 @ (case fc_pr f of Some pr \<Rightarrow> if asking then [AskedForge rid (pf_number pr)] else [] | None \<Rightarrow> [])\<rparr>
          else s1\<lparr>sy_env := e\<rparr>))"

definition driver_pass :: "'e hands \<Rightarrow> json \<Rightarrow> workflow \<Rightarrow> inputs \<Rightarrow> string \<Rightarrow> int \<Rightarrow> facts \<Rightarrow> place \<Rightarrow>
    string list \<Rightarrow> 'e sys \<Rightarrow> bool \<times> string list \<times> 'e sys" where
  "driver_pass hn js flow ins rid started f p typed_to s =
    (case plan_run hn js flow ins rid started f p s of
       (plan, s1) \<Rightarrow>
         (case do_effects hn js rid p (fc_unattended f) (pl_effects plan) (claims_of plan) False typed_to
             (apply_changes hn rid (filter (\<lambda>m. \<not> is_claim (pl_effects plan) m) (pl_moves plan)) s1) of
            (True, _, typed_to', s2) \<Rightarrow> (False, typed_to', s2)
          | (False, delivered, typed_to', s2) \<Rightarrow>
              (case pl_finish plan of
                 Some RunSucceeded \<Rightarrow> (False, typed_to', finish_run hn rid None s2)
               | Some (RunFailed why) \<Rightarrow> (False, typed_to', finish_run hn rid (Some why) s2)
               | None \<Rightarrow> (delivered, typed_to', s2))))"

fun driver_passes :: "'e hands \<Rightarrow> json \<Rightarrow> workflow \<Rightarrow> inputs \<Rightarrow> string \<Rightarrow> int \<Rightarrow> facts \<Rightarrow> place \<Rightarrow> nat \<Rightarrow>
    string list \<Rightarrow> 'e sys \<Rightarrow> 'e sys" where
  "driver_passes hn js flow ins rid started f p 0 typed_to s = s"
| "driver_passes hn js flow ins rid started f p (Suc n) typed_to s =
    (case driver_pass hn js flow ins rid started f p typed_to s of
       (again, typed_to', s') \<Rightarrow>
         if again then driver_passes hn js flow ins rid started f p n typed_to' s' else s')"

text \<open>A queued run starts, when nobody cancelled it since it was read: the facts it runs with and the
  time it started.\<close>

definition start_queued :: "'e hands \<Rightarrow> facts_json \<Rightarrow> workflow \<Rightarrow> string \<Rightarrow> place \<Rightarrow> facts \<Rightarrow> 'e sys \<Rightarrow>
    (facts \<times> int) option \<times> 'e sys" where
  "start_queued hn fj flow rid p f s =
    (let f = (if needs_origin flow
           then f\<lparr>fc_origin := origin_session hn (sy_env s) (ws_id (pc_workspace p))\<rparr> else f) in
     case with_store hn (\<lambda>now. start_workflow_run rid (Some (facts_to_json fj f)) now) s of
       (False, s1) \<Rightarrow> (None, s1)
     | (True, s1) \<Rightarrow>
         (case hn_now hn (sy_env s1) of
            (now, e) \<Rightarrow> (Some (f, now), touch (s1\<lparr>sy_env := e\<rparr>))))"

text \<open>Once in a driver's life, the steps of a run that were interrupted.\<close>

definition recover_run :: "'e hands \<Rightarrow> string \<Rightarrow> 'e sys \<Rightarrow> 'e sys" where
  "recover_run hn rid s =
    (if rid \<in> set (dr_recovered (sy_driver s)) then s
     else
       let s1 = let_others hn (s\<lparr>sy_driver := (sy_driver s)\<lparr>dr_recovered := rid # dr_recovered (sy_driver s)\<rparr>\<rparr>)
       in apply_changes hn rid (recover (workflow_steps rid (sy_tables s1))) s1)"

definition move_on :: "'e hands \<Rightarrow> reader \<Rightarrow> facts_json \<Rightarrow> json \<Rightarrow> run_row \<Rightarrow> 'e sys \<Rightarrow> 'e sys" where
  "move_on hn rd fj js r s =
    (case workflow_parse rd (rn_definition r) of
       Inl _ \<Rightarrow> finish_run hn (rn_id r) (Some ''The workflow file no longer checks out.'') s
     | Inr flow \<Rightarrow>
         (case (case rn_workspace r of Some ws \<Rightarrow> place_load (hn_surroundings hn (sy_env s)) ws | None \<Rightarrow> None) of
            None \<Rightarrow> finish_run hn (rn_id r) (Some ''The workspace is gone.'') s
          | Some p \<Rightarrow>
              let f = facts_parse fj (rn_context r);
                  at = (case rn_started r of Some at \<Rightarrow> at | None \<Rightarrow> rn_created r)
              in (case (if rn_status r = ''queued'' then start_queued hn fj flow (rn_id r) p f s else (Some (f, at), s)) of
                    (None, s1) \<Rightarrow> s1
                  | (Some (f, at), s1) \<Rightarrow>
                      driver_passes hn js flow (parse_outputs js (rn_inputs r)) (rn_id r) at f p
                        (Suc (length (wf_steps flow) * 3)) [] (recover_run hn (rn_id r) s1))))"

section \<open>A tick\<close>

definition driver_tick :: "'e hands \<Rightarrow> reader \<Rightarrow> facts_json \<Rightarrow> json \<Rightarrow> 'e sys \<Rightarrow> bool \<times> 'e sys" where
  "driver_tick hn rd fj js s =
    (let s = let_others hn (s\<lparr>sy_driver := (sy_driver s)\<lparr>dr_touched := False\<rparr>\<rparr>);
         runs = active_workflow_runs (sy_tables s);
         ids = map rn_id runs;
         s = (if set (dr_active (sy_driver s)) \<noteq> set ids then touch s else s);
         s = fold (move_on hn rd fj js) runs s;
         s = s\<lparr>sy_driver := (sy_driver s)\<lparr>dr_forge := dr_forge (sy_driver s) |` set ids\<rparr>\<rparr>;
         s = let_others hn s;
         s = s\<lparr>sy_driver := (sy_driver s)\<lparr>dr_active := map rn_id (active_workflow_runs (sy_tables s))\<rparr>\<rparr>
     in (dr_touched (sy_driver s), s))"

text \<open>The app ticks, passes on what the host says, and may be stopped and started again.\<close>

datatype driver_call = Ticked | Saw host_event int | Restarted

fun driver_does :: "'e hands \<Rightarrow> reader \<Rightarrow> facts_json \<Rightarrow> json \<Rightarrow> driver_call \<Rightarrow> 'e sys \<Rightarrow> 'e sys" where
  "driver_does hn rd fj js Ticked s = snd (driver_tick hn rd fj js s)"
| "driver_does hn rd fj js (Saw ev now) s = s\<lparr>sy_driver := snd (driver_observe ev now (sy_driver s))\<rparr>"
| "driver_does hn rd fj js Restarted s = s\<lparr>sy_driver := driver_default\<rparr>"

definition driver_life :: "'e hands \<Rightarrow> reader \<Rightarrow> facts_json \<Rightarrow> json \<Rightarrow> driver_call list \<Rightarrow> 'e sys \<Rightarrow> 'e sys" where
  "driver_life hn rd fj js calls s = fold (driver_does hn rd fj js) calls s"

section \<open>The shape of the moves\<close>

definition begins :: "move \<Rightarrow> bool" where
  "begins m \<longleftrightarrow> mv_from m = [Pending] \<or> mv_from m = [step_status.Waiting]"

definition ends :: "move \<Rightarrow> bool" where
  "ends m \<longleftrightarrow> mv_from m = [step_status.Running] \<and> is_final (mv_to m)"

lemma decides_begin:
  assumes "decides js ins started w steps pg pg'"
  shows "\<exists>m. pg_moves pg' = pg_moves pg @ [m] \<and> begins m"
  using assms
proof (rule decidesE)
  fix x change
  assume here: "consider_step js ins started w pg x = Some change" and pg': "pg' = apply_change js change pg"
  obtain m es where change: "change = (m, es)" by fastforce
  then have "begins m" using consider_step_move [of js ins started w pg x m es] here by (auto simp: begins_def)
  then show ?thesis by (simp add: pg' change apply_change_def)
qed

lemma decides_many_begin:
  assumes "decides_many js ins started w steps pg pg'"
  shows "\<exists>ms. pg_moves pg' = pg_moves pg @ ms \<and> list_all begins ms"
  using assms
proof (induction rule: rtranclp_induct)
  case (step y z)
  then obtain ms m where "pg_moves y = pg_moves pg @ ms" "list_all begins ms" "pg_moves z = pg_moves y @ [m]" "begins m"
    using decides_begin by blast
  then show ?case by (intro exI [of _ "ms @ [m]"]) simp
qed simp

lemma plan_begins: "list_all begins (pl_moves (advance js flow ins sr w))"
proof -
  have none: "pg_moves (first_progress js sr) = []" by (simp add: first_progress_def)
  have "pl_moves (advance js flow ins sr w)
      = pg_moves (advance_loop js ins (started_times sr) w (wf_steps flow) (first_progress js sr))"
    by (simp add: advance_fields advanced_def)
  then show ?thesis
    using decides_many_begin [OF advance_loop_decides [of js ins "started_times sr" w "wf_steps flow" "first_progress js sr"]]
    by (simp add: none)
qed

lemma recover_ends: "list_all ends (recover sr)"
  by (simp add: recover_def list_all_iff ends_def is_final_def)

lemma claims_of_Some:
  assumes "list_all begins (pl_moves p)" and "claims_of p k = Some m"
  shows "begins m \<and> mv_to m = step_status.Running \<and> mv_step m = k"
proof -
  have "(k, m) \<in> set (rev (map (\<lambda>m. (mv_step m, m)) (filter (is_claim (pl_effects p)) (pl_moves p))))"
    using assms(2) unfolding claims_of_def by (rule map_of_SomeD)
  then show ?thesis using assms(1) by (auto simp: is_claim_def list_all_iff)
qed

text \<open>Carrying out an effect leaves the tables alone; what follows it starts from \<open>Running\<close>, and ends
  the step when something was typed.\<close>

lemma type_into_shape:
  assumes "type_into hn rid i pty txt s = (out, s')"
  shows "(sy_tables s' = sy_tables s \<and> sy_log s' = sy_log s)
    \<or> (sy_tables s' = sy_tables s \<and> sy_log s' = sy_log s @ [TypedInto rid i pty txt]
      \<and> ends (outcome_move js k out) \<and> mv_step (outcome_move js k out) = k)"
  using assms
  by (auto simp: type_into_def type_failed_def ends_def is_final_def done_move_def failed_move_def move_to_def
      split: prod.splits sum.splits host_error.splits)

lemma outcome_move_from: "mv_from (outcome_move js i out) = [step_status.Running] \<and> mv_step (outcome_move js i out) = i"
  by (cases out) (simp_all add: done_move_def queued_move_def failed_move_def skipped_move_def not_yet_move_def move_to_def)

lemma carry_out_effect_shape:
  assumes "carry_out_effect hn rid p eff u ty s = (out, ty', s')"
  shows "(sy_tables s' = sy_tables s \<and> sy_log s' = sy_log s
      \<and> mv_from (outcome_move js (effect_step eff) out) = [step_status.Running]
      \<and> mv_step (outcome_move js (effect_step eff) out) = effect_step eff)
    \<or> (\<exists>pty txt. sy_tables s' = sy_tables s \<and> sy_log s' = sy_log s @ [TypedInto rid (effect_step eff) pty txt]
      \<and> ends (outcome_move js (effect_step eff) out))"
  using assms
proof (cases eff)
  case (Paste i pty msg)
  show ?thesis
  proof (cases "hn_info hn (sy_env s) pty = Some (True, False) \<and> pty \<notin> set ty")
    case True
    obtain out2 s2 where two: "type_into hn rid i pty msg s = (out2, s2)" by fastforce
    then have "out2 = out" "s2 = s'" using assms True by (auto simp: carry_out_effect_def Paste)
    then show ?thesis using type_into_shape [OF two, of js i] by (auto simp: outcome_move_from Paste)
  next
    case False
    then show ?thesis using assms
      by (auto simp: carry_out_effect_def Paste outcome_move_from Let_def split: option.splits prod.splits if_splits)
  qed
qed (auto simp: carry_out_effect_def outcome_move_from Let_def split: prod.splits sum.splits ipc_error.splits)

section \<open>What every statement of the driver keeps\<close>

text \<open>A property of the tables and of the log that the driver's statements keep, each with what the
  others do before it, holds all its life.\<close>

locale driven =
  fixes hn :: "'e hands" and good :: "tables \<Rightarrow> act list \<Rightarrow> bool"
  assumes others: "good t l \<Longrightarrow> good (store_steps (fst (hn_others hn e)) t) l"
    and starts: "good t l \<Longrightarrow> good (snd (start_workflow_run rid c now t)) l"
    and finishes: "good t l \<Longrightarrow> good (snd (finish_workflow_run rid (finish_status why) why now t)) l"
    and moves: "good t l \<Longrightarrow> begins m \<or> ends m \<Longrightarrow> good (snd (move_workflow_step rid m now t)) l"
    and asks: "good t l \<Longrightarrow> good t (l @ [AskedForge rid n])"
    and acts: "good t l \<Longrightarrow> begins m \<Longrightarrow> mv_to m = step_status.Running \<Longrightarrow> mv_step m = effect_step eff \<Longrightarrow>
      move_workflow_step rid m now t = (True, t1) \<Longrightarrow>
      (\<forall>e now n. mv_from n = [step_status.Running] \<and> mv_step n = effect_step eff \<longrightarrow>
          good (snd (move_workflow_step rid n now (store_steps (fst (hn_others hn e)) t1))) (l @ [Acted rid eff t1]))
      \<and> (\<forall>i pty txt. i = effect_step eff \<longrightarrow> good t1 (l @ [Acted rid eff t1, TypedInto rid i pty txt]))"
begin

abbreviation fine :: "'e sys \<Rightarrow> bool" where
  "fine s \<equiv> good (sy_tables s) (sy_log s)"

lemma let_others_fine: "fine s \<Longrightarrow> fine (let_others hn s)"
  by (simp add: let_others_def others split: prod.splits) (metis fst_conv others)

lemma let_others_eq:
  "\<exists>e. sy_tables (let_others hn s) = store_steps (fst (hn_others hn e)) (sy_tables s) \<and> sy_log (let_others hn s) = sy_log s"
  by (auto simp: let_others_def split: prod.splits intro!: exI [of _ "sy_env s"])

lemma touch_fine [simp]: "fine (touch s) = fine s"
  by (simp add: touch_def)

lemma with_store_fine:
  assumes "fine s" and "\<And>now t. good t (sy_log s) \<Longrightarrow> good (snd (f now t)) (sy_log s)"
  shows "fine (snd (with_store hn f s))"
proof -
  have log: "sy_log (let_others hn s) = sy_log s" by (simp add: let_others_def split: prod.splits)
  have "good (sy_tables (let_others hn s)) (sy_log s)" using let_others_fine [OF assms(1)] log by simp
  from assms(2) [OF this] show ?thesis
    by (simp add: with_store_def Let_def log split: prod.splits) (metis snd_conv)
qed

lemma apply_change_fine:
  assumes "fine s" and "begins m \<or> ends m"
  shows "fine (snd (apply_change_to hn rid m s))"
proof -
  obtain b s' where bs: "with_store hn (\<lambda>now. move_workflow_step rid m now) s = (b, s')" by fastforce
  have "fine (snd (with_store hn (\<lambda>now. move_workflow_step rid m now) s))"
    by (intro with_store_fine assms(1) moves assms(2))
  then show ?thesis by (simp add: apply_change_to_def bs)
qed

lemma apply_changes_fine:
  assumes "fine s" and "list_all (\<lambda>m. begins m \<or> ends m) ms"
  shows "fine (apply_changes hn rid ms s)"
  using assms unfolding apply_changes_def
  by (induction ms arbitrary: s) (simp_all add: apply_change_fine)

lemma finish_run_fine: "fine s \<Longrightarrow> fine (finish_run hn rid why s)"
  unfolding finish_run_def by (intro with_store_fine finishes) simp_all

lemma do_effects_fine:
  assumes "fine s" and "\<And>k m. held k = Some m \<Longrightarrow> begins m \<and> mv_to m = step_status.Running \<and> mv_step m = k"
    and "do_effects hn js rid p u effs held dl ty s = (stop, dl', ty', s')"
  shows "fine s'"
  using assms
proof (induction effs arbitrary: held dl ty s)
  case (Cons eff effs)
  let ?i = "effect_step eff" and ?held = "held(effect_step eff := None)"
  have held: "begins m \<and> mv_to m = step_status.Running \<and> mv_step m = k" if "?held k = Some m" for k m
    using Cons.prems(2) that by (auto split: if_splits)
  show ?case
  proof (cases "held ?i")
    case None
    then have "do_effects hn js rid p u effs held dl ty s = (stop, dl', ty', s')" using Cons.prems(3) by simp
    from Cons.IH [OF Cons.prems(1,2) this] show ?thesis .
  next
    case (Some claim)
    note c = Cons.prems(2) [OF Some]
    obtain b s1 where s1: "apply_change_to hn rid claim s = (b, s1)" by fastforce
    have fine1: "fine s1" using apply_change_fine [OF Cons.prems(1), of claim rid] c s1 by simp
    show ?thesis
    proof (cases b)
      case False
      obtain g s2 where s2: "still_running hn rid s1 = (g, s2)" by fastforce
      have fine2: "fine s2"
        using let_others_fine [OF fine1] s2 by (auto simp: still_running_def Let_def)
      show ?thesis
      proof (cases g)
        case True
        then have "do_effects hn js rid p u effs ?held dl ty s2 = (stop, dl', ty', s')"
          using Cons.prems(3) by (simp add: Some s1 False s2)
        from Cons.IH [OF fine2 held this] show ?thesis .
      next
        case gone: False
        then have "s' = s2" using Cons.prems(3) by (simp add: Some s1 False s2)
        then show ?thesis using fine2 by simp
      qed
    next
      case True
      obtain e where e: "sy_tables (let_others hn s) = store_steps (fst (hn_others hn e)) (sy_tables s)"
        "sy_log (let_others hn s) = sy_log s" using let_others_eq by blast
      obtain now e1 where "hn_now hn (sy_env (let_others hn s)) = (now, e1)" by fastforce
      then have t1: "move_workflow_step rid claim now (sy_tables (let_others hn s)) = (True, sy_tables s1)"
        and l1: "sy_log s1 = sy_log s"
        using s1 True e(2) by (auto simp: apply_change_to_def with_store_def touch_def Let_def split: prod.splits if_splits)
      define s1' where "s1' = s1\<lparr>sy_log := sy_log s1 @ [Acted rid eff (sy_tables s1)]\<rparr>"
      obtain out ty1 s2 where s2: "carry_out_effect hn rid p eff u ty s1' = (out, ty1, s2)"
        by (metis prod_cases3)
      define n where "n = outcome_move js ?i out"
      have "good (sy_tables (let_others hn s)) (sy_log s)" using let_others_fine [OF Cons.prems(1)] e(2) by simp
      note good = acts [OF this, of claim eff rid now "sy_tables s1"]
      have "fine (snd (apply_change_to hn rid n s2))"
        using carry_out_effect_shape [OF s2, of js]
      proof
        assume idle: "sy_tables s2 = sy_tables s1' \<and> sy_log s2 = sy_log s1' \<and> mv_from (outcome_move js ?i out) = [step_status.Running]
          \<and> mv_step (outcome_move js ?i out) = ?i"
        obtain e2 where e2: "sy_tables (let_others hn s2) = store_steps (fst (hn_others hn e2)) (sy_tables s2)"
          "sy_log (let_others hn s2) = sy_log s2" using let_others_eq by blast
        obtain now2 e3 where now2: "hn_now hn (sy_env (let_others hn s2)) = (now2, e3)" by fastforce
        obtain b3 t3 where t3: "move_workflow_step rid n now2 (sy_tables (let_others hn s2)) = (b3, t3)" by fastforce
        have "sy_tables (snd (apply_change_to hn rid n s2)) = t3" "sy_log (snd (apply_change_to hn rid n s2)) = sy_log s2"
          using now2 t3 e2(2) by (simp_all add: apply_change_to_def with_store_def touch_def Let_def)
        moreover have "good (snd (move_workflow_step rid n now2 (store_steps (fst (hn_others hn e2)) (sy_tables s1))))
            (sy_log s @ [Acted rid eff (sy_tables s1)])"
          using good c t1 idle n_def by simp
        ultimately show ?thesis using e2 t3 idle l1 by (simp add: s1'_def)
      next
        assume "\<exists>pty txt. sy_tables s2 = sy_tables s1' \<and> sy_log s2 = sy_log s1' @ [TypedInto rid ?i pty txt]
          \<and> ends (outcome_move js ?i out)"
        then obtain pty msg where typed: "sy_tables s2 = sy_tables s1" "ends n"
          "sy_log s2 = sy_log s @ [Acted rid eff (sy_tables s1), TypedInto rid ?i pty msg]"
          by (auto simp: s1'_def l1 n_def)
        have "fine s2" using good c t1 typed by simp
        then show ?thesis by (intro apply_change_fine) (simp_all add: typed)
      qed
      moreover have "do_effects hn js rid p u effs ?held (dl \<or> mv_to n \<noteq> step_status.Waiting) ty1
          (snd (apply_change_to hn rid n s2)) = (stop, dl', ty', s')"
        using Cons.prems(3) s2 by (simp add: Some s1 True s1'_def n_def Let_def)
      ultimately show ?thesis using Cons.IH [OF _ held] by blast
    qed
  qed
qed simp

lemma plan_run_fine:
  assumes "fine s" and "plan_run hn js flow ins rid started f p s = (plan, s')"
  shows "fine s' \<and> list_all begins (pl_moves plan)"
  using assms(2) let_others_fine [OF assms(1)]
  by (auto simp: plan_run_def Let_def asks plan_begins split: prod.splits option.splits if_splits)

lemma driver_pass_fine:
  assumes "fine s" and "driver_pass hn js flow ins rid started f p ty s = (again, ty', s')"
  shows "fine s'"
proof -
  obtain plan s1 where s1: "plan_run hn js flow ins rid started f p s = (plan, s1)" by fastforce
  note fine1 = plan_run_fine [OF assms(1) s1]
  define ms where "ms = filter (\<lambda>m. \<not> is_claim (pl_effects plan) m) (pl_moves plan)"
  have "list_all (\<lambda>m. begins m \<or> ends m) ms"
    using fine1 by (auto simp: ms_def list_all_iff)
  then have fine2: "fine (apply_changes hn rid ms s1)" using fine1 by (intro apply_changes_fine) simp_all
  obtain stop dl ty2 s2 where s2: "do_effects hn js rid p (fc_unattended f) (pl_effects plan) (claims_of plan) False ty
      (apply_changes hn rid ms s1) = (stop, dl, ty2, s2)" by (metis prod_cases4)
  have fine3: "fine s2"
    by (rule do_effects_fine [OF fine2 _ s2]) (use claims_of_Some fine1 in blast)
  show ?thesis
    using assms(2) fine3 finish_run_fine [OF fine3]
    by (auto simp: driver_pass_def s1 s2 [unfolded ms_def] split: bool.splits option.splits finish.splits)
qed

lemma driver_passes_fine: "fine s \<Longrightarrow> fine (driver_passes hn js flow ins rid started f p n ty s)"
proof (induction n arbitrary: ty s)
  case (Suc n)
  obtain again ty' s' where one: "driver_pass hn js flow ins rid started f p ty s = (again, ty', s')"
    by (metis prod_cases3)
  have "fine s'" by (rule driver_pass_fine [OF Suc.prems one])
  then show ?case using Suc.IH [of s' ty'] one by simp
qed simp

lemma start_queued_fine:
  assumes "fine s" and "start_queued hn fj flow rid p f s = (r, s')"
  shows "fine s'"
proof -
  define c where "c = Some (facts_to_json fj (if needs_origin flow
    then f\<lparr>fc_origin := origin_session hn (sy_env s) (ws_id (pc_workspace p))\<rparr> else f))"
  obtain b s1 where s1: "with_store hn (\<lambda>now. start_workflow_run rid c now) s = (b, s1)" by fastforce
  have "fine (snd (with_store hn (\<lambda>now. start_workflow_run rid c now) s))"
    by (intro with_store_fine assms(1) starts)
  then have "fine s1" using s1 by simp
  then show ?thesis
    using assms(2) s1 by (cases b) (auto simp: start_queued_def Let_def c_def split: prod.splits)
qed

lemma recover_run_fine:
  assumes "fine s"
  shows "fine (recover_run hn rid s)"
proof -
  define s1 where "s1 = let_others hn (s\<lparr>sy_driver := (sy_driver s)\<lparr>dr_recovered := rid # dr_recovered (sy_driver s)\<rparr>\<rparr>)"
  have "fine s1" unfolding s1_def by (rule let_others_fine) (simp add: assms)
  moreover have "list_all (\<lambda>m. begins m \<or> ends m) (recover sr)" for sr
    using recover_ends by (auto simp: list_all_iff)
  ultimately have "fine (apply_changes hn rid (recover (workflow_steps rid (sy_tables s1))) s1)"
    by (intro apply_changes_fine)
  then show ?thesis using assms by (simp add: recover_run_def Let_def s1_def)
qed

lemma move_on_fine:
  assumes "fine s"
  shows "fine (move_on hn rd fj js r s)"
proof -
  have here: "fine (case (if c then start_queued hn fj flow (rn_id r) p f s else (Some (f, at), s)) of
        (None, s1) \<Rightarrow> s1
      | (Some (f, at), s1) \<Rightarrow>
          driver_passes hn js flow (parse_outputs js (rn_inputs r)) (rn_id r) at f p
            (Suc (length (wf_steps flow) * 3)) [] (recover_run hn (rn_id r) s1))" for c flow p f at
  proof -
    obtain x s1 where s1: "(if c then start_queued hn fj flow (rn_id r) p f s else (Some (f, at), s)) = (x, s1)" by fastforce
    have "fine s1" using s1 assms start_queued_fine [OF assms] by (auto split: if_splits)
    then show ?thesis
      unfolding s1 by (auto simp del: driver_passes.simps intro: driver_passes_fine recover_run_fine split: option.splits)
  qed
  show ?thesis
    unfolding move_on_def Let_def
    using here finish_run_fine [OF assms] by (simp split: sum.splits option.splits)
qed

lemma driver_tick_fine:
  assumes "fine s"
  shows "fine (snd (driver_tick hn rd fj js s))"
proof -
  have loop: "fine (fold (move_on hn rd fj js) rs x)" if "fine x" for rs x
    using that by (induction rs arbitrary: x) (simp_all add: move_on_fine)
  define s1 where "s1 = let_others hn (s\<lparr>sy_driver := (sy_driver s)\<lparr>dr_touched := False\<rparr>\<rparr>)"
  have "fine s1" unfolding s1_def by (rule let_others_fine) (simp add: assms)
  define s2 where "s2 = (if set (dr_active (sy_driver s1)) \<noteq> set (map rn_id (active_workflow_runs (sy_tables s1)))
    then touch s1 else s1)"
  have "fine s2" using \<open>fine s1\<close> by (simp add: s2_def)
  define s3 where "s3 = fold (move_on hn rd fj js) (active_workflow_runs (sy_tables s1)) s2"
  have "fine s3" unfolding s3_def by (rule loop [OF \<open>fine s2\<close>])
  define s4 where "s4 = let_others hn (s3\<lparr>sy_driver := (sy_driver s3)\<lparr>dr_forge := dr_forge (sy_driver s3)
    |` set (map rn_id (active_workflow_runs (sy_tables s1)))\<rparr>\<rparr>)"
  have "fine s4" unfolding s4_def by (rule let_others_fine) (simp add: \<open>fine s3\<close>)
  then show ?thesis unfolding driver_tick_def Let_def s1_def [symmetric] s2_def [symmetric] s3_def [symmetric] s4_def [symmetric]
    by simp
qed

lemma driver_life_fine:
  assumes "fine s"
  shows "fine (driver_life hn rd fj js calls s)"
proof -
  have "fine (driver_does hn rd fj js call x)" if "fine x" for call x
    using that driver_tick_fine by (cases call) simp_all
  then show ?thesis using assms unfolding driver_life_def
    by (induction calls arbitrary: s) simp_all
qed

end

section \<open>Nothing is done for a step that was not just claimed\<close>

definition step_is :: "string \<Rightarrow> string \<Rightarrow> string \<Rightarrow> tables \<Rightarrow> bool" where
  "step_is status rid i t = list_ex (\<lambda>r. row_run r = rid \<and> row_step r = i \<and> row_status r = status) (tb_steps t)"

fun acted_in_time :: "act \<Rightarrow> bool" where
  "acted_in_time (Acted rid eff t) \<longleftrightarrow> run_is ''running'' rid t \<and> step_is ''running'' rid (effect_step eff) t"
| "acted_in_time (TypedInto _ _ _ _) \<longleftrightarrow> True"
| "acted_in_time (AskedForge _ _) \<longleftrightarrow> True"

lemma claimed_is_running:
  assumes "move_workflow_step rid m now t = (True, t1)" and "mv_to m = step_status.Running" and "mv_step m = i"
  shows "run_is ''running'' rid t1 \<and> step_is ''running'' rid i t1"
proof -
  have run: "run_is ''running'' rid t" using assms(1) by (auto simp: move_workflow_step_def split: if_splits)
  define f where "f = (\<lambda>r. if takes_move rid m r then moved_row m now r else r)"
  have t1: "t1 = t\<lparr>tb_steps := map f (tb_steps t)\<rparr>" and ex: "list_ex (takes_move rid m) (tb_steps t)"
    using assms(1) run by (auto simp: move_workflow_step_def f_def)
  then obtain r where r: "r \<in> set (tb_steps t)" "takes_move rid m r" by (auto simp: list_ex_iff)
  have "row_run (f r) = rid \<and> row_step (f r) = i \<and> row_status (f r) = ''running''"
    using r(2) assms(2,3) by (auto simp: f_def takes_move_def moved_row_def)
  then show ?thesis using run r(1) by (auto simp: t1 run_is_def step_is_def list_ex_iff)
qed

interpretation in_time: driven hn "\<lambda>t l. list_all acted_in_time l" for hn
  by unfold_locales (auto simp: claimed_is_running)

section \<open>A message is typed at most once\<close>

fun is_step_move :: "store_op \<Rightarrow> bool" where
  "is_step_move (MoveStep _ _ _) \<longleftrightarrow> True"
| "is_step_move _ \<longleftrightarrow> False"

text \<open>The driver is the only one that moves steps.\<close>

definition sole_driver :: "'e hands \<Rightarrow> 'e hands" where
  "sole_driver hn = hn\<lparr>hn_others := \<lambda>e. case hn_others hn e of (ops, e') \<Rightarrow> (filter (\<lambda>op. \<not> is_step_move op) ops, e')\<rparr>"

fun typed_key :: "act \<Rightarrow> (string \<times> string) list" where
  "typed_key (TypedInto rid i _ _) = [(rid, i)]"
| "typed_key (Acted _ _ _) = []"
| "typed_key (AskedForge _ _) = []"

definition typed_keys :: "act list \<Rightarrow> (string \<times> string) list" where
  "typed_keys l = concat (map typed_key l)"

text \<open>A step that can be claimed no more: its run is known, and it is neither pending nor waiting.\<close>

definition past :: "tables \<Rightarrow> string \<times> string \<Rightarrow> bool" where
  "past t k \<longleftrightarrow> fst k \<in> rn_id ` set (tb_runs t)
    \<and> list_all (\<lambda>r. (row_run r, row_step r) = k \<longrightarrow> row_status r \<noteq> ''pending'' \<and> row_status r \<noteq> ''waiting'') (tb_steps t)"

definition typed_once :: "tables \<Rightarrow> act list \<Rightarrow> bool" where
  "typed_once t l \<longleftrightarrow> tables_ok t \<and> distinct (typed_keys l) \<and> list_all (past t) (typed_keys l)"

lemma past_mono:
  assumes "past t k" and "rn_id ` set (tb_runs t) \<subseteq> rn_id ` set (tb_runs t')"
    and "\<And>r. r \<in> set (tb_steps t') \<Longrightarrow> (row_run r, row_step r) = k \<Longrightarrow>
      r \<in> set (tb_steps t) \<or> row_status r \<noteq> ''pending'' \<and> row_status r \<noteq> ''waiting''"
  shows "past t' k"
proof -
  have "row_status r \<noteq> ''pending'' \<and> row_status r \<noteq> ''waiting''"
    if "r \<in> set (tb_steps t')" "(row_run r, row_step r) = k" for r
    using assms(1) assms(3) [OF that] that by (auto simp: past_def list_all_iff)
  moreover have "fst k \<in> rn_id ` set (tb_runs t')" using assms(1,2) by (auto simp: past_def)
  ultimately show ?thesis by (simp add: past_def list_all_iff)
qed

lemma ids_kept: "(\<And>r. rn_id (f r) = rn_id r) \<Longrightarrow> rn_id ` set (map f rs) = rn_id ` set rs"
  by (induction rs) auto

lemma update_run_shape:
  assumes "\<And>r. rn_id (f r) = rn_id r"
  shows "rn_id ` set (tb_runs (snd (update_run i P f t))) = rn_id ` set (tb_runs t)
    \<and> tb_steps (snd (update_run i P f t)) = tb_steps t"
proof -
  have "rn_id ` set (map (\<lambda>r. if rn_id r = i \<and> P (rn_status r) then f r else r) (tb_runs t)) = rn_id ` set (tb_runs t)"
    by (rule ids_kept) (simp add: assms)
  then show ?thesis unfolding update_run_def by (simp del: set_map)
qed

lemma past_start: "past t k \<Longrightarrow> past (snd (start_workflow_run i c now t)) k"
  unfolding start_workflow_run_def
  by (erule past_mono) (simp_all add: update_run_shape)

lemma past_finish: "past t k \<Longrightarrow> past (snd (finish_workflow_run i st why now t)) k"
  using update_run_shape [of "\<lambda>r. r\<lparr>rn_status := st, rn_error := why, rn_ended := Some now\<rparr>" i active_status t]
  by (auto simp: finish_workflow_run_def split: prod.splits intro: past_mono [of t])

lemma past_queue:
  assumes "past t k"
  shows "past (snd (queue_workflow_run n now t)) k"
proof (rule past_mono [OF assms])
  fix r assume r: "r \<in> set (tb_steps (snd (queue_workflow_run n now t)))" "(row_run r, row_step r) = k"
  show "r \<in> set (tb_steps t) \<or> row_status r \<noteq> ''pending'' \<and> row_status r \<noteq> ''waiting''"
  proof (rule ccontr)
    assume "\<not> ?thesis"
    then have "r \<in> set (pending_rows (nr_id n) (nr_steps n))" "run_accepted n t"
      using r(1) by (auto simp: queue_workflow_run_def split: option.splits if_splits)
    then have "fst k = nr_id n" "nr_id n \<notin> rn_id ` set (tb_runs t)"
      using r(2) by (auto simp: pending_rows_def pending_row_def run_accepted_def list_all_iff)
    then show False using assms by (simp add: past_def)
  qed
qed (auto simp: queue_workflow_run_def split: option.splits)

lemma past_cancel: "past t k \<Longrightarrow> past (snd (cancel_workflow_run i reason now t)) k"
  by (rule past_mono [of t])
    (use update_run_shape [of "\<lambda>r. r\<lparr>rn_status := ''cancelled'', rn_error := Some reason, rn_ended := Some now\<rparr>" i active_status t]
      in \<open>auto simp: cancel_workflow_run_def split: prod.splits if_splits\<close>)

lemma past_move:
  assumes "past t k" and "begins m \<or> ends m"
  shows "past (snd (move_workflow_step i m now t)) k"
proof (rule past_mono [OF assms(1)])
  fix r assume r: "r \<in> set (tb_steps (snd (move_workflow_step i m now t)))" "(row_run r, row_step r) = k"
  show "r \<in> set (tb_steps t) \<or> row_status r \<noteq> ''pending'' \<and> row_status r \<noteq> ''waiting''"
  proof (rule ccontr)
    assume no: "\<not> ?thesis"
    then obtain q where q: "q \<in> set (tb_steps t)" "takes_move i m q" "r = moved_row m now q"
      using r(1) by (auto simp: move_workflow_step_def split: if_splits)
    then have "(row_run q, row_step q) = k" using r(2) by (simp add: moved_row_def)
    then have "row_status q \<noteq> ''pending''" "row_status q \<noteq> ''waiting''"
      using assms(1) q(1) by (auto simp: past_def list_all_iff)
    then have "ends m" using q(2) assms(2) by (auto simp: takes_move_def begins_def)
    then have "row_status r \<noteq> ''pending'' \<and> row_status r \<noteq> ''waiting''"
      using q(3) by (cases "mv_to m") (auto simp: ends_def is_final_def moved_row_def)
    then show False using no by blast
  qed
qed (simp add: move_workflow_step_def)

lemma past_others:
  assumes "past t k"
  shows "past (store_steps (fst (hn_others (sole_driver hn) e)) t) k"
proof -
  have one: "past (store_step op x) k" if "\<not> is_step_move op" "past x k" for op x
  proof (cases op)
    case (WorkspaceGone ws)
    have "rn_id ` set (map (\<lambda>r. if rn_workspace r = Some ws then r\<lparr>rn_workspace := None\<rparr> else r) (tb_runs x))
      = rn_id ` set (tb_runs x)" by (rule ids_kept) simp
    then show ?thesis unfolding WorkspaceGone
      by (intro past_mono [OF that(2)]) (simp_all del: set_map)
  qed (use that in \<open>simp_all add: past_queue past_start past_finish past_cancel\<close>)
  have "past (fold store_step ops x) k" if "list_all (\<lambda>op. \<not> is_step_move op) ops" "past x k" for ops x
    using that by (induction ops arbitrary: x) (simp_all add: one)
  then show ?thesis using assms
    by (simp add: sole_driver_def store_steps_def list_all_iff split: prod.splits)
qed

lemma past_move_other:
  assumes "past t k" and "k \<noteq> (i, mv_step m)"
  shows "past (snd (move_workflow_step i m now t)) k"
  by (rule past_mono [OF assms(1)])
    (use assms(2) in \<open>auto simp: move_workflow_step_def takes_move_def moved_row_def split: if_splits\<close>)

lemma claimed_is_past:
  assumes "tables_ok t" and "begins m" and "mv_to m = step_status.Running" and "move_workflow_step i m now t = (True, t1)"
  shows "\<not> past t (i, mv_step m) \<and> past t1 (i, mv_step m)"
proof -
  have run: "run_is ''running'' i t" using assms(4) by (auto simp: move_workflow_step_def split: if_splits)
  define f where "f = (\<lambda>r. if takes_move i m r then moved_row m now r else r)"
  have t1: "t1 = t\<lparr>tb_steps := map f (tb_steps t)\<rparr>" and ex: "list_ex (takes_move i m) (tb_steps t)"
    using assms(4) run by (auto simp: move_workflow_step_def f_def)
  then obtain r where r: "r \<in> set (tb_steps t)" "takes_move i m r" by (auto simp: list_ex_iff)
  then have "\<not> past t (i, mv_step m)"
    using assms(2) by (auto simp: past_def list_all_iff takes_move_def begins_def)
  moreover have "row_status (f q) = ''running''" if q: "q \<in> set (tb_steps t)" "row_run (f q) = i" "row_step (f q) = mv_step m" for q
  proof -
    have "row_run q = i" "row_step q = mv_step m" using q by (auto simp: f_def moved_row_def split: if_splits)
    then have "q = r" using run_step_unique [OF assms(1) q(1) r(1)] r(2) by (auto simp: takes_move_def)
    then show ?thesis using r(2) assms(3) by (simp add: f_def moved_row_def)
  qed
  moreover have "i \<in> rn_id ` set (tb_runs t)" using run by (auto simp: run_is_def list_ex_iff)
  ultimately show ?thesis by (auto simp: past_def list_all_iff t1)
qed

lemma typed_once_keeps:
  assumes "typed_once t l" and "tables_ok t'" and "\<And>k. k \<in> set (typed_keys l) \<Longrightarrow> past t k \<Longrightarrow> past t' k"
    and "typed_keys l' = typed_keys l"
  shows "typed_once t' l'"
  using assms by (auto simp: typed_once_def list_all_iff)

lemma typed_keys_append [simp]: "typed_keys (l @ l') = typed_keys l @ typed_keys l'"
  by (simp add: typed_keys_def)

lemma typed_keys_simps [simp]:
  "typed_keys [Acted rid eff t] = []" "typed_keys [AskedForge rid n] = []"
  "typed_keys [Acted rid eff t, TypedInto rid i pty txt] = [(rid, i)]"
  by (simp_all add: typed_keys_def)

interpretation once: driven "sole_driver hn" typed_once for hn
proof (unfold_locales, goal_cases)
  case (1 t l e)
  show ?case by (rule typed_once_keeps [OF 1]) (use 1 in \<open>simp_all add: store_steps_ok past_others typed_once_def\<close>)
next
  case (2 t l rid c now)
  show ?case by (rule typed_once_keeps [OF 2]) (use 2 in \<open>simp_all add: start_ok past_start typed_once_def\<close>)
next
  case (3 t l rid why now)
  show ?case by (rule typed_once_keeps [OF 3]) (use 3 store_step_ok [of t "FinishRun rid why now"] in \<open>simp_all add: past_finish typed_once_def\<close>)
next
  case (4 t l m rid now)
  show ?case by (rule typed_once_keeps [OF 4(1)]) (use 4 in \<open>simp_all add: move_ok past_move typed_once_def\<close>)
next
  case (5 t l rid n)
  show ?case by (rule typed_once_keeps [OF 5]) (use 5 in \<open>simp_all add: typed_once_def\<close>)
next
  case (6 t l m eff rid now t1)
  let ?k = "(rid, effect_step eff)"
  have ok: "tables_ok t" using 6(1) by (simp add: typed_once_def)
  have ok1: "tables_ok t1" using move_ok [OF ok, of rid m now] 6(5) by simp
  note claimed = claimed_is_past [OF ok 6(2,3,5)]
  have new: "?k \<notin> set (typed_keys l)" using claimed 6(1,4) by (auto simp: typed_once_def list_all_iff)
  have step1: "past t1 k" if "past t k" for k
    using past_move [OF that, of m rid now] 6(2,5) by simp
  have again: "typed_once (snd (move_workflow_step rid n nw (store_steps (fst (hn_others (sole_driver hn) e)) t1))) (l @ [Acted rid eff t1])"
    if "mv_step n = effect_step eff" for e nw n
  proof (rule typed_once_keeps [OF 6(1)])
    fix k assume "k \<in> set (typed_keys l)" "past t k"
    then show "past (snd (move_workflow_step rid n nw (store_steps (fst (hn_others (sole_driver hn) e)) t1))) k"
      using new that by (intro past_move_other past_others step1) auto
  qed (simp_all add: move_ok store_steps_ok ok1)
  moreover have "typed_once t1 (l @ [Acted rid eff t1, TypedInto rid i pty msg])" if "i = effect_step eff" for i pty msg
    using 6(1,4) new that claimed ok1 step1 by (auto simp: typed_once_def list_all_iff)
  ultimately show ?case by blast
qed

section \<open>Properties\<close>

definition fresh_driver :: "tables \<Rightarrow> 'e \<Rightarrow> 'e sys" where
  "fresh_driver t e = \<lparr>sy_tables = t, sy_env = e, sy_driver = driver_default, sy_log = []\<rparr>"

text \<open>
  C4. Whatever other processes do to the tables between any two statements of the driver, an agent is
  started, a message typed, a test queued or a notification shown only for a step that the store has
  just marked running, of a run that was running at that moment: a cancelled run does nothing more.
\<close>

theorem effects_only_for_claimed_steps:
  "list_all acted_in_time (sy_log (driver_life hn rd fj js calls (fresh_driver t e)))"
  by (rule in_time.driver_life_fine) (simp add: fresh_driver_def)


end
