(* ===== verification/Agenda.thy ===== *)
theory Agenda
  imports When Runs_Store "HOL-Library.List_Lexorder" "HOL-Library.Char_ord"
begin

text \<open>
  \<open>crates/core/src/store/schedules.rs\<close>: the tables of schedules and of the times they came due, as its
  SQL statements change them, beside the tables of workflow runs.  A new row's id and the time are
  arguments.  The one rule two processes must agree on is here: a time is taken by moving
  \<open>next_at\<close> on, where it still is what it was.  The lemmas show that no time is taken twice,
  whoever looks, and that the line of a run that is still going is never dropped.
\<close>

section \<open>Rows\<close>

definition SCHEDULE_RUNS_KEPT :: nat where
  "SCHEDULE_RUNS_KEPT = 200"

record schedule_row =
  sk_id :: string
  sk_name :: string
  sk_target_kind :: string
  sk_target :: string
  sk_project :: string
  sk_workspace :: "string option"
  sk_workspace_name :: string
  sk_inputs :: string
  sk_spec :: string
  sk_missed :: string
  sk_notify :: string
  sk_enabled :: bool
  sk_next :: "int option"
  sk_created_by :: string
  sk_created :: int
  sk_updated :: int

record schedule_fields =
  sf_name :: string
  sf_target_kind :: string
  sf_target :: string
  sf_project :: string
  sf_workspace :: string
  sf_workspace_name :: string
  sf_inputs :: string
  sf_spec :: string
  sf_missed :: string
  sf_notify :: string
  sf_next :: "int option"

record schedule_run_row =
  sr_id :: string
  sr_schedule :: string
  sr_due :: int
  sr_fired :: int
  sr_outcome :: string
  sr_manual :: bool
  sr_run :: "string option"
  sr_note :: "string option"
  sr_result :: "string option"
  sr_notified :: "int option"
  sr_told_waiting :: bool

record new_schedule_run =
  ns_schedule :: string
  ns_due :: int
  ns_fired :: int
  ns_outcome :: string
  ns_manual :: bool
  ns_run :: "string option"
  ns_note :: "string option"

text \<open>The tables of runs, the projects that were removed from the app, and the two tables of schedules.\<close>

record agenda =
  ag_tables :: tables
  ag_removed :: "string list"
  ag_rows :: "schedule_row list"
  ag_runs :: "schedule_run_row list"

section \<open>Schedules\<close>

definition schedule_allowed :: "schedule_fields \<Rightarrow> agenda \<Rightarrow> bool" where
  "schedule_allowed f a \<longleftrightarrow>
    sf_target_kind f \<in> {''workflow'', ''test''} \<and> sf_missed f \<in> {''run_once'', ''skip''}
    \<and> sf_notify f \<in> {''failure'', ''always'', ''never''}
    \<and> sf_project f \<in> set (tb_projects (ag_tables a)) \<and> sf_workspace f \<in> set (tb_workspaces (ag_tables a))"

definition new_schedule_row :: "string \<Rightarrow> schedule_fields \<Rightarrow> string \<Rightarrow> int \<Rightarrow> schedule_row" where
  "new_schedule_row i f created_by now =
    \<lparr>sk_id = i, sk_name = sf_name f, sk_target_kind = sf_target_kind f, sk_target = sf_target f,
      sk_project = sf_project f, sk_workspace = Some (sf_workspace f), sk_workspace_name = sf_workspace_name f,
      sk_inputs = sf_inputs f, sk_spec = sf_spec f, sk_missed = sf_missed f, sk_notify = sf_notify f,
      sk_enabled = True, sk_next = sf_next f, sk_created_by = created_by, sk_created = now, sk_updated = now\<rparr>"

definition find_schedule :: "string \<Rightarrow> agenda \<Rightarrow> schedule_row option" where
  "find_schedule i a = find (\<lambda>r. sk_id r = i) (ag_rows a)"

definition add_schedule :: "string \<Rightarrow> schedule_fields \<Rightarrow> string \<Rightarrow> int \<Rightarrow> agenda \<Rightarrow>
    (store_error + schedule_row) \<times> agenda" where
  "add_schedule i f created_by now a =
    (if schedule_allowed f a \<and> created_by \<in> {''app'', ''cli''} \<and> find_schedule i a = None
     then (Inr (new_schedule_row i f created_by now),
       a\<lparr>ag_rows := ag_rows a @ [new_schedule_row i f created_by now]\<rparr>)
     else (Inl constraint_failed, a))"

text \<open>An \<open>UPDATE\<close> of the schedule with this id, where its row allows it: whether a row changed.\<close>

definition update_rows :: "string \<Rightarrow> (schedule_row \<Rightarrow> bool) \<Rightarrow> (schedule_row \<Rightarrow> schedule_row) \<Rightarrow> agenda \<Rightarrow> bool \<times> agenda" where
  "update_rows i allowed f a =
    (list_ex (\<lambda>r. sk_id r = i \<and> allowed r) (ag_rows a),
     a\<lparr>ag_rows := map (\<lambda>r. if sk_id r = i \<and> allowed r then f r else r) (ag_rows a)\<rparr>)"

definition changed_row :: "schedule_fields \<Rightarrow> int \<Rightarrow> schedule_row \<Rightarrow> schedule_row" where
  "changed_row f now r =
    r\<lparr>sk_name := sf_name f, sk_target_kind := sf_target_kind f, sk_target := sf_target f,
      sk_project := sf_project f, sk_workspace := Some (sf_workspace f),
      sk_workspace_name := sf_workspace_name f, sk_inputs := sf_inputs f, sk_spec := sf_spec f,
      sk_missed := sf_missed f, sk_notify := sf_notify f, sk_next := sf_next f, sk_updated := now\<rparr>"

definition update_schedule :: "string \<Rightarrow> schedule_fields \<Rightarrow> int \<Rightarrow> agenda \<Rightarrow> (store_error + bool) \<times> agenda" where
  "update_schedule i f now a =
    (if find_schedule i a = None then (Inr False, a)
     else if \<not> schedule_allowed f a then (Inl constraint_failed, a)
     else case update_rows i (\<lambda>r. True) (changed_row f now) a of
       (changed, a') \<Rightarrow> (Inr changed, a'))"

definition live_project :: "agenda \<Rightarrow> string \<Rightarrow> bool" where
  "live_project a p \<longleftrightarrow> p \<in> set (tb_projects (ag_tables a)) \<and> p \<notin> set (ag_removed a)"

text \<open>\<open>ORDER BY name COLLATE NOCASE, created_at\<close>.\<close>

definition all_schedules :: "agenda \<Rightarrow> schedule_row list" where
  "all_schedules a =
    sort_key (\<lambda>r. ascii_lower (sk_name r))
      (sort_key sk_created (filter (\<lambda>r. live_project a (sk_project r)) (ag_rows a)))"

definition is_due :: "int \<Rightarrow> agenda \<Rightarrow> schedule_row \<Rightarrow> bool" where
  "is_due now a r \<longleftrightarrow>
    sk_enabled r \<and> (case sk_next r of Some n \<Rightarrow> n \<le> now | None \<Rightarrow> False) \<and> live_project a (sk_project r)"

definition due_schedules :: "int \<Rightarrow> agenda \<Rightarrow> schedule_row list" where
  "due_schedules now a =
    sort_key (\<lambda>r. case sk_next r of Some n \<Rightarrow> n | None \<Rightarrow> 0) (sort_key sk_created (filter (is_due now a) (ag_rows a)))"

definition waiting_schedules :: "agenda \<Rightarrow> schedule_row list" where
  "waiting_schedules a =
    filter (\<lambda>r. sk_enabled r \<and> sk_next r \<noteq> None \<and> live_project a (sk_project r)) (ag_rows a)"

definition claim_schedule :: "string \<Rightarrow> int \<Rightarrow> int option \<Rightarrow> agenda \<Rightarrow> bool \<times> agenda" where
  "claim_schedule i due next_at a =
    update_rows i (\<lambda>r. sk_enabled r \<and> sk_next r = Some due)
      (\<lambda>r. r\<lparr>sk_next := next_at, sk_enabled := (if next_at = None then False else sk_enabled r)\<rparr>) a"

definition stall_schedule :: "string \<Rightarrow> int \<Rightarrow> agenda \<Rightarrow> bool \<times> agenda" where
  "stall_schedule i due a =
    update_rows i (\<lambda>r. sk_enabled r \<and> sk_next r = Some due) (\<lambda>r. r\<lparr>sk_next := None\<rparr>) a"

definition move_schedule :: "string \<Rightarrow> int \<Rightarrow> int option \<Rightarrow> agenda \<Rightarrow> bool \<times> agenda" where
  "move_schedule i was to a =
    update_rows i (\<lambda>r. sk_enabled r \<and> sk_next r = Some was) (\<lambda>r. r\<lparr>sk_next := to\<rparr>) a"

definition set_schedule_enabled :: "string \<Rightarrow> bool \<Rightarrow> int option \<Rightarrow> int \<Rightarrow> agenda \<Rightarrow> bool \<times> agenda" where
  "set_schedule_enabled i enabled next_at now a =
    (if enabled
     then update_rows i (\<lambda>r. True) (\<lambda>r. r\<lparr>sk_enabled := True, sk_next := next_at, sk_updated := now\<rparr>) a
     else update_rows i (\<lambda>r. True) (\<lambda>r. r\<lparr>sk_enabled := False, sk_updated := now\<rparr>) a)"

text \<open>Its history goes with it (\<open>ON DELETE CASCADE\<close>).\<close>

definition remove_schedule :: "string \<Rightarrow> agenda \<Rightarrow> bool \<times> agenda" where
  "remove_schedule i a =
    (find_schedule i a \<noteq> None,
     a\<lparr>ag_rows := filter (\<lambda>r. sk_id r \<noteq> i) (ag_rows a), ag_runs := filter (\<lambda>l. sr_schedule l \<noteq> i) (ag_runs a)\<rparr>)"

definition schedules_stamp :: "agenda \<Rightarrow> nat \<times> int" where
  "schedules_stamp a = (length (ag_rows a), if ag_rows a = [] then 0 else Max (set (map sk_updated (ag_rows a))))"

section \<open>The times a schedule came due\<close>

definition new_run_line :: "string \<Rightarrow> new_schedule_run \<Rightarrow> schedule_run_row" where
  "new_run_line i n =
    \<lparr>sr_id = i, sr_schedule = ns_schedule n, sr_due = ns_due n, sr_fired = ns_fired n, sr_outcome = ns_outcome n,
      sr_manual = ns_manual n, sr_run = ns_run n, sr_note = ns_note n, sr_result = None, sr_notified = None,
      sr_told_waiting = False\<rparr>"

text \<open>Newest first: by the time it was acted on, and the later row of one time first.\<close>

definition schedule_lines :: "string \<Rightarrow> schedule_run_row list \<Rightarrow> schedule_run_row list" where
  "schedule_lines i ls = rev (sort_key sr_fired (filter (\<lambda>l. sr_schedule l = i) ls))"

definition unsettled :: "schedule_run_row \<Rightarrow> bool" where
  "unsettled l \<longleftrightarrow> sr_outcome l = ''started'' \<and> sr_result l = None"

text \<open>Drop the schedule's oldest beyond what is kept, but never the line of a run that goes on.\<close>

definition prune_lines :: "string \<Rightarrow> schedule_run_row list \<Rightarrow> schedule_run_row list" where
  "prune_lines i ls =
    (let kept = map sr_id (take SCHEDULE_RUNS_KEPT (schedule_lines i ls)) in
     filter (\<lambda>l. sr_schedule l \<noteq> i \<or> unsettled l \<or> sr_id l \<in> set kept) ls)"

definition no_row :: store_error where
  "no_row = Sqlite ''Query returned no rows''"

text \<open>The row is read back before the transaction ends, so one that is dropped at once, its time being
  older than all that are kept, is an error and nothing is written.\<close>

definition record_schedule_run :: "string \<Rightarrow> new_schedule_run \<Rightarrow> agenda \<Rightarrow> (store_error + schedule_run_row) \<times> agenda" where
  "record_schedule_run i n a =
    (if list_all (\<lambda>l. sr_id l \<noteq> i) (ag_runs a) \<and> find_schedule (ns_schedule n) a \<noteq> None
       \<and> ns_outcome n \<in> {''started'', ''skipped'', ''missed'', ''refused''}
     then
       let lines = prune_lines (ns_schedule n) (ag_runs a @ [new_run_line i n]) in
       if list_ex (\<lambda>l. sr_id l = i) lines then (Inr (new_run_line i n), a\<lparr>ag_runs := lines\<rparr>) else (Inl no_row, a)
     else (Inl constraint_failed, a))"

definition schedule_runs :: "string \<Rightarrow> nat \<Rightarrow> agenda \<Rightarrow> schedule_run_row list" where
  "schedule_runs i limit a = take limit (schedule_lines i (ag_runs a))"

definition latest_schedule_runs :: "agenda \<Rightarrow> schedule_run_row list" where
  "latest_schedule_runs a =
    filter (\<lambda>l. case schedule_lines (sr_schedule l) (ag_runs a) of newest # _ \<Rightarrow> newest = l | [] \<Rightarrow> False) (ag_runs a)"

definition unsettled_schedule_runs :: "agenda \<Rightarrow> schedule_run_row list" where
  "unsettled_schedule_runs a = sort_key sr_fired (filter unsettled (ag_runs a))"

definition update_lines :: "string \<Rightarrow> (schedule_run_row \<Rightarrow> bool) \<Rightarrow> (schedule_run_row \<Rightarrow> schedule_run_row) \<Rightarrow> agenda \<Rightarrow> bool \<times> agenda" where
  "update_lines i allowed f a =
    (list_ex (\<lambda>l. sr_id l = i \<and> allowed l) (ag_runs a),
     a\<lparr>ag_runs := map (\<lambda>l. if sr_id l = i \<and> allowed l then f l else l) (ag_runs a)\<rparr>)"

definition settle_schedule_run :: "string \<Rightarrow> string \<Rightarrow> bool \<Rightarrow> int \<Rightarrow> agenda \<Rightarrow> bool \<times> agenda" where
  "settle_schedule_run i result notified now a =
    update_lines i (\<lambda>l. sr_result l = None)
      (\<lambda>l. l\<lparr>sr_result := Some result, sr_notified := (if notified then Some now else None)\<rparr>) a"

definition mark_told_waiting :: "string \<Rightarrow> agenda \<Rightarrow> bool \<times> agenda" where
  "mark_told_waiting i a = update_lines i (\<lambda>l. \<not> sr_told_waiting l) (\<lambda>l. l\<lparr>sr_told_waiting := True\<rparr>) a"

definition scheduled_runs :: "agenda \<Rightarrow> (string \<times> string \<times> string) list" where
  "scheduled_runs a =
    List.map_filter (\<lambda>l. case (sr_run l, find_schedule (sr_schedule l) a) of
        (Some run_id, Some s) \<Rightarrow> Some (run_id, sk_id s, sk_name s) | _ \<Rightarrow> None)
      (rev (sort_key sr_fired (ag_runs a)))"

text \<open>A workspace that is deleted is forgotten by its schedules too (\<open>ON DELETE SET NULL\<close>); a project that
  is removed from the app keeps its rows.\<close>

definition workspace_deleted :: "string \<Rightarrow> agenda \<Rightarrow> agenda" where
  "workspace_deleted ws a =
    a\<lparr>ag_tables := store_step (WorkspaceGone ws) (ag_tables a),
      ag_rows := map (\<lambda>r. if sk_workspace r = Some ws then r\<lparr>sk_workspace := None\<rparr> else r) (ag_rows a)\<rparr>"

definition project_removed :: "string \<Rightarrow> agenda \<Rightarrow> agenda" where
  "project_removed p a = a\<lparr>ag_removed := p # ag_removed a\<rparr>"

section \<open>No time is taken twice\<close>

text \<open>What anyone does to the schedules, each at the time its own clock shows: adding and changing them,
  taking a time, giving up on one, moving one to another zone, switching on and off, and deleting.\<close>

datatype agenda_op =
    AddSchedule string schedule_fields string
  | ChangeSchedule string schedule_fields
  | TakeTime string int "int option"
  | StallTime string int
  | MoveTime string int "int option"
  | SwitchSchedule string bool "int option"
  | DropSchedule string
  | DeleteWorkspace string
  | RemoveProject string

text \<open>The agenda afterwards, and the times that were taken.\<close>

fun agenda_step :: "agenda_op \<times> int \<Rightarrow> agenda \<Rightarrow> (string \<times> int) list \<times> agenda" where
  "agenda_step (AddSchedule i f who, now) a = ([], snd (add_schedule i f who now a))"
| "agenda_step (ChangeSchedule i f, now) a = ([], snd (update_schedule i f now a))"
| "agenda_step (TakeTime i due next_at, now) a =
    (case claim_schedule i due next_at a of (taken, a') \<Rightarrow> (if taken then [(i, due)] else [], a'))"
| "agenda_step (StallTime i due, now) a =
    (case stall_schedule i due a of (taken, a') \<Rightarrow> (if taken then [(i, due)] else [], a'))"
| "agenda_step (MoveTime i was to, now) a = ([], snd (move_schedule i was to a))"
| "agenda_step (SwitchSchedule i on next_at, now) a = ([], snd (set_schedule_enabled i on next_at now a))"
| "agenda_step (DropSchedule i, now) a = ([], snd (remove_schedule i a))"
| "agenda_step (DeleteWorkspace ws, now) a = ([], workspace_deleted ws a)"
| "agenda_step (RemoveProject p, now) a = ([], project_removed p a)"

fun agenda_steps :: "(agenda_op \<times> int) list \<Rightarrow> agenda \<Rightarrow> (string \<times> int) list \<times> agenda" where
  "agenda_steps [] a = ([], a)"
| "agenda_steps (op # ops) a =
    (case agenda_step op a of (taken, a') \<Rightarrow>
      case agenda_steps ops a' of (later, a'') \<Rightarrow> (taken @ later, a''))"

text \<open>A time that is given to a schedule is still to come, and one that is taken has come.\<close>

definition to_come :: "int \<Rightarrow> int option \<Rightarrow> bool" where
  "to_come now next_at = (case next_at of Some n \<Rightarrow> now < n | None \<Rightarrow> True)"

fun in_time :: "agenda_op \<times> int \<Rightarrow> bool" where
  "in_time (AddSchedule i f who, now) = to_come now (sf_next f)"
| "in_time (ChangeSchedule i f, now) = to_come now (sf_next f)"
| "in_time (TakeTime i due next_at, now) = (due \<le> now \<and> to_come now next_at)"
| "in_time (StallTime i due, now) = (due \<le> now)"
| "in_time (MoveTime i was to, now) = to_come now to"
| "in_time (SwitchSchedule i on next_at, now) = to_come now next_at"
| "in_time (DropSchedule i, now) = True"
| "in_time (DeleteWorkspace ws, now) = True"
| "in_time (RemoveProject p, now) = True"

text \<open>No schedule has a time that is not later than \<open>low\<close> says for it.\<close>

definition times_above :: "(string \<Rightarrow> int) \<Rightarrow> agenda \<Rightarrow> bool" where
  "times_above low a \<longleftrightarrow> list_all (\<lambda>r. case sk_next r of Some n \<Rightarrow> low (sk_id r) < n | None \<Rightarrow> True) (ag_rows a)"

lemma above_map:
  assumes "times_above low a" and "\<And>r. r \<in> set (ag_rows a) \<Longrightarrow> sk_id (f r) = sk_id r"
    and "\<And>r n. r \<in> set (ag_rows a) \<Longrightarrow> sk_next (f r) = Some n \<Longrightarrow> sk_next r = Some n \<or> low (sk_id r) < n"
  shows "times_above low (a\<lparr>ag_rows := map f (ag_rows a)\<rparr>)"
proof -
  have "case sk_next (f r) of Some n \<Rightarrow> low (sk_id (f r)) < n | None \<Rightarrow> True" if r: "r \<in> set (ag_rows a)" for r
  proof (cases "sk_next (f r)")
    case (Some n)
    then show ?thesis using assms(1) assms(2) [OF r] assms(3) [OF r Some] r
      by (auto simp: times_above_def list_all_iff)
  qed simp
  then show ?thesis by (simp add: times_above_def list_all_iff)
qed

lemma above_update:
  assumes "times_above low a" and "\<And>r. sk_id (f r) = sk_id r"
    and "\<And>r n. sk_next (f r) = Some n \<Longrightarrow> sk_next r = Some n \<or> low (sk_id r) < n"
  shows "times_above low (snd (update_rows i P f a))"
  unfolding update_rows_def snd_conv
  by (rule above_map [OF assms(1)]) (use assms(2,3) in \<open>auto split: if_splits\<close>)

lemma above_mono: "times_above low a \<Longrightarrow> (\<And>i. low' i \<le> low i) \<Longrightarrow> times_above low' a"
  unfolding times_above_def list_all_iff by (auto split: option.splits) (meson le_less_trans)

text \<open>A time that is not taken leaves every time above what it was above; one that is taken raises it.\<close>

lemma untaken_above:
  assumes "times_above low a" and "\<And>i. low i \<le> now" and "in_time (op, now)"
    and "agenda_step (op, now) a = ([], a')"
  shows "times_above low a'"
proof -
  have to: "low i < n" if "to_come now x" "x = Some n" for i x n
    using that assms(2) [of i] by (auto simp: to_come_def)
  note keep = above_update [OF assms(1)]
  show ?thesis
  proof (cases op)
    case (AddSchedule i f who)
    then show ?thesis using assms to [of "sf_next f"]
      by (auto simp: add_schedule_def times_above_def new_schedule_row_def split: option.splits if_splits)
  next
    case (ChangeSchedule i f)
    have "times_above low (snd (update_rows i (\<lambda>r. True) (changed_row f now) a))"
      by (rule keep) (use assms(3) to [of "sf_next f"] ChangeSchedule in \<open>auto simp: changed_row_def\<close>)
    then have "times_above low (snd (update_schedule i f now a))"
      using assms(1) by (auto simp: update_schedule_def split: prod.splits)
    then show ?thesis using assms(4) ChangeSchedule by simp
  next
    case (TakeTime i due next_at)
    have "times_above low (snd (claim_schedule i due next_at a))"
      unfolding claim_schedule_def by (rule keep) (use assms(3) to TakeTime in auto)
    then show ?thesis using assms(4) TakeTime by (auto split: prod.splits if_splits)
  next
    case (StallTime i due)
    have "times_above low (snd (stall_schedule i due a))"
      unfolding stall_schedule_def by (rule keep) auto
    then show ?thesis using assms(4) StallTime by (auto split: prod.splits if_splits)
  next
    case (MoveTime i was to_at)
    have "times_above low (snd (move_schedule i was to_at a))"
      unfolding move_schedule_def by (rule keep) (use assms(3) to MoveTime in auto)
    then show ?thesis using assms(4) MoveTime by simp
  next
    case (SwitchSchedule i on next_at)
    have "times_above low (snd (set_schedule_enabled i on next_at now a))"
      using keep [of "\<lambda>r. r\<lparr>sk_enabled := True, sk_next := next_at, sk_updated := now\<rparr>" i "\<lambda>r. True"]
        keep [of "\<lambda>r. r\<lparr>sk_enabled := False, sk_updated := now\<rparr>" i "\<lambda>r. True"] assms(3) to SwitchSchedule
      by (auto simp: set_schedule_enabled_def)
    then show ?thesis using assms(4) SwitchSchedule by simp
  next
    case (DropSchedule i)
    then show ?thesis using assms(1,4) by (auto simp: remove_schedule_def times_above_def list_all_iff)
  next
    case (DeleteWorkspace ws)
    have "times_above low (a\<lparr>ag_rows := map (\<lambda>r. if sk_workspace r = Some ws then r\<lparr>sk_workspace := None\<rparr> else r) (ag_rows a)\<rparr>)"
      by (rule above_map [OF assms(1)]) (auto split: if_splits)
    then show ?thesis using assms(4) DeleteWorkspace by (auto simp: workspace_deleted_def times_above_def)
  next
    case (RemoveProject p)
    then show ?thesis using assms(1,4) by (auto simp: project_removed_def times_above_def)
  qed
qed

lemma ids_map: "(\<And>r. sk_id (f r) = sk_id r) \<Longrightarrow> map sk_id (map f rs) = map sk_id rs"
  by (induction rs) auto

lemma ids_distinct_update:
  "distinct (map sk_id (ag_rows a)) \<Longrightarrow> (\<And>r. sk_id (f r) = sk_id r) \<Longrightarrow>
    distinct (map sk_id (ag_rows (snd (update_rows i P f a))))"
  using ids_map [of "\<lambda>r. if sk_id r = i \<and> P r then f r else r" "ag_rows a"] by (simp add: update_rows_def del: map_map)

lemma take_time_agenda: "snd (agenda_step (TakeTime i due next_at, now) a) = snd (claim_schedule i due next_at a)"
  "snd (agenda_step (StallTime i due, now) a) = snd (stall_schedule i due a)"
  by (simp_all split: prod.splits)

lemma ids_distinct_step:
  assumes "distinct (map sk_id (ag_rows a))"
  shows "distinct (map sk_id (ag_rows (snd (agenda_step (op, now) a))))"
proof (cases op)
  case (AddSchedule i f who)
  then show ?thesis using assms
    by (auto simp: add_schedule_def new_schedule_row_def find_schedule_def find_None_iff)
next
  case (ChangeSchedule i f)
  then show ?thesis using assms ids_distinct_update [of a "changed_row f now" i "\<lambda>r. True"]
    by (auto simp: update_schedule_def changed_row_def split: prod.splits)
next
  case (SwitchSchedule i on next_at)
  then show ?thesis using assms by (simp add: set_schedule_enabled_def ids_distinct_update)
next
  case (DropSchedule i)
  then show ?thesis using assms by (simp add: remove_schedule_def distinct_map_filter)
next
  case (DeleteWorkspace ws)
  then show ?thesis using assms ids_map [of "\<lambda>r. if sk_workspace r = Some ws then r\<lparr>sk_workspace := None\<rparr> else r" "ag_rows a"]
    by (simp add: workspace_deleted_def del: map_map)
next
  case (TakeTime i due next_at)
  show ?thesis unfolding TakeTime take_time_agenda claim_schedule_def by (rule ids_distinct_update [OF assms]) simp
next
  case (StallTime i due)
  show ?thesis unfolding StallTime take_time_agenda stall_schedule_def by (rule ids_distinct_update [OF assms]) simp
next
  case (MoveTime i was to_at)
  then show ?thesis by (simp add: move_schedule_def ids_distinct_update assms)
next
  case (RemoveProject p)
  then show ?thesis by (simp add: project_removed_def assms)
qed

text \<open>The time that a statement takes was the schedule's own, and what the schedule has then is later.\<close>

lemma taken_above:
  assumes "times_above low a" and "distinct (map sk_id (ag_rows a))" and "\<And>i. low i \<le> now"
    and "in_time (op, now)" and "agenda_step (op, now) a = ([(i, due)], a')"
  shows "low i < due \<and> due \<le> now \<and> times_above (low(i := due)) a'"
proof -
  have take_row: "low i < due \<and> times_above (low(i := due)) (snd (update_rows i P f a))"
    if taken: "fst (update_rows i P f a)" and P: "\<And>r. P r \<Longrightarrow> sk_next r = Some due"
      and f: "\<And>r. sk_id (f r) = sk_id r" "\<And>r n. sk_next (f r) = Some n \<Longrightarrow> due < n" for P f
  proof -
    obtain q where q: "q \<in> set (ag_rows a)" "sk_id q = i" "P q"
      using taken by (auto simp: update_rows_def list_ex_iff)
    then have "sk_next q = Some due" using P by simp
    then have low: "low i < due" using assms(1) q by (auto simp: times_above_def list_all_iff)
    have only: "r = q" if "r \<in> set (ag_rows a)" "sk_id r = i" for r
      using assms(2) that q by (auto simp: distinct_map dest: inj_onD)
    have "(low(i := due)) (sk_id r') < n"
      if r: "r \<in> set (ag_rows a)" "r' = (if sk_id r = i \<and> P r then f r else r)" "sk_next r' = Some n" for r r' n
    proof (cases "sk_id r = i")
      case True
      then have "r' = f q" using only [OF r(1)] q r(2) by simp
      then show ?thesis using f r(3) q by simp
    next
      case False
      then show ?thesis using assms(1) r by (auto simp: times_above_def list_all_iff)
    qed
    then have later: "case sk_next r' of Some n \<Rightarrow> (low(i := due)) (sk_id r') < n | None \<Rightarrow> True"
      if "r \<in> set (ag_rows a)" "r' = (if sk_id r = i \<and> P r then f r else r)" for r r'
      using that by (simp only: split: option.split) blast
    have "list_all (\<lambda>r'. case sk_next r' of Some n \<Rightarrow> (low(i := due)) (sk_id r') < n | None \<Rightarrow> True)
      (map (\<lambda>r. if sk_id r = i \<and> P r then f r else r) (ag_rows a))"
      unfolding list_all_iff list.set_map ball_simps by (intro ballI later [OF _ refl])
    then show ?thesis using low by (simp add: update_rows_def times_above_def del: list.pred_map)
  qed
  show ?thesis
  proof (cases op)
    case (TakeTime i' due' next_at)
    then have step: "claim_schedule i due next_at a = (True, a')" and t: "due \<le> now" "to_come now next_at"
      using assms(4,5) by (auto split: prod.splits if_splits)
    have "low i < due \<and> times_above (low(i := due)) (snd (claim_schedule i due next_at a))"
      unfolding claim_schedule_def
      by (rule take_row) (use step t in \<open>auto simp: claim_schedule_def to_come_def\<close>)
    then show ?thesis using step t by simp
  next
    case (StallTime i' due')
    then have step: "stall_schedule i due a = (True, a')" and t: "due \<le> now"
      using assms(4,5) by (auto split: prod.splits if_splits)
    have "low i < due \<and> times_above (low(i := due)) (snd (stall_schedule i due a))"
      unfolding stall_schedule_def
      by (rule take_row) (use step in \<open>auto simp: stall_schedule_def\<close>)
    then show ?thesis using step t by simp
  qed (use assms(5) in \<open>simp_all split: prod.splits\<close>)
qed

lemma agenda_steps_once:
  assumes "agenda_steps ops a = (taken, a')" and "times_above low a" and "distinct (map sk_id (ag_rows a))"
    and "\<And>i. low i \<le> start" and "sorted (start # map snd ops)" and "list_all in_time ops"
  shows "distinct taken \<and> list_all (\<lambda>(i, due). low i < due) taken"
  using assms
proof (induction ops arbitrary: a low start taken)
  case (Cons opn ops)
  obtain op now where opn: "opn = (op, now)" by fastforce
  obtain first a1 where one: "agenda_step (op, now) a = (first, a1)" by fastforce
  obtain rest where rest: "agenda_steps ops a1 = (rest, a')" and taken: "taken = first @ rest"
    using Cons.prems(1) opn one by (auto split: prod.splits)
  have now: "low i \<le> now" for i using Cons.prems(4) [of i] Cons.prems(5) opn by simp
  have in_time: "in_time (op, now)" using Cons.prems(6) opn by simp
  have ids: "distinct (map sk_id (ag_rows a1))"
    using ids_distinct_step [OF Cons.prems(3), of op now] one by simp
  have srt: "sorted (now # map snd ops)" and tim: "list_all in_time ops"
    using Cons.prems(5,6) opn by auto
  have "first = [] \<or> (\<exists>k. first = [k])"
    using one by (cases op) (auto split: prod.splits if_splits)
  then show ?case
  proof
    assume none: "first = []"
    then have "times_above low a1" using untaken_above [OF Cons.prems(2) now in_time] one by simp
    from Cons.IH [OF rest this ids now srt tim] show ?thesis by (simp add: taken none)
  next
    assume "\<exists>k. first = [k]"
    then obtain i due where k: "first = [(i, due)]" by fastforce
    note t = taken_above [OF Cons.prems(2,3) now in_time one [unfolded k]]
    have low: "(low(i := due)) j \<le> now" for j using now t by simp
    from Cons.IH [OF rest t [THEN conjunct2, THEN conjunct2] ids low srt tim]
    have r: "distinct rest" "list_all (\<lambda>(j, d). (low(i := due)) j < d) rest" by auto
    then have "(i, due) \<notin> set rest" by (auto simp: list_all_iff)
    moreover have "list_all (\<lambda>(j, d). low j < d) rest"
      using r(2) t by (auto simp: list_all_iff split: if_splits)
    ultimately show ?thesis using r(1) t by (simp add: taken k)
  qed
qed simp

section \<open>What is kept of the history\<close>

lemma prune_lines_bounded:
  assumes "distinct (map sr_id ls)"
  shows "length (filter (\<lambda>l. sr_schedule l = i \<and> \<not> unsettled l) (prune_lines i ls)) \<le> SCHEDULE_RUNS_KEPT"
proof -
  let ?kept = "take SCHEDULE_RUNS_KEPT (schedule_lines i ls)"
  let ?left = "filter (\<lambda>l. sr_schedule l = i \<and> \<not> unsettled l) (prune_lines i ls)"
  have "distinct (map sr_id ?left)" using assms by (simp add: prune_lines_def distinct_map_filter)
  from distinct_card [OF this] have "length ?left = card (sr_id ` set ?left)" by simp
  also have "\<dots> \<le> card (sr_id ` set ?kept)"
    by (rule card_mono) (auto simp: prune_lines_def Let_def)
  also have "\<dots> \<le> length ?kept"
    by (rule order_trans [OF card_image_le card_length]) simp
  finally show ?thesis by simp
qed

section \<open>Properties\<close>

text \<open>
   However many processes look at the schedules, and whatever is added, changed, switched on and off,
  moved to another zone or deleted meanwhile, no time of a schedule is taken twice, as long as the
  clock they share does not go back and a schedule is only ever given times that are still to come.
\<close>

theorem times_are_taken_once:
  assumes "ag_rows a = []" and "sorted (map snd ops)" and "list_all in_time ops"
  shows "distinct (fst (agenda_steps ops a))"
proof -
  obtain taken a' where run: "agenda_steps ops a = (taken, a')" by fastforce
  define start where "start = (case ops of [] \<Rightarrow> 0 | op # _ \<Rightarrow> snd op)"
  have "sorted (start # map snd ops)" using assms(2) by (cases ops) (auto simp: start_def)
  then have "distinct taken \<and> list_all (\<lambda>(i, due). (\<lambda>_. start) i < due) taken"
    using agenda_steps_once [OF run, of "\<lambda>_. start" start] assms(1,3) by (simp add: times_above_def)
  then show ?thesis by (simp add: run)
qed

text \<open>
   Writing down what became of a time keeps at most two hundred lines of a schedule whose runs have
  ended, and drops no line of a run that is still going, nor any of another schedule.
\<close>

theorem history_keeps_what_goes_on:
  assumes "record_schedule_run i n a = (Inr row, a')" and "distinct (map sr_id (ag_runs a))"
  shows "row \<in> set (ag_runs a') \<and> set (filter (\<lambda>l. unsettled l \<or> sr_schedule l \<noteq> ns_schedule n) (ag_runs a)) \<subseteq> set (ag_runs a')
    \<and> length (filter (\<lambda>l. sr_schedule l = ns_schedule n \<and> \<not> unsettled l) (ag_runs a')) \<le> SCHEDULE_RUNS_KEPT"
proof -
  have new: "list_all (\<lambda>l. sr_id l \<noteq> i) (ag_runs a)"
    and a': "ag_runs a' = prune_lines (ns_schedule n) (ag_runs a @ [new_run_line i n])"
    and row: "row = new_run_line i n" and there: "list_ex (\<lambda>l. sr_id l = i) (ag_runs a')"
    using assms(1) by (auto simp: record_schedule_run_def Let_def split: if_splits)
  have "distinct (map sr_id (ag_runs a @ [new_run_line i n]))"
    using new assms(2) by (auto simp: new_run_line_def list_all_iff)
  from prune_lines_bounded [OF this, of "ns_schedule n"]
  have "length (filter (\<lambda>l. sr_schedule l = ns_schedule n \<and> \<not> unsettled l) (ag_runs a')) \<le> SCHEDULE_RUNS_KEPT"
    by (simp add: a')
  moreover have "row \<in> set (ag_runs a')"
  proof -
    obtain l where l: "l \<in> set (ag_runs a')" "sr_id l = i" using there by (auto simp: list_ex_iff)
    then have "l \<in> set (ag_runs a @ [new_run_line i n])" unfolding a' prune_lines_def Let_def set_filter by blast
    then have "l = row" using new l(2) by (auto simp: row list_all_iff)
    then show ?thesis using l by simp
  qed
  moreover have "set (filter (\<lambda>l. unsettled l \<or> sr_schedule l \<noteq> ns_schedule n) (ag_runs a)) \<subseteq> set (ag_runs a')"
    by (auto simp: a' prune_lines_def Let_def)
  ultimately show ?thesis by blast
qed

section \<open>Witnesses\<close>

definition example_fields :: schedule_fields where
  "example_fields = \<lparr>sf_name = ''Nightly'', sf_target_kind = ''workflow'', sf_target = ''tell'', sf_project = ''p'',
    sf_workspace = ''w'', sf_workspace_name = ''w'', sf_inputs = ''{}'', sf_spec = ''s'', sf_missed = ''run_once'',
    sf_notify = ''failure'', sf_next = Some 5\<rparr>"

definition example_agenda :: agenda where
  "example_agenda = \<lparr>ag_tables = no_runs [''p''] [''w''], ag_removed = [], ag_rows = [], ag_runs = []\<rparr>"

theorem times_are_taken_once_witness:
  "fst (agenda_steps [(AddSchedule ''n'' example_fields ''app'', 1), (TakeTime ''n'' 5 (Some 9), 6),
      (TakeTime ''n'' 5 (Some 9), 6), (TakeTime ''n'' 9 None, 10)] example_agenda) = [(''n'', 5), (''n'', 9)]
    \<and> distinct [(''n'', 5 :: int), (''n'', 9)]"
proof -
  have taken: "fst (agenda_steps [(AddSchedule ''n'' example_fields ''app'', 1), (TakeTime ''n'' 5 (Some 9), 6),
      (TakeTime ''n'' 5 (Some 9), 6), (TakeTime ''n'' 9 None, 10)] example_agenda) = [(''n'', 5), (''n'', 9)]"
    by code_simp
  have "ag_rows example_agenda = []" by (simp add: example_agenda_def)
  from times_are_taken_once [OF this, of "[(AddSchedule ''n'' example_fields ''app'', 1), (TakeTime ''n'' 5 (Some 9), 6),
      (TakeTime ''n'' 5 (Some 9), 6), (TakeTime ''n'' 9 None, 10)]"]
  have "distinct [(''n'', 5 :: int), (''n'', 9)]"
    unfolding taken by (simp add: to_come_def example_fields_def)
  with taken show ?thesis by blast
qed

definition example_line :: new_schedule_run where
  "example_line = \<lparr>ns_schedule = ''n'', ns_due = 5, ns_fired = 6, ns_outcome = ''skipped'', ns_manual = False,
    ns_run = None, ns_note = None\<rparr>"

theorem history_keeps_what_goes_on_witness:
  "\<exists>a'. record_schedule_run ''l'' example_line (snd (add_schedule ''n'' example_fields ''app'' 1 example_agenda))
      = (Inr (new_run_line ''l'' example_line), a')
    \<and> new_run_line ''l'' example_line \<in> set (ag_runs a')"
proof -
  let ?a = "snd (add_schedule ''n'' example_fields ''app'' 1 example_agenda)"
  have "fst (record_schedule_run ''l'' example_line ?a) = Inr (new_run_line ''l'' example_line)" by code_simp
  then have here: "record_schedule_run ''l'' example_line ?a
      = (Inr (new_run_line ''l'' example_line), snd (record_schedule_run ''l'' example_line ?a))"
    by (simp add: prod_eq_iff)
  have "distinct (map sr_id (ag_runs ?a))" by code_simp
  from history_keeps_what_goes_on [OF here this] here show ?thesis by blast
qed

end
