(* ===== verification/Smoke.thy ===== *)
theory Smoke
  imports Asking
begin

text \<open>
  \<open>crates/core/src/smoke/mod.rs\<close>: smoke tests as data, the catalog of a worktree's tests and the
  saving of a new one, and from \<open>smoke/runs.rs\<close> what a test asks of whoever runs it.  Reading the
  text of a file (\<open>smoke/parse.rs\<close>) is a parameter.  The folder \<open>.yardsort/tests\<close> is the list of its
  files by name.  The lemmas show which file an id means, and that saving only ever adds.
\<close>

section \<open>Tests\<close>

datatype phase = SetupPhase | StepsPhase | TeardownPhase

fun phase_name :: "phase \<Rightarrow> string" where
  "phase_name SetupPhase = ''setup''"
| "phase_name StepsPhase = ''steps''"
| "phase_name TeardownPhase = ''teardown''"

datatype smoke_input_kind = SmokeText | SmokeChoice

record smoke_input =
  ki_id :: string
  ki_kind :: smoke_input_kind
  ki_label :: string
  ki_required :: bool
  ki_default :: "string option"
  ki_options :: "string list"

datatype exit_expect = ExitCode int | Nonzero

record json_expect =
  jx_path :: string
  jx_equals :: string

record process_expect =
  px_exit :: exit_expect
  px_stdout_contains :: "string option"
  px_stdout_matches :: "string option"
  px_stderr_empty :: bool
  px_stdout_json :: "json_expect option"

definition default_process_expect :: process_expect where
  "default_process_expect = \<lparr>px_exit = ExitCode 0, px_stdout_contains = None, px_stdout_matches = None,
    px_stderr_empty = False, px_stdout_json = None\<rparr>"

datatype status_expect = ExactStatus nat | StatusClass nat

record header_expect =
  nx_name :: string
  nx_contains :: string

record http_expect =
  hx_status :: status_expect
  hx_json :: "string option"
  hx_body_contains :: "string option"
  hx_body_matches :: "string option"
  hx_header :: "header_expect option"

definition default_http_expect :: http_expect where
  "default_http_expect = \<lparr>hx_status = StatusClass 2, hx_json = None, hx_body_contains = None,
    hx_body_matches = None, hx_header = None\<rparr>"

datatype wait_target = WaitPort string | WaitUrl string | WaitFile string | WaitCommand string "string list"

datatype http_method = HttpGet | HttpPost | HttpPut | HttpDelete | HttpPatch

fun method_name :: "http_method \<Rightarrow> string" where
  "method_name HttpGet = ''get''"
| "method_name HttpPost = ''post''"
| "method_name HttpPut = ''put''"
| "method_name HttpDelete = ''delete''"
| "method_name HttpPatch = ''patch''"

datatype screenshots = ShotOnFailure | ShotEveryStep | ShotNever

record viewport =
  vw_width :: nat
  vw_height :: nat

datatype browser_action =
    Goto string
  | Click string
  | Fill string string
  | Press string
  | SelectOption string string
  | BrowserWait "string option" "string option"
  | ExpectText string
  | ExpectVisible string
  | ExpectHidden string
  | ExpectUrl string
  | ExpectTitle string
  | Screenshot string

text \<open>What a step does: its arguments are the fields of the source's variants, in their order.\<close>

datatype smoke_action =
    DoRun string "string list" "string option" texts "string option" process_expect "nat option"
  | DoShell string "string option" texts process_expect "nat option"
  | DoStart string "string list" "string option" texts
  | DoWaitFor wait_target nat "nat option"
  | DoHttp http_method string texts "string option" "string option" http_expect "nat option"
  | DoBrowser "browser_action list" screenshots "viewport option" bool "nat option"
  | DoManual string

fun smoke_action_name :: "smoke_action \<Rightarrow> string" where
  "smoke_action_name (DoRun _ _ _ _ _ _ _) = ''run''"
| "smoke_action_name (DoShell _ _ _ _ _) = ''shell''"
| "smoke_action_name (DoStart _ _ _ _) = ''start''"
| "smoke_action_name (DoWaitFor _ _ _) = ''wait_for''"
| "smoke_action_name (DoHttp _ _ _ _ _ _ _) = ''http''"
| "smoke_action_name (DoBrowser _ _ _ _ _) = ''browser''"
| "smoke_action_name (DoManual _) = ''manual''"

definition smoke_produces :: "string \<Rightarrow> string list" where
  "smoke_produces name =
    (if name = ''run'' \<or> name = ''shell'' then [''exit'', ''stdout'', ''stderr'']
     else if name = ''start'' then [''pid'', ''stdout'', ''stderr'']
     else if name = ''wait_for'' then [''waited'']
     else if name = ''http'' then [''status'', ''body'', ''headers'']
     else if name = ''browser'' then [''url'', ''title'']
     else if name = ''manual'' then [''note'']
     else [])"

record smoke_step =
  ks_id :: string
  ks_action :: smoke_action

record smoke_test =
  sm_id :: string
  sm_name :: string
  sm_description :: "string option"
  sm_version :: nat
  sm_inputs :: "smoke_input list"
  sm_timeout_secs :: nat
  sm_setup :: "smoke_step list"
  sm_steps :: "smoke_step list"
  sm_teardown :: "smoke_step list"

definition all_steps :: "smoke_test \<Rightarrow> (phase \<times> smoke_step) list" where
  "all_steps t = map (Pair SetupPhase) (sm_setup t) @ map (Pair StepsPhase) (sm_steps t)
    @ map (Pair TeardownPhase) (sm_teardown t)"

definition is_manual :: "smoke_action \<Rightarrow> bool" where
  "is_manual a \<longleftrightarrow> (case a of DoManual _ \<Rightarrow> True | _ \<Rightarrow> False)"

definition is_browser :: "smoke_action \<Rightarrow> bool" where
  "is_browser a \<longleftrightarrow> (case a of DoBrowser _ _ _ _ _ \<Rightarrow> True | _ \<Rightarrow> False)"

definition manual_step :: "smoke_test \<Rightarrow> smoke_step option" where
  "manual_step t = find (\<lambda>s. is_manual (ks_action s)) (map snd (all_steps t))"

section \<open>The catalog of a worktree\<close>

record smoke_entry =
  ke_id :: string
  ke_name :: string
  ke_description :: "string option"
  ke_path :: string
  ke_problems :: "problem list"
  ke_test :: "smoke_test option"
  ke_text :: string

definition smoke_runnable :: "smoke_entry \<Rightarrow> bool" where
  "smoke_runnable e \<longleftrightarrow> ke_problems e = [] \<and> ke_test e \<noteq> None"

definition uses_browser :: "smoke_entry \<Rightarrow> bool" where
  "uses_browser e \<longleftrightarrow>
    (case ke_test e of Some t \<Rightarrow> list_ex (\<lambda>(_, s). is_browser (ks_action s)) (all_steps t) | None \<Rightarrow> False)"

record smoke_reader =
  kr_parse :: "string \<Rightarrow> invalid + smoke_test"
  kr_lower :: "string \<Rightarrow> string"

definition smoke_entry_of :: "smoke_reader \<Rightarrow> string \<Rightarrow> string \<Rightarrow> string \<Rightarrow> smoke_entry" where
  "smoke_entry_of rd path stem content =
    (case kr_parse rd content of
       Inr t \<Rightarrow> \<lparr>ke_id = sm_id t, ke_name = sm_name t, ke_description = sm_description t, ke_path = path,
         ke_problems = [], ke_test = Some t, ke_text = content\<rparr>
     | Inl iv \<Rightarrow>
         let i = (case iv_id iv of Some i \<Rightarrow> i | None \<Rightarrow> stem) in
         \<lparr>ke_id = i, ke_name = (case iv_name iv of Some n \<Rightarrow> n | None \<Rightarrow> i), ke_description = None, ke_path = path,
           ke_problems = iv_problems iv, ke_test = None, ke_text = content\<rparr>)"

text \<open>What a file is before it is known whether its id is taken.\<close>

definition smoke_found :: "smoke_reader \<Rightarrow> user_file \<Rightarrow> smoke_entry" where
  "smoke_found rd f =
    (case uf_read f of
       Inr content \<Rightarrow> smoke_entry_of rd (uf_path f) (uf_stem f) content
     | Inl problem \<Rightarrow> \<lparr>ke_id = uf_stem f, ke_name = uf_stem f, ke_description = None, ke_path = uf_path f,
         ke_problems = [problem], ke_test = None, ke_text = []\<rparr>)"

text \<open>The entries so far, each marked when it is a second file of its id, and the ids that are claimed.\<close>

type_synonym smoke_loading = "(smoke_entry \<times> bool) list \<times> (string \<times> string) list"

definition smoke_load_file :: "smoke_reader \<Rightarrow> user_file \<Rightarrow> smoke_loading \<Rightarrow> smoke_loading" where
  "smoke_load_file rd f ld =
    (let found = smoke_found rd f in
     case map_of (snd ld) (ke_id found) of
       Some first \<Rightarrow>
         let clash = problem_whole (first @ '' already has the id `'' @ ke_id found
               @ ''`, and ids must be unique. This file is ignored until one of them changes.'')
         in (fst ld @ [(found\<lparr>ke_problems := clash # ke_problems found, ke_test := None\<rparr>, True)], snd ld)
     | None \<Rightarrow> (fst ld @ [(found, False)], snd ld @ [(ke_id found, uf_path f)]))"

definition smoke_load :: "smoke_reader \<Rightarrow> folder \<Rightarrow> (smoke_entry \<times> bool) list" where
  "smoke_load rd files =
    sort_key (\<lambda>(e, _). kr_lower rd (ke_name e))
      (sort_key (\<lambda>(e, _). ke_id e) (fst (fold (smoke_load_file rd) files ([], []))))"

definition smoke_catalog :: "smoke_reader \<Rightarrow> folder \<Rightarrow> smoke_entry list" where
  "smoke_catalog rd files = map fst (smoke_load rd files)"

definition smoke_find :: "smoke_reader \<Rightarrow> folder \<Rightarrow> string \<Rightarrow> smoke_entry option" where
  "smoke_find rd files i =
    map_option fst (find (\<lambda>(e, duplicate). ke_id e = i \<and> \<not> duplicate) (smoke_load rd files))"

section \<open>Saving\<close>

text \<open>A worktree: where it is, the test files in its folder, what else there is at a path in there, and
  whether the folder is inside the worktree once links are followed.\<close>

record worktree =
  wt_path :: string
  wt_files :: folder
  wt_other :: "string list"
  wt_contained :: bool

definition tests_dir :: "string \<Rightarrow> string" where
  "tests_dir path = path @ ''/.yardsort/tests''"

text \<open>\<open>MAX_FILE_BYTES\<close> is the same number in both modules.\<close>

definition smoke_text_id :: "smoke_reader \<Rightarrow> string \<Rightarrow> string option" where
  "smoke_text_id rd content = (case kr_parse rd content of Inr t \<Rightarrow> Some (sm_id t) | Inl iv \<Rightarrow> iv_id iv)"

definition smoke_save :: "smoke_reader \<Rightarrow> worktree \<Rightarrow> string \<Rightarrow> ipc_error + string \<times> worktree" where
  "smoke_save rd wt content =
    (if MAX_FILE_BYTES < length content
     then Inl (IpcError ''test_too_big'' (''A smoke test file may be at most '' @ num MAX_FILE_BYTES @ '' bytes.''))
     else case (case smoke_text_id rd content of Some i \<Rightarrow> if is_id i then Some i else None | None \<Rightarrow> None) of
       None \<Rightarrow> Inl (IpcError ''test_invalid_id''
         ''Give the test an `id:` first: lowercase letters, digits and `-`, like `login`.'')
     | Some i \<Rightarrow>
         let folder = tests_dir (wt_path wt); path = file_path folder i in
         (case find (\<lambda>e. ke_id e = i \<and> ke_path e \<noteq> path) (smoke_catalog rd (wt_files wt)) of
            Some other \<Rightarrow> Inl (IpcError ''test_exists'' (ke_path other @ '' already has the id `'' @ i
              @ ''`. Give this one an id of its own.''))
          | None \<Rightarrow>
              if \<not> wt_contained wt
              then Inl (IpcError ''test_outside_worktree'' (folder
                @ '' does not resolve inside the workspace, so a test cannot be saved there.''))
              else if list_ex (\<lambda>f. uf_path f = path) (wt_files wt) \<or> path \<in> set (wt_other wt)
              then Inl (IpcError ''test_exists'' (path
                @ '' already exists. Give this test an id of its own, or edit that file in the worktree.''))
              else Inr (path, wt\<lparr>wt_files := add_file \<lparr>uf_path = path, uf_stem = i, uf_read = Inr content\<rparr> (wt_files wt)\<rparr>)))"

section \<open>What a test asks for\<close>

text \<open>Every piece of template text a step has; a \<open>shell\<close> line is not one.\<close>

fun browser_texts :: "browser_action \<Rightarrow> string list" where
  "browser_texts (Goto url) = [url]"
| "browser_texts (Fill _ content) = [content]"
| "browser_texts (SelectOption _ value) = [value]"
| "browser_texts (BrowserWait _ content) = List.map_filter id [content]"
| "browser_texts (ExpectText content) = [content]"
| "browser_texts (ExpectUrl pattern) = [pattern]"
| "browser_texts (ExpectTitle title) = [title]"
| "browser_texts _ = []"

fun wait_texts :: "wait_target \<Rightarrow> string list" where
  "wait_texts (WaitPort port) = [port]"
| "wait_texts (WaitUrl url) = [url]"
| "wait_texts (WaitFile file) = [file]"
| "wait_texts (WaitCommand program args) = program # args"

fun smoke_texts :: "smoke_action \<Rightarrow> string list" where
  "smoke_texts (DoRun program args _ env stdin expect _) =
    program # args @ map snd env @ List.map_filter id [stdin, px_stdout_contains expect]"
| "smoke_texts (DoShell _ _ env expect _) = map snd env @ List.map_filter id [px_stdout_contains expect]"
| "smoke_texts (DoStart program args _ env) = program # args @ map snd env"
| "smoke_texts (DoWaitFor target _ _) = wait_texts target"
| "smoke_texts (DoHttp _ url headers body json expect _) =
    url # map snd headers @ List.map_filter id [body, json, hx_json expect, hx_body_contains expect,
      map_option nx_contains (hx_header expect)]"
| "smoke_texts (DoBrowser acts _ _ _ _) = concat (map browser_texts acts)"
| "smoke_texts (DoManual prompt) = [prompt]"

definition env_name :: "placeholder \<Rightarrow> string option" where
  "env_name v = (case ph_path v of [namespace, name] \<Rightarrow> if namespace = ''env'' then Some name else None | _ \<Rightarrow> None)"

definition env_names :: "smoke_test \<Rightarrow> string list" where
  "env_names t =
    sort (remdups (List.map_filter env_name (concat (map placeholders
      (concat (map (\<lambda>(_, s). smoke_texts (ks_action s)) (all_steps t)))))))"

definition smoke_input_value :: "texts \<Rightarrow> smoke_input \<Rightarrow> string option" where
  "smoke_input_value given i =
    (case map_of given (ki_id i) of
       Some v \<Rightarrow> if trim v \<noteq> [] then Some (trim v) else ki_default i
     | None \<Rightarrow> ki_default i)"

fun smoke_collect :: "texts \<Rightarrow> smoke_input list \<Rightarrow> inputs \<Rightarrow> string list \<Rightarrow> string + inputs \<times> string list" where
  "smoke_collect given [] got missing = Inr (got, missing)"
| "smoke_collect given (i # is) got missing =
    (case smoke_input_value given i of
       None \<Rightarrow> smoke_collect given is got
         (if ki_required i then missing @ [''`'' @ ki_id i @ ''` ('' @ ki_label i @ '')''] else missing)
     | Some v \<Rightarrow>
         if ki_kind i = SmokeChoice \<and> v \<notin> set (ki_options i)
         then Inl (''`'' @ v @ ''` is not one of the answers to `'' @ ki_id i @ ''`: ''
           @ join_with '', '' (ki_options i) @ ''.'')
         else smoke_collect given is (got(ki_id i \<mapsto> v)) missing)"

definition smoke_check_inputs :: "smoke_test \<Rightarrow> texts \<Rightarrow> string + inputs" where
  "smoke_check_inputs t given =
    (case find (\<lambda>k. \<not> list_ex (\<lambda>i. ki_id i = k) (sm_inputs t)) (map fst given) of
       Some unknown \<Rightarrow> Inl (''`'' @ sm_id t @ ''` has no input `'' @ unknown @ ''`. ''
         @ (if sm_inputs t = [] then ''It asks for none.''
            else ''It asks for '' @ join_with '', '' (map (\<lambda>i. ''`'' @ ki_id i @ ''`'') (sm_inputs t)) @ ''.''))
     | None \<Rightarrow>
         (case smoke_collect given (sm_inputs t) Map.empty [] of
            Inl why \<Rightarrow> Inl why
          | Inr (got, missing) \<Rightarrow>
              if missing \<noteq> [] then Inl (''`'' @ sm_id t @ ''` needs '' @ join_with '', '' missing @ ''.'')
              else Inr got))"

section \<open>What an id means\<close>

definition smoke_file_id :: "smoke_reader \<Rightarrow> user_file \<Rightarrow> string" where
  "smoke_file_id rd f = ke_id (smoke_found rd f)"

lemma smoke_loading_claims:
  "map fst (filter (\<lambda>(e, d). ke_id e = i \<and> \<not> d) (fst (fold (smoke_load_file rd) files ([], []))))
      = (case find (\<lambda>f. smoke_file_id rd f = i) files of Some f \<Rightarrow> [smoke_found rd f] | None \<Rightarrow> [])
    \<and> (map_of (snd (fold (smoke_load_file rd) files ([], []))) i = None
        \<longleftrightarrow> find (\<lambda>f. smoke_file_id rd f = i) files = None)"
proof (induction files rule: rev_induct)
  case (snoc f files)
  let ?ld = "fold (smoke_load_file rd) files ([], [])"
  show ?case
  proof (cases "map_of (snd ?ld) (smoke_file_id rd f)")
    case None
    then have step: "smoke_load_file rd f ?ld
        = (fst ?ld @ [(smoke_found rd f, False)], snd ?ld @ [(smoke_file_id rd f, uf_path f)])"
      by (simp add: smoke_load_file_def smoke_file_id_def Let_def)
    show ?thesis using snoc None
      by (auto simp: step find_snoc map_add_def smoke_file_id_def split: option.splits)
  next
    case (Some first)
    then obtain e where step: "smoke_load_file rd f ?ld = (fst ?ld @ [(e, True)], snd ?ld)"
      by (auto simp: smoke_load_file_def smoke_file_id_def Let_def)
    have "find (\<lambda>g. smoke_file_id rd g = i) (files @ [f]) = find (\<lambda>g. smoke_file_id rd g = i) files"
      using snoc Some by (cases "smoke_file_id rd f = i") (auto simp: find_snoc split: option.splits)
    then show ?thesis using snoc by (simp add: step)
  qed
qed simp

text \<open>An id means the first file, by name, that claims it.\<close>

lemma smoke_find_means: "smoke_find rd files i = map_option (smoke_found rd) (find (\<lambda>f. smoke_file_id rd f = i) files)"
proof -
  let ?P = "\<lambda>(e, d). ke_id e = i \<and> \<not> d"
  let ?all = "fst (fold (smoke_load_file rd) files ([], []))"
  have means: "map fst (filter ?P ?all)
      = (case find (\<lambda>f. smoke_file_id rd f = i) files of Some f \<Rightarrow> [smoke_found rd f] | None \<Rightarrow> [])"
    using smoke_loading_claims by blast
  then have "length (filter ?P ?all) \<le> 1"
    by (metis (no_types, lifting) length_map list.size(3,4) option.case_eq_if le_numeral_extra(3,4) One_nat_def zero_le add_0)
  then have "filter ?P (smoke_load rd files) = filter ?P ?all"
    by (cases "filter ?P ?all") (auto simp: smoke_load_def filter_sort)
  then show ?thesis
    using means by (auto simp: smoke_find_def find_filter split: list.splits option.splits)
qed

lemma smoke_found_fields [simp]:
  "ke_path (smoke_found rd f) = uf_path f"
  "uf_read f = Inr content \<Longrightarrow> ke_text (smoke_found rd f) = content"
  by (auto simp: smoke_found_def smoke_entry_of_def Let_def split: sum.splits)

lemma find_add_file:
  "find P (add_file f files) = (if P f then find P (add_file f files) else find P files)"
  by (simp add: find_filter filter_add_file)

lemma runnable_id: "smoke_find rd files i = Some e \<Longrightarrow> ke_id e = i"
  by (auto simp: smoke_find_means smoke_file_id_def find_Some_iff)

lemma runnable_test:
  assumes "smoke_find rd files i = Some e" and "ke_test e = Some t"
  shows "kr_parse rd (ke_text e) = Inr t \<and> sm_id t = i"
proof -
  obtain f where f: "e = smoke_found rd f" using assms(1) by (auto simp: smoke_find_means)
  have "ke_id e = i" using assms(1) by (rule runnable_id)
  then show ?thesis using assms(2)
    by (auto simp: f smoke_found_def smoke_entry_of_def Let_def split: sum.splits)
qed

text \<open>Every file has an entry, if only one that says its id is taken.\<close>

lemma smoke_entries_of_files:
  "map (\<lambda>(e, _). (ke_id e, ke_path e)) (fst (fold (smoke_load_file rd) files ([], [])))
    = map (\<lambda>f. (smoke_file_id rd f, uf_path f)) files"
proof (induction files rule: rev_induct)
  case (snoc f files)
  then show ?case by (auto simp: smoke_load_file_def smoke_file_id_def Let_def split: option.splits)
qed simp

lemma smoke_catalog_files:
  assumes "f \<in> set files"
  shows "\<exists>e\<in>set (smoke_catalog rd files). ke_id e = smoke_file_id rd f \<and> ke_path e = uf_path f"
proof -
  have "(smoke_file_id rd f, uf_path f) \<in> set (map (\<lambda>(e, _). (ke_id e, ke_path e)) (fst (fold (smoke_load_file rd) files ([], []))))"
    using assms unfolding smoke_entries_of_files by simp
  then show ?thesis by (force simp: smoke_catalog_def smoke_load_def)
qed

section \<open>Properties\<close>

text \<open>
   Saving a test only ever adds a file, inside the worktree: its id then means what was saved, where
  it meant nothing before, and every other id means what it did.
\<close>

theorem saved_tests_are_found:
  assumes "smoke_save rd wt content = Inr (path, wt')"
  shows "\<exists>i f. wt_contained wt \<and> is_id i \<and> path = file_path (tests_dir (wt_path wt)) i
    \<and> uf_path f = path \<and> uf_read f = Inr content \<and> set (wt_files wt') = insert f (set (wt_files wt))
    \<and> smoke_find rd (wt_files wt) i = None \<and> smoke_find rd (wt_files wt') i = Some (smoke_found rd f)
    \<and> (\<forall>j. j \<noteq> i \<longrightarrow> smoke_find rd (wt_files wt') j = smoke_find rd (wt_files wt) j)"
proof -
  obtain i where i: "smoke_text_id rd content = Some i" "is_id i"
    and path: "path = file_path (tests_dir (wt_path wt)) i"
    and alone: "find (\<lambda>e. ke_id e = i \<and> ke_path e \<noteq> path) (smoke_catalog rd (wt_files wt)) = None"
    and inside: "wt_contained wt" and free: "\<not> list_ex (\<lambda>f. uf_path f = path) (wt_files wt)"
    and wt': "wt' = wt\<lparr>wt_files := add_file \<lparr>uf_path = path, uf_stem = i, uf_read = Inr content\<rparr> (wt_files wt)\<rparr>"
    using assms by (auto simp: smoke_save_def Let_def split: if_splits option.splits)
  define f where "f = \<lparr>uf_path = path, uf_stem = i, uf_read = Inr content :: problem + string\<rparr>"
  have f: "uf_path f = path" "uf_read f = Inr content" by (simp_all add: f_def)
  have files: "wt_files wt' = add_file f (wt_files wt)" by (simp add: wt' f_def)
  have id: "smoke_file_id rd f = i"
    using i(1) by (auto simp: smoke_file_id_def smoke_found_def smoke_entry_of_def smoke_text_id_def Let_def f_def split: sum.splits)
  have none: "smoke_file_id rd g \<noteq> i" if "g \<in> set (wt_files wt)" for g
    using smoke_catalog_files [OF that, of rd] alone free that by (auto simp: find_None_iff list_ex_iff)
  then have before: "find (\<lambda>f. smoke_file_id rd f = i) (wt_files wt) = None" by (auto simp: find_None_iff)
  have "filter (\<lambda>g. smoke_file_id rd g = i) (add_file f (wt_files wt)) = [f]"
  proof -
    have "filter (\<lambda>g. smoke_file_id rd g = i) gs = []" if "set gs \<subseteq> set (wt_files wt)" for gs
      using none that by (auto simp: filter_empty_conv)
    moreover have "set (takeWhile P gs) \<subseteq> set gs" "set (dropWhile P gs) \<subseteq> set gs" for P :: "user_file \<Rightarrow> bool" and gs
      by (auto dest: set_takeWhileD set_dropWhileD)
    ultimately show ?thesis by (simp add: add_file_def id)
  qed
  then have "find (\<lambda>f. smoke_file_id rd f = i) (wt_files wt') = Some f" by (simp add: files find_filter)
  then have now: "smoke_find rd (wt_files wt') i = Some (smoke_found rd f)" by (simp add: smoke_find_means)
  have "smoke_find rd (wt_files wt') j = smoke_find rd (wt_files wt) j" if "j \<noteq> i" for j
    using that id by (simp add: smoke_find_means files find_add_file [of "\<lambda>f. smoke_file_id rd f = j"])
  moreover have "set (wt_files wt') = insert f (set (wt_files wt))" by (simp add: files set_add_file)
  moreover have "smoke_find rd (wt_files wt) i = None" by (simp add: smoke_find_means before)
  ultimately show ?thesis using i(2) path inside f now by blast
qed

definition example_smoke_test :: smoke_test where
  "example_smoke_test = \<lparr>sm_id = ''up'', sm_name = ''Up'', sm_description = None, sm_version = 1, sm_inputs = [],
    sm_timeout_secs = 60, sm_setup = [], sm_steps = [\<lparr>ks_id = ''look'', ks_action = DoStart ''true'' [] None []\<rparr>],
    sm_teardown = []\<rparr>"

definition example_smoke_reader :: smoke_reader where
  "example_smoke_reader = \<lparr>kr_parse = (\<lambda>s. Inr example_smoke_test), kr_lower = (\<lambda>s. s)\<rparr>"

theorem saved_tests_are_found_witness:
  "\<exists>wt'. smoke_save example_smoke_reader \<lparr>wt_path = ''w'', wt_files = [], wt_other = [], wt_contained = True\<rparr> ''id: up''
      = Inr (''w/.yardsort/tests/up.yaml'', wt')
    \<and> smoke_find example_smoke_reader (wt_files wt') ''up'' \<noteq> None"
proof -
  let ?wt = "\<lparr>wt_path = ''w'', wt_files = [], wt_other = [], wt_contained = True\<rparr>"
  let ?f = "\<lparr>uf_path = ''w/.yardsort/tests/up.yaml'', uf_stem = ''up'', uf_read = Inr ''id: up''\<rparr>"
  have saved: "smoke_save example_smoke_reader ?wt ''id: up'' = Inr (''w/.yardsort/tests/up.yaml'', ?wt\<lparr>wt_files := [?f]\<rparr>)"
    by code_simp
  from saved_tests_are_found [OF this] obtain i where
    i: "is_id i" "''w/.yardsort/tests/up.yaml'' = file_path (tests_dir ''w'') i"
      "smoke_find example_smoke_reader [?f] i \<noteq> None" by auto
  from i(2) have "i = ''up''" by (simp add: file_path_def tests_dir_def)
  with saved i(3) show ?thesis by auto
qed

end
