(* ===== verification/Smoke_Store.thy ===== *)
theory Smoke_Store
  imports Smoke "HOL-Library.AList"
begin

text \<open>
  \<open>crates/core/src/store/smoke.rs\<close>: the tables of smoke test runs, their steps, the approvals, and
  what a project sets for its tests, as the SQL statements change them, under the constraints of
  \<open>migrations/0019_smoke_tests.sql\<close> to \<open>0021\<close>.  The lemmas show that a test runs at most once at a
  time in a workspace, and that a run that has ended never changes again.
\<close>

section \<open>Rows\<close>

record test_run_row =
  tn_id :: string
  tn_project :: "string option"
  tn_workspace :: "string option"
  tn_workspace_name :: string
  tn_test :: string
  tn_test_name :: string
  tn_definition :: string
  tn_hash :: string
  tn_inputs :: string
  tn_status :: string
  tn_requested_by :: string
  tn_session :: "string option"
  tn_port :: "nat option"
  tn_error :: "string option"
  tn_output_dir :: "string option"
  tn_cancel_requested :: "int option"
  tn_created :: int
  tn_started :: "int option"
  tn_ended :: "int option"

definition test_going :: "string \<Rightarrow> bool" where
  "test_going s \<longleftrightarrow> s = ''awaiting_approval'' \<or> s = ''queued'' \<or> s = ''running''"

definition test_status_known :: "string \<Rightarrow> bool" where
  "test_status_known s \<longleftrightarrow> test_going s \<or> s \<in> {''passed'', ''failed'', ''refused'', ''cancelled'', ''errored''}"

record test_step_row =
  tp_run :: string
  tp_step :: string
  tp_phase :: string
  tp_position :: int
  tp_action :: string
  tp_status :: string
  tp_started :: "int option"
  tp_ended :: "int option"
  tp_exit :: "int option"
  tp_outputs :: string
  tp_note :: "string option"
  tp_screenshots :: string

definition test_step_ended :: "string \<Rightarrow> bool" where
  "test_step_ended s \<longleftrightarrow> s \<in> {''passed'', ''failed'', ''skipped'', ''cancelled''}"

definition test_step_known :: "string \<Rightarrow> bool" where
  "test_step_known s \<longleftrightarrow> s \<in> {''pending'', ''running'', ''waiting''} \<or> test_step_ended s"

record new_test_run =
  nt_id :: string
  nt_project :: string
  nt_workspace :: string
  nt_workspace_name :: string
  nt_test :: string
  nt_test_name :: string
  nt_definition :: string
  nt_hash :: string
  nt_inputs :: string
  nt_status :: string
  nt_requested_by :: string
  nt_session :: "string option"
  nt_steps :: "(string \<times> string \<times> string) list"

datatype test_queued = TestQueued | TestAlreadyRunning string

record test_settings =
  te_ask_every_time :: bool
  te_keep_days :: nat
  te_browser :: string

definition default_test_settings :: test_settings where
  "default_test_settings = \<lparr>te_ask_every_time = False, te_keep_days = 30, te_browser = []\<rparr>"

record step_change =
  cg_to :: string
  cg_exit :: "int option"
  cg_outputs :: "string option"
  cg_note :: "string option"
  cg_screenshots :: "string option"

record approval =
  ap_project :: string
  ap_test :: string
  ap_hash :: string
  ap_at :: int

text \<open>The projects are in the order the sidebar has them.\<close>

record bench =
  bn_projects :: "string list"
  bn_workspaces :: "string list"
  bn_runs :: "test_run_row list"
  bn_steps :: "test_step_row list"
  bn_approvals :: "approval list"
  bn_env :: "(string \<times> string \<times> string) list"
  bn_settings :: "(string \<times> test_settings) list"

definition empty_bench :: "string list \<Rightarrow> string list \<Rightarrow> bench" where
  "empty_bench ps ws = \<lparr>bn_projects = ps, bn_workspaces = ws, bn_runs = [], bn_steps = [], bn_approvals = [],
    bn_env = [], bn_settings = []\<rparr>"

section \<open>Runs\<close>

definition new_test_row :: "new_test_run \<Rightarrow> int \<Rightarrow> test_run_row" where
  "new_test_row n now =
    \<lparr>tn_id = nt_id n, tn_project = Some (nt_project n), tn_workspace = Some (nt_workspace n),
      tn_workspace_name = nt_workspace_name n, tn_test = nt_test n, tn_test_name = nt_test_name n,
      tn_definition = nt_definition n, tn_hash = nt_hash n, tn_inputs = nt_inputs n, tn_status = nt_status n,
      tn_requested_by = nt_requested_by n, tn_session = nt_session n, tn_port = None, tn_error = None,
      tn_output_dir = None, tn_cancel_requested = None, tn_created = now, tn_started = None, tn_ended = None\<rparr>"

definition pending_test_rows :: "string \<Rightarrow> (string \<times> string \<times> string) list \<Rightarrow> test_step_row list" where
  "pending_test_rows run steps =
    map (\<lambda>(p, i, ph, act). \<lparr>tp_run = run, tp_step = i, tp_phase = ph, tp_position = int p, tp_action = act,
        tp_status = ''pending'', tp_started = None, tp_ended = None, tp_exit = None, tp_outputs = ''{}'',
        tp_note = None, tp_screenshots = ''[]''\<rparr>) (enumerate 0 steps)"

definition test_run_accepted :: "new_test_run \<Rightarrow> bench \<Rightarrow> bool" where
  "test_run_accepted n b \<longleftrightarrow>
    list_all (\<lambda>r. tn_id r \<noteq> nt_id n) (bn_runs b)
    \<and> test_status_known (nt_status n) \<and> nt_requested_by n \<in> {''app'', ''cli'', ''workflow''}
    \<and> nt_project n \<in> set (bn_projects b) \<and> nt_workspace n \<in> set (bn_workspaces b)
    \<and> list_all (\<lambda>s. tp_run s \<noteq> nt_id n) (bn_steps b) \<and> distinct (map fst (nt_steps n))
    \<and> list_all (\<lambda>(_, ph, _). ph \<in> {''setup'', ''steps'', ''teardown''}) (nt_steps n)"

definition queue_test_run :: "new_test_run \<Rightarrow> int \<Rightarrow> bench \<Rightarrow> (store_error + test_queued) \<times> bench" where
  "queue_test_run n now b =
    (case find (\<lambda>r. tn_test r = nt_test n \<and> tn_workspace r = Some (nt_workspace n) \<and> test_going (tn_status r))
        (bn_runs b) of
       Some r \<Rightarrow> (Inr (TestAlreadyRunning (tn_id r)), b)
     | None \<Rightarrow>
         if test_run_accepted n b
         then (Inr TestQueued, b\<lparr>bn_runs := bn_runs b @ [new_test_row n now],
           bn_steps := bn_steps b @ pending_test_rows (nt_id n) (nt_steps n)\<rparr>)
         else (Inl constraint_failed, b))"

definition find_test_run :: "string \<Rightarrow> bench \<Rightarrow> test_run_row option" where
  "find_test_run i b = find (\<lambda>r. tn_id r = i) (bn_runs b)"

definition test_runs :: "string option \<Rightarrow> nat \<Rightarrow> bench \<Rightarrow> test_run_row list" where
  "test_runs ws limit b =
    take limit (rev (sort_key tn_created (filter (\<lambda>r. ws = None \<or> tn_workspace r = ws) (bn_runs b))))"

definition latest_test_runs :: "bench \<Rightarrow> test_run_row list" where
  "latest_test_runs b =
    filter (\<lambda>r. case rev (sort_key tn_created (filter (\<lambda>q. tn_test q = tn_test r \<and> tn_workspace q = tn_workspace r) (bn_runs b))) of
        newest # _ \<Rightarrow> newest = r | [] \<Rightarrow> False) (bn_runs b)"

definition active_test_runs :: "bench \<Rightarrow> test_run_row list" where
  "active_test_runs b = sort_key tn_created (filter (\<lambda>r. test_going (tn_status r)) (bn_runs b))"

definition test_steps :: "string \<Rightarrow> bench \<Rightarrow> test_step_row list" where
  "test_steps i b = sort_key tp_position (filter (\<lambda>s. tp_run s = i) (bn_steps b))"

definition test_step :: "string \<Rightarrow> string \<Rightarrow> bench \<Rightarrow> test_step_row option" where
  "test_step i s b = find (\<lambda>r. tp_run r = i \<and> tp_step r = s) (bn_steps b)"

text \<open>An \<open>UPDATE\<close> of the run with this id, where its row allows it, and of steps.\<close>

definition update_test_run :: "string \<Rightarrow> (test_run_row \<Rightarrow> bool) \<Rightarrow> (test_run_row \<Rightarrow> test_run_row) \<Rightarrow> bench \<Rightarrow> bool \<times> bench" where
  "update_test_run i allowed f b =
    (list_ex (\<lambda>r. tn_id r = i \<and> allowed r) (bn_runs b),
     b\<lparr>bn_runs := map (\<lambda>r. if tn_id r = i \<and> allowed r then f r else r) (bn_runs b)\<rparr>)"

definition update_test_steps :: "string \<Rightarrow> (test_step_row \<Rightarrow> bool) \<Rightarrow> (test_step_row \<Rightarrow> test_step_row) \<Rightarrow> bench \<Rightarrow> bench" where
  "update_test_steps i allowed f b =
    b\<lparr>bn_steps := map (\<lambda>s. if tp_run s = i \<and> allowed s then f s else s) (bn_steps b)\<rparr>"

definition start_test_run :: "string \<Rightarrow> nat \<Rightarrow> string \<Rightarrow> int \<Rightarrow> bench \<Rightarrow> bool \<times> bench" where
  "start_test_run i port dir now b =
    update_test_run i (\<lambda>r. tn_status r = ''queued'')
      (\<lambda>r. r\<lparr>tn_status := ''running'', tn_started := Some now, tn_port := Some port, tn_output_dir := Some dir\<rparr>) b"

definition moved_test_row :: "step_change \<Rightarrow> int \<Rightarrow> test_step_row \<Rightarrow> test_step_row" where
  "moved_test_row c now s =
    s\<lparr>tp_status := cg_to c,
      tp_started := (if test_step_ended (cg_to c) then tp_started s else or_else (tp_started s) (Some now)),
      tp_ended := (if test_step_ended (cg_to c) then Some now else tp_ended s),
      tp_exit := or_else (cg_exit c) (tp_exit s),
      tp_outputs := (case cg_outputs c of Some left \<Rightarrow> left | None \<Rightarrow> tp_outputs s),
      tp_note := or_else (cg_note c) (tp_note s),
      tp_screenshots := (case cg_screenshots c of Some shots \<Rightarrow> shots | None \<Rightarrow> tp_screenshots s)\<rparr>"

definition test_run_is :: "string \<Rightarrow> string \<Rightarrow> bench \<Rightarrow> bool" where
  "test_run_is status i b \<longleftrightarrow> list_ex (\<lambda>r. tn_id r = i \<and> tn_status r = status) (bn_runs b)"

definition takes_change :: "string \<Rightarrow> string \<Rightarrow> string list \<Rightarrow> test_step_row \<Rightarrow> bool" where
  "takes_change i step froms s \<longleftrightarrow> tp_run s = i \<and> tp_step s = step \<and> tp_status s \<in> set froms"

definition move_test_step :: "string \<Rightarrow> string \<Rightarrow> string list \<Rightarrow> step_change \<Rightarrow> int \<Rightarrow> bench \<Rightarrow> (store_error + bool) \<times> bench" where
  "move_test_step i step froms c now b =
    (if \<not> test_run_is ''running'' i b \<or> \<not> list_ex (takes_change i step froms) (bn_steps b) then (Inr False, b)
     else if \<not> test_step_known (cg_to c) then (Inl constraint_failed, b)
     else (Inr True, b\<lparr>bn_steps := map (\<lambda>s. if takes_change i step froms s then moved_test_row c now s else s) (bn_steps b)\<rparr>))"

definition finish_test_run :: "string \<Rightarrow> string \<Rightarrow> string option \<Rightarrow> int \<Rightarrow> bench \<Rightarrow> (store_error + bool) \<times> bench" where
  "finish_test_run i status why now b =
    (case update_test_run i (\<lambda>r. tn_status r = ''running'')
        (\<lambda>r. r\<lparr>tn_status := status, tn_error := why, tn_ended := Some now\<rparr>) b of
       (changed, b') \<Rightarrow>
         if changed \<and> \<not> test_status_known status then (Inl constraint_failed, b) else (Inr changed, b'))"

text \<open>One that waits or is queued ends at once, its steps with it; one that runs is asked to stop.\<close>

definition cancel_test_run :: "string \<Rightarrow> string \<Rightarrow> int \<Rightarrow> bench \<Rightarrow> bool \<times> bench" where
  "cancel_test_run i reason now b =
    (case update_test_run i (\<lambda>r. tn_status r = ''awaiting_approval'' \<or> tn_status r = ''queued'')
        (\<lambda>r. r\<lparr>tn_status := ''cancelled'', tn_error := Some reason, tn_ended := Some now\<rparr>) b of
       (True, b') \<Rightarrow>
         (True, update_test_steps i (\<lambda>s. tp_status s \<in> {''pending'', ''running'', ''waiting''})
           (\<lambda>s. s\<lparr>tp_status := ''cancelled'', tp_ended := Some now\<rparr>) b')
     | (False, b') \<Rightarrow>
         update_test_run i (\<lambda>r. tn_status r = ''running'' \<and> tn_cancel_requested r = None)
           (\<lambda>r. r\<lparr>tn_cancel_requested := Some now, tn_error := Some reason\<rparr>) b')"

definition cancel_requested :: "string \<Rightarrow> bench \<Rightarrow> bool" where
  "cancel_requested i b = (case find_test_run i b of Some r \<Rightarrow> tn_cancel_requested r \<noteq> None | None \<Rightarrow> False)"

definition end_interrupted :: "string \<Rightarrow> int \<Rightarrow> test_run_row \<Rightarrow> bench \<Rightarrow> bench" where
  "end_interrupted why now run b =
    snd (update_test_run (tn_id run) (\<lambda>r. tn_status r = ''running'')
      (\<lambda>r. r\<lparr>tn_status := ''errored'', tn_error := Some why, tn_ended := Some now\<rparr>)
      (update_test_steps (tn_id run) (\<lambda>s. tp_status s = ''pending'') (\<lambda>s. s\<lparr>tp_status := ''skipped'', tp_ended := Some now\<rparr>)
        (update_test_steps (tn_id run) (\<lambda>s. tp_status s \<in> {''running'', ''waiting''})
          (\<lambda>s. s\<lparr>tp_status := ''failed'', tp_ended := Some now, tp_note := Some why\<rparr>) b)))"

definition end_interrupted_test_runs :: "string \<Rightarrow> int \<Rightarrow> bench \<Rightarrow> test_run_row list \<times> bench" where
  "end_interrupted_test_runs why now b =
    (let interrupted = filter (\<lambda>r. tn_status r = ''running'') (active_test_runs b) in
     (interrupted, fold (end_interrupted why now) interrupted b))"

definition answer_test_step :: "json \<Rightarrow> string \<Rightarrow> string \<Rightarrow> bool \<Rightarrow> string option \<Rightarrow> int \<Rightarrow> bench \<Rightarrow> (store_error + bool) \<times> bench" where
  "answer_test_step js i step good note now b =
    (let outputs = (case test_step i step b of Some s \<Rightarrow> parse_outputs js (tp_outputs s) | None \<Rightarrow> Map.empty) in
     move_test_step i step [''waiting'']
       \<lparr>cg_to = (if good then ''passed'' else ''failed''), cg_exit = None,
         cg_outputs = Some (to_json js (outputs(''note'' \<mapsto> (case note of Some n \<Rightarrow> n | None \<Rightarrow> [])))),
         cg_note = note, cg_screenshots = None\<rparr> now b)"

definition prunable :: "string option \<Rightarrow> int \<Rightarrow> test_run_row \<Rightarrow> bool" where
  "prunable project before r \<longleftrightarrow>
    \<not> test_going (tn_status r) \<and> tn_project r = project
    \<and> (case tn_ended r of Some t \<Rightarrow> t | None \<Rightarrow> tn_created r) < before"

definition prune_test_runs :: "string option \<Rightarrow> int \<Rightarrow> bench \<Rightarrow> (string \<times> string option) list \<times> bench" where
  "prune_test_runs project before b =
    (let gone = map (\<lambda>r. (tn_id r, tn_output_dir r)) (filter (prunable project before) (bn_runs b)) in
     (gone, b\<lparr>bn_runs := filter (\<lambda>r. tn_id r \<notin> fst ` set gone) (bn_runs b),
       bn_steps := filter (\<lambda>s. tp_run s \<notin> fst ` set gone) (bn_steps b)\<rparr>))"

section \<open>Approvals\<close>

definition test_approved :: "string \<Rightarrow> string \<Rightarrow> string \<Rightarrow> bench \<Rightarrow> bool" where
  "test_approved p i h b \<longleftrightarrow> list_ex (\<lambda>a. ap_project a = p \<and> ap_test a = i \<and> ap_hash a = h) (bn_approvals b)"

text \<open>\<open>ORDER BY a.approved_at DESC, r.created_at DESC, r.rowid DESC LIMIT 1\<close>.\<close>

definition last_approved_definition :: "string \<Rightarrow> string \<Rightarrow> bench \<Rightarrow> string option" where
  "last_approved_definition p i b =
    (let pairs = concat (map (\<lambda>r. map (\<lambda>a. (a, r)) (filter (\<lambda>a. ap_project a = p \<and> ap_test a = i
            \<and> tn_project r = Some (ap_project a) \<and> tn_test r = ap_test a \<and> tn_hash r = ap_hash a) (bn_approvals b)))
          (bn_runs b))
     in case rev (sort_key (\<lambda>(a, r). ap_at a) (sort_key (\<lambda>(a, r). tn_created r) pairs)) of
          [] \<Rightarrow> None
        | (_, r) # _ \<Rightarrow> Some (tn_definition r))"

definition add_approval :: "string \<Rightarrow> string \<Rightarrow> string \<Rightarrow> int \<Rightarrow> bench \<Rightarrow> bench" where
  "add_approval p i h now b =
    (if test_approved p i h b then b
     else b\<lparr>bn_approvals := bn_approvals b @ [\<lparr>ap_project = p, ap_test = i, ap_hash = h, ap_at = now\<rparr>]\<rparr>)"

definition approve_test :: "string \<Rightarrow> string \<Rightarrow> string \<Rightarrow> int \<Rightarrow> bench \<Rightarrow> (store_error + unit) \<times> bench" where
  "approve_test p i h now b =
    (if p \<in> set (bn_projects b) \<or> test_approved p i h b then (Inr (), add_approval p i h now b)
     else (Inl constraint_failed, b))"

definition approve_test_run :: "string \<Rightarrow> int \<Rightarrow> bench \<Rightarrow> bool \<times> bench" where
  "approve_test_run i now b =
    (case find (\<lambda>r. tn_id r = i \<and> tn_status r = ''awaiting_approval'') (bn_runs b) of
       None \<Rightarrow> (False, b)
     | Some run \<Rightarrow>
         let b' = (case tn_project run of Some p \<Rightarrow> add_approval p (tn_test run) (tn_hash run) now b | None \<Rightarrow> b) in
         (True, snd (update_test_run i (\<lambda>r. tn_status r = ''awaiting_approval'') (\<lambda>r. r\<lparr>tn_status := ''queued''\<rparr>) b')))"

definition refuse_test_run :: "string \<Rightarrow> int \<Rightarrow> bench \<Rightarrow> bool \<times> bench" where
  "refuse_test_run i now b =
    (case update_test_run i (\<lambda>r. tn_status r = ''awaiting_approval'')
        (\<lambda>r. r\<lparr>tn_status := ''refused'', tn_ended := Some now\<rparr>) b of
       (refused, b') \<Rightarrow>
         (refused,
          if refused then update_test_steps i (\<lambda>s. tp_status s = ''pending'')
            (\<lambda>s. s\<lparr>tp_status := ''skipped'', tp_ended := Some now\<rparr>) b'
          else b'))"

section \<open>What a project sets\<close>

definition project_test_env :: "string \<Rightarrow> bench \<Rightarrow> (string \<times> string) list" where
  "project_test_env p b = sort_key fst (map snd (filter (\<lambda>(q, _). q = p) (bn_env b)))"

definition set_project_test_env :: "string \<Rightarrow> (string \<times> string) list \<Rightarrow> bench \<Rightarrow> (store_error + unit) \<times> bench" where
  "set_project_test_env p entries b =
    (if distinct (map fst entries) \<and> (entries = [] \<or> p \<in> set (bn_projects b))
     then (Inr (), b\<lparr>bn_env := filter (\<lambda>(q, _). q \<noteq> p) (bn_env b) @ map (Pair p) entries\<rparr>)
     else (Inl constraint_failed, b))"

definition project_test_settings :: "string \<Rightarrow> bench \<Rightarrow> test_settings" where
  "project_test_settings p b = (case map_of (bn_settings b) p of Some s \<Rightarrow> s | None \<Rightarrow> default_test_settings)"

definition set_project_test_settings :: "string \<Rightarrow> test_settings \<Rightarrow> bench \<Rightarrow> (store_error + unit) \<times> bench" where
  "set_project_test_settings p s b =
    (if p \<in> set (bn_projects b) then (Inr (), b\<lparr>bn_settings := AList.update p s (bn_settings b)\<rparr>)
     else (Inl constraint_failed, b))"

definition test_settings_by_project :: "bench \<Rightarrow> (string \<times> test_settings) list" where
  "test_settings_by_project b = map (\<lambda>p. (p, project_test_settings p b)) (bn_projects b)"

text \<open>A workspace that is deleted is forgotten by its runs; a project that is deleted takes its approvals,
  environment and settings with it, and is forgotten by its runs.\<close>

definition bench_without_workspace :: "string \<Rightarrow> bench \<Rightarrow> bench" where
  "bench_without_workspace ws b =
    b\<lparr>bn_workspaces := filter (\<lambda>x. x \<noteq> ws) (bn_workspaces b),
      bn_runs := map (\<lambda>r. if tn_workspace r = Some ws then r\<lparr>tn_workspace := None\<rparr> else r) (bn_runs b)\<rparr>"

definition bench_without_project :: "string \<Rightarrow> bench \<Rightarrow> bench" where
  "bench_without_project p b =
    b\<lparr>bn_projects := filter (\<lambda>x. x \<noteq> p) (bn_projects b),
      bn_runs := map (\<lambda>r. if tn_project r = Some p then r\<lparr>tn_project := None\<rparr> else r) (bn_runs b),
      bn_approvals := filter (\<lambda>a. ap_project a \<noteq> p) (bn_approvals b),
      bn_env := filter (\<lambda>(q, _). q \<noteq> p) (bn_env b), bn_settings := filter (\<lambda>(q, _). q \<noteq> p) (bn_settings b)\<rparr>"

section \<open>Everything that changes the tables\<close>

datatype bench_op =
    QueueTest new_test_run int
  | StartTest string nat string int
  | MoveTest string string "string list" step_change int
  | FinishTest string string "string option" int
  | CancelTest string string int
  | EndInterrupted string int
  | AnswerTest string string bool "string option" int
  | PruneTests "string option" int
  | ApproveTest string string string int
  | ApproveRun string int
  | RefuseRun string int
  | SetTestEnv string "(string \<times> string) list"
  | SetTestSettings string test_settings
  | ForgetWorkspace string
  | ForgetProject string

fun bench_step :: "json \<Rightarrow> bench_op \<Rightarrow> bench \<Rightarrow> bench" where
  "bench_step js (QueueTest n now) b = snd (queue_test_run n now b)"
| "bench_step js (StartTest i port dir now) b = snd (start_test_run i port dir now b)"
| "bench_step js (MoveTest i step froms c now) b = snd (move_test_step i step froms c now b)"
| "bench_step js (FinishTest i status why now) b = snd (finish_test_run i status why now b)"
| "bench_step js (CancelTest i reason now) b = snd (cancel_test_run i reason now b)"
| "bench_step js (EndInterrupted why now) b = snd (end_interrupted_test_runs why now b)"
| "bench_step js (AnswerTest i step good note now) b = snd (answer_test_step js i step good note now b)"
| "bench_step js (PruneTests p before) b = snd (prune_test_runs p before b)"
| "bench_step js (ApproveTest p i h now) b = snd (approve_test p i h now b)"
| "bench_step js (ApproveRun i now) b = snd (approve_test_run i now b)"
| "bench_step js (RefuseRun i now) b = snd (refuse_test_run i now b)"
| "bench_step js (SetTestEnv p entries) b = snd (set_project_test_env p entries b)"
| "bench_step js (SetTestSettings p s) b = snd (set_project_test_settings p s b)"
| "bench_step js (ForgetWorkspace ws) b = bench_without_workspace ws b"
| "bench_step js (ForgetProject p) b = bench_without_project p b"

lemma runs_of_others [simp]:
  "bn_runs (update_test_steps i P f b) = bn_runs b"
  "bn_runs (snd (move_test_step i step froms c now b)) = bn_runs b"
  "bn_runs (snd (answer_test_step js i step good note now b)) = bn_runs b"
  "bn_runs (snd (approve_test p t h now b)) = bn_runs b"
  "bn_runs (add_approval p t h now b) = bn_runs b"
  "bn_runs (snd (set_project_test_env p entries b)) = bn_runs b"
  "bn_runs (snd (set_project_test_settings p s b)) = bn_runs b"
  by (simp_all add: update_test_steps_def move_test_step_def answer_test_step_def approve_test_def
      add_approval_def set_project_test_env_def set_project_test_settings_def Let_def)

lemma approvals_of_others [simp]:
  "bn_approvals (snd (update_test_run i P g b)) = bn_approvals b"
  "bn_approvals (update_test_steps i Q f b) = bn_approvals b"
  by (simp_all add: update_test_run_def update_test_steps_def)

text \<open>Each run is changed on its own: what a statement on the runs does to one row.\<close>

definition runs_changed :: "(test_run_row \<Rightarrow> test_run_row) \<Rightarrow> bench \<Rightarrow> bench \<Rightarrow> bool" where
  "runs_changed f b b' \<longleftrightarrow> bn_runs b' = map f (bn_runs b)"

lemma runs_changed_id [intro]: "bn_runs b' = bn_runs b \<Longrightarrow> \<exists>f. (\<forall>r. R r (f r)) \<and> runs_changed f b b'"
  if "\<forall>r. R r r" for R
  using that by (intro exI [of _ id]) (simp add: runs_changed_def)

lemma runs_changed_update:
  assumes "\<And>r. R r r" and "\<And>r. P r \<Longrightarrow> R r (f r)"
  shows "\<exists>g. (\<forall>r. R r (g r)) \<and> runs_changed g b (snd (update_test_run i P f b))"
  using assms by (intro exI [of _ "\<lambda>r. if tn_id r = i \<and> P r then f r else r"]) (simp add: runs_changed_def update_test_run_def)

lemma runs_changed_trans:
  assumes "\<exists>f. (\<forall>r. R r (f r)) \<and> runs_changed f a b" and "\<exists>f. (\<forall>r. R r (f r)) \<and> runs_changed f b c"
    and "\<And>x y z. R x y \<Longrightarrow> R y z \<Longrightarrow> R x z"
  shows "\<exists>f. (\<forall>r. R r (f r)) \<and> runs_changed f a c"
proof -
  obtain f g where fg: "\<forall>r. R r (f r)" "runs_changed f a b" "\<forall>r. R r (g r)" "runs_changed g b c"
    using assms(1,2) by blast
  have "R r ((g \<circ> f) r)" for r
    using assms(3) [of r "f r" "g (f r)"] fg(1,3) by simp
  moreover have "runs_changed (g \<circ> f) a c" using fg(2,4) by (simp add: runs_changed_def)
  ultimately show ?thesis by blast
qed

text \<open>How a run may move: it keeps what it was asked as, it is only forgotten by what is deleted, and
  one that has ended stays as it is.\<close>

definition test_moves :: "test_run_row \<Rightarrow> test_run_row \<Rightarrow> bool" where
  "test_moves r r' \<longleftrightarrow>
    tn_id r' = tn_id r \<and> tn_test r' = tn_test r \<and> tn_definition r' = tn_definition r \<and> tn_hash r' = tn_hash r
    \<and> (tn_workspace r' = tn_workspace r \<or> tn_workspace r' = None)
    \<and> (test_going (tn_status r') \<longrightarrow> test_going (tn_status r))
    \<and> (\<not> test_going (tn_status r) \<longrightarrow>
        r' = r\<lparr>tn_workspace := tn_workspace r', tn_project := tn_project r'\<rparr>)"

lemma test_moves_refl [simp]: "test_moves r r"
  by (simp add: test_moves_def)

lemma test_moves_trans:
  assumes "test_moves x y" and "test_moves y z"
  shows "test_moves x z"
proof -
  have ended: "z = x\<lparr>tn_workspace := tn_workspace z, tn_project := tn_project z\<rparr>" if "\<not> test_going (tn_status x)"
  proof -
    have y: "y = x\<lparr>tn_workspace := tn_workspace y, tn_project := tn_project y\<rparr>"
      using assms(1) that unfolding test_moves_def by blast
    then have "tn_status y = tn_status x" by (metis test_run_row.select_convs(10) test_run_row.surjective test_run_row.update_convs(2,3))
    then have "z = y\<lparr>tn_workspace := tn_workspace z, tn_project := tn_project z\<rparr>"
      using assms(2) that unfolding test_moves_def by metis
    also have "\<dots> = x\<lparr>tn_workspace := tn_workspace z, tn_project := tn_project z\<rparr>" by (subst y) simp
    finally show ?thesis .
  qed
  show ?thesis using assms ended unfolding test_moves_def by metis
qed

lemma test_moves_active: "test_going (tn_status r) \<Longrightarrow> test_moves r (r\<lparr>tn_status := s\<rparr>)"
  by (simp add: test_moves_def)

text \<open>A run whose file the user has let run, now or before.\<close>

definition cleared :: "test_run_row \<Rightarrow> bool" where
  "cleared r \<longleftrightarrow> tn_status r \<notin> {''awaiting_approval'', ''refused'', ''cancelled''}"

definition test_keeps :: "test_run_row \<Rightarrow> test_run_row \<Rightarrow> bool" where
  "test_keeps r r' \<longleftrightarrow> test_moves r r' \<and> (cleared r' \<longrightarrow> cleared r)"

lemma test_keeps_refl [simp]: "test_keeps r r"
  by (simp add: test_keeps_def)

lemma test_keeps_trans: "test_keeps x y \<Longrightarrow> test_keeps y z \<Longrightarrow> test_keeps x z"
  unfolding test_keeps_def using test_moves_trans by blast

abbreviation runs_keep :: "bench \<Rightarrow> bench \<Rightarrow> bool" where
  "runs_keep b b' \<equiv> \<exists>f. (\<forall>r. test_keeps r (f r)) \<and> runs_changed f b b'"

lemma runs_keep_trans: "runs_keep a b \<Longrightarrow> runs_keep b c \<Longrightarrow> runs_keep a c"
  by (rule runs_changed_trans [where R = test_keeps]) (auto intro: test_keeps_trans)

lemmas runs_keep_update = runs_changed_update [where R = test_keeps, OF test_keeps_refl]

lemma runs_keep_same: "bn_runs b' = bn_runs b \<Longrightarrow> runs_keep b b'"
  by (intro exI [of _ id]) (simp add: runs_changed_def)

lemma runs_keep_end_interrupted: "runs_keep b (end_interrupted why now run b)"
  unfolding end_interrupted_def
  by (rule runs_keep_trans [OF runs_keep_same runs_keep_update])
    (simp_all add: test_keeps_def test_moves_def test_going_def cleared_def)

lemma runs_keep_fold: "runs_keep b (fold (end_interrupted why now) rs b)"
proof (induction rs arbitrary: b)
  case (Cons r rs)
  show ?case using runs_keep_trans [OF runs_keep_end_interrupted Cons.IH] by simp
qed (simp add: runs_keep_same)

lemma cancel_as_updates:
  "bn_runs (snd (cancel_test_run i reason now b)) = bn_runs (snd
    (let b' = snd (update_test_run i (\<lambda>r. tn_status r = ''awaiting_approval'' \<or> tn_status r = ''queued'')
        (\<lambda>r. r\<lparr>tn_status := ''cancelled'', tn_error := Some reason, tn_ended := Some now\<rparr>) b)
     in if fst (update_test_run i (\<lambda>r. tn_status r = ''awaiting_approval'' \<or> tn_status r = ''queued'')
        (\<lambda>r. r\<lparr>tn_status := ''cancelled'', tn_error := Some reason, tn_ended := Some now\<rparr>) b)
     then (True, b')
     else update_test_run i (\<lambda>r. tn_status r = ''running'' \<and> tn_cancel_requested r = None)
           (\<lambda>r. r\<lparr>tn_cancel_requested := Some now, tn_error := Some reason\<rparr>) b'))"
  by (simp add: cancel_test_run_def Let_def split: prod.split bool.split)

lemma runs_keep_cancel: "runs_keep b (snd (cancel_test_run i reason now b))"
proof -
  let ?P = "\<lambda>r. tn_status r = ''awaiting_approval'' \<or> tn_status r = ''queued''"
  let ?f = "\<lambda>r. r\<lparr>tn_status := ''cancelled'', tn_error := Some reason, tn_ended := Some now\<rparr>"
  let ?b = "snd (update_test_run i ?P ?f b)"
  have one: "runs_keep b ?b"
    by (rule runs_keep_update) (auto simp: test_keeps_def test_moves_def test_going_def cleared_def)
  have two: "runs_keep ?b (snd (update_test_run i (\<lambda>r. tn_status r = ''running'' \<and> tn_cancel_requested r = None)
           (\<lambda>r. r\<lparr>tn_cancel_requested := Some now, tn_error := Some reason\<rparr>) ?b))"
    by (rule runs_keep_update) (auto simp: test_keeps_def test_moves_def test_going_def cleared_def)
  show ?thesis
  proof (cases "fst (update_test_run i ?P ?f b)")
    case True
    then have "bn_runs (snd (cancel_test_run i reason now b)) = bn_runs ?b" by (simp add: cancel_as_updates Let_def)
    then show ?thesis using one by (simp add: runs_changed_def)
  next
    case False
    then have "bn_runs (snd (cancel_test_run i reason now b)) = bn_runs (snd (update_test_run i
        (\<lambda>r. tn_status r = ''running'' \<and> tn_cancel_requested r = None)
        (\<lambda>r. r\<lparr>tn_cancel_requested := Some now, tn_error := Some reason\<rparr>) ?b))"
      by (simp add: cancel_as_updates Let_def)
    then show ?thesis using runs_keep_trans [OF one two] by (simp add: runs_changed_def)
  qed
qed

lemma runs_keep_refuse: "runs_keep b (snd (refuse_test_run i now b))"
proof -
  have "runs_keep b (snd (update_test_run i (\<lambda>r. tn_status r = ''awaiting_approval'')
        (\<lambda>r. r\<lparr>tn_status := ''refused'', tn_ended := Some now\<rparr>) b))"
    by (rule runs_keep_update) (auto simp: test_keeps_def test_moves_def test_going_def cleared_def)
  then show ?thesis
    by (cases "update_test_run i (\<lambda>r. tn_status r = ''awaiting_approval'') (\<lambda>r. r\<lparr>tn_status := ''refused'', tn_ended := Some now\<rparr>) b")
      (simp add: refuse_test_run_def runs_changed_def)
qed

lemma runs_keep_finish: "runs_keep b (snd (finish_test_run i status why now b))"
proof -
  have "runs_keep b (snd (update_test_run i (\<lambda>r. tn_status r = ''running'')
        (\<lambda>r. r\<lparr>tn_status := status, tn_error := why, tn_ended := Some now\<rparr>) b))"
    by (rule runs_keep_update) (auto simp: test_keeps_def test_moves_def test_going_def cleared_def)
  then show ?thesis
    by (cases "update_test_run i (\<lambda>r. tn_status r = ''running'') (\<lambda>r. r\<lparr>tn_status := status, tn_error := why, tn_ended := Some now\<rparr>) b")
      (simp add: finish_test_run_def runs_keep_same)
qed

lemma runs_keep_start: "runs_keep b (snd (start_test_run i port dir now b))"
  unfolding start_test_run_def
  by (rule runs_keep_update) (auto simp: test_keeps_def test_moves_def test_going_def cleared_def)

lemma forgetting_keeps:
  "test_keeps r (if tn_workspace r = Some ws then r\<lparr>tn_workspace := None\<rparr> else r)"
  "test_keeps r (if tn_project r = Some p then r\<lparr>tn_project := None\<rparr> else r)"
  by (simp_all add: test_keeps_def test_moves_def cleared_def)

lemma runs_keep_forget:
  "runs_keep b (bench_without_workspace ws b)" "runs_keep b (bench_without_project p b)"
  by (rule exI [of _ "\<lambda>r. if tn_workspace r = Some ws then r\<lparr>tn_workspace := None\<rparr> else r"],
      simp add: bench_without_workspace_def runs_changed_def forgetting_keeps)
    (rule exI [of _ "\<lambda>r. if tn_project r = Some p then r\<lparr>tn_project := None\<rparr> else r"],
      simp add: bench_without_project_def runs_changed_def forgetting_keeps)

lemma runs_approved:
  "\<exists>f. (\<forall>r. test_moves r (f r) \<and> (cleared (f r) \<longrightarrow> cleared r \<or> tn_id r = i)) \<and> runs_changed f b (snd (approve_test_run i now b))"
proof -
  let ?f = "\<lambda>r. if tn_id r = i \<and> tn_status r = ''awaiting_approval'' then r\<lparr>tn_status := ''queued''\<rparr> else r"
  have f: "\<forall>r. test_moves r (?f r) \<and> (cleared (?f r) \<longrightarrow> cleared r \<or> tn_id r = i)"
    by (auto simp: test_moves_def test_going_def cleared_def)
  show ?thesis
  proof (cases "find (\<lambda>r. tn_id r = i \<and> tn_status r = ''awaiting_approval'') (bn_runs b)")
    case None
    then show ?thesis by (intro exI [of _ id]) (simp add: approve_test_run_def runs_changed_def)
  next
    case (Some run)
    then have "runs_changed ?f b (snd (approve_test_run i now b))"
      by (simp add: approve_test_run_def runs_changed_def update_test_run_def Let_def split: option.splits)
    then show ?thesis by (intro exI [of _ ?f] conjI f)
  qed
qed

text \<open>Only queuing adds runs, only pruning drops them, and only the user clears one that waits.\<close>

lemma bench_step_keeps:
  assumes "case op of QueueTest _ _ \<Rightarrow> False | PruneTests _ _ \<Rightarrow> False | ApproveRun _ _ \<Rightarrow> False | _ \<Rightarrow> True"
  shows "runs_keep b (bench_step js op b)"
  using assms
  by (cases op) (simp_all add: assms runs_keep_start runs_keep_finish runs_keep_cancel runs_keep_refuse runs_keep_same
      runs_keep_forget end_interrupted_test_runs_def runs_keep_fold Let_def)

section \<open>One at a time\<close>

definition test_place :: "test_run_row \<Rightarrow> string \<times> string option" where
  "test_place r = (tn_test r, tn_workspace r)"

definition holds_bench :: "test_run_row \<Rightarrow> bool" where
  "holds_bench r \<longleftrightarrow> test_going (tn_status r) \<and> tn_workspace r \<noteq> None"

definition runs_once :: "test_run_row list \<Rightarrow> bool" where
  "runs_once rs \<longleftrightarrow> distinct (map tn_id rs) \<and> distinct (map test_place (filter holds_bench rs))"

lemma runs_once_map:
  assumes "runs_once rs" and "\<And>r. test_moves r (f r)"
  shows "runs_once (map f rs)"
proof -
  have "map tn_id (map f rs) = map tn_id rs" using assms(2) by (simp add: test_moves_def)
  moreover have "distinct (map test_place (filter holds_bench (map f rs)))"
  proof (rule distinct_map_filter_map)
    show "distinct (map test_place (filter holds_bench rs))" using assms(1) by (simp add: runs_once_def)
    show "holds_bench r \<and> test_place (f r) = test_place r" if "holds_bench (f r)" for r
      using assms(2) [of r] that by (auto simp: test_moves_def holds_bench_def test_place_def)
  qed
  ultimately show ?thesis using assms(1) unfolding runs_once_def by (metis (no_types))
qed

lemma runs_once_filter:
  assumes "runs_once rs"
  shows "runs_once (filter P rs)"
proof -
  have swap: "filter holds_bench (filter P rs) = filter P (filter holds_bench rs)"
    by (simp add: filter_filter conj_commute)
  have "distinct (map test_place (filter holds_bench (filter P rs)))"
    using assms unfolding swap runs_once_def by (blast intro: distinct_map_filter)
  then show ?thesis using assms by (simp add: runs_once_def distinct_map_filter)
qed

lemma runs_once_queue:
  assumes "runs_once (bn_runs b)"
  shows "runs_once (bn_runs (snd (queue_test_run n now b)))"
proof (cases "bn_runs (snd (queue_test_run n now b)) = bn_runs b")
  case False
  then have free: "find (\<lambda>r. tn_test r = nt_test n \<and> tn_workspace r = Some (nt_workspace n) \<and> test_going (tn_status r))
        (bn_runs b) = None"
    and runs: "bn_runs (snd (queue_test_run n now b)) = bn_runs b @ [new_test_row n now]"
    and fresh: "list_all (\<lambda>r. tn_id r \<noteq> nt_id n) (bn_runs b)"
    by (auto simp: queue_test_run_def test_run_accepted_def split: option.splits if_splits)
  have "(nt_test n, Some (nt_workspace n)) \<notin> test_place ` set (filter holds_bench (bn_runs b))"
    using free by (auto simp: find_None_iff test_place_def holds_bench_def)
  then show ?thesis using assms fresh
    by (auto simp: runs runs_once_def new_test_row_def test_place_def list_all_iff image_iff)
qed (simp add: assms)

lemma runs_once_step:
  assumes "runs_once (bn_runs b)"
  shows "runs_once (bn_runs (bench_step js op b))"
proof -
  have keep: ?thesis if "\<exists>f. (\<forall>r. test_moves r (f r)) \<and> runs_changed f b (bench_step js op b)"
    using that runs_once_map [OF assms] by (auto simp: runs_changed_def)
  show ?thesis
  proof (cases "case op of QueueTest _ _ \<Rightarrow> False | PruneTests _ _ \<Rightarrow> False | ApproveRun _ _ \<Rightarrow> False | _ \<Rightarrow> True")
    case True
    then show ?thesis using bench_step_keeps [of op b js] keep by (auto simp: test_keeps_def)
  next
    case False
    then show ?thesis
    proof (cases op)
      case (QueueTest n now)
      then show ?thesis using runs_once_queue [OF assms] by simp
    next
      case (PruneTests p before)
      then show ?thesis using runs_once_filter [OF assms] by (simp add: prune_test_runs_def Let_def)
    next
      case (ApproveRun i now)
      then show ?thesis using runs_approved [of i b now] keep by auto
    qed simp_all
  qed
qed

section \<open>Properties\<close>

text \<open>
  C16. Whatever the app, \<open>ys\<close> and the runner do to the tables in turn, a smoke test never has two runs
  that wait, are queued or are running in one workspace.
\<close>

theorem tests_run_once:
  "distinct (map test_place (filter (\<lambda>r. test_going (tn_status r) \<and> tn_workspace r \<noteq> None)
    (bn_runs (fold (bench_step js) ops (empty_bench ps ws)))))"
proof -
  have "runs_once (bn_runs (fold (bench_step js) ops b))" if "runs_once (bn_runs b)" for b
    using that by (induction ops arbitrary: b) (simp_all add: runs_once_step)
  from this [of "empty_bench ps ws"] show ?thesis
    by (simp add: runs_once_def empty_bench_def holds_bench_def [abs_def])
qed

end
