(* ===== verification/Smoke_Door.thy ===== *)
theory Smoke_Door
  imports Smoke_Store
begin

text \<open>
  \<open>crates/core/src/smoke/runs.rs\<close>: the one door for a run of a smoke test, whoever asks, with the
  search for a browser it makes (\<open>smoke/browser.rs\<close>).  The worktree's files are read anew each time;
  what they hold, the hash of a text and the files of the machine are the record \<open>site\<close>.  The
  lemmas show that a run is queued only when it is ready, that an unattended one never waits for a
  person, and that no file runs that the user has not been shown.
\<close>

section \<open>Finding a browser\<close>

record machine =
  mc_is_file :: "string \<Rightarrow> bool"
  mc_which :: "string \<Rightarrow> string option"
  mc_candidates :: "string list"
  mc_places :: "string list"

definition looked_for :: "machine \<Rightarrow> string" where
  "looked_for mc = join_with '', '' (mc_candidates mc) @ '' on your PATH, and the usual install folders''"

definition missing_browser :: "machine \<Rightarrow> string \<Rightarrow> string" where
  "missing_browser mc setting =
    (if trim setting = [] then ''no browser was found (looked for '' @ looked_for mc @ '')''
     else ''the browser set for this project, `'' @ trim setting @ ''`, is not a file on this machine'')"

definition find_browser :: "machine \<Rightarrow> string \<Rightarrow> string option" where
  "find_browser mc setting =
    (if trim setting \<noteq> [] then (if mc_is_file mc (trim setting) then Some (trim setting) else None)
     else case List.map_filter (mc_which mc) (mc_candidates mc) of
         path # _ \<Rightarrow> Some path
       | [] \<Rightarrow> find (mc_is_file mc) (mc_places mc))"

section \<open>The door\<close>

record site =
  gr_reader :: smoke_reader
  gr_files :: "string \<Rightarrow> folder"
  gr_workspace :: "string \<Rightarrow> workspace_row option"
  gr_hash :: "string \<Rightarrow> string"
  gr_json :: json
  gr_machine :: machine

record queued_test =
  qd_id :: string
  qd_awaiting :: bool

definition test_here :: "site \<Rightarrow> workspace_row \<Rightarrow> string \<Rightarrow> smoke_entry option" where
  "test_here g ws i = smoke_find (gr_reader g) (gr_files g (ws_path ws)) i"

definition unknown_test :: "site \<Rightarrow> workspace_row \<Rightarrow> string \<Rightarrow> string" where
  "unknown_test g ws i =
    (let known = map ke_id (smoke_catalog (gr_reader g) (gr_files g (ws_path ws))) in
     if known = [] then ''There is no smoke test `'' @ i @ ''`: '' @ tests_dir (ws_path ws) @ '' has none.''
     else ''There is no smoke test `'' @ i @ ''`. There are: '' @ join_with '', '' known @ ''.'')"

definition missing_env :: "smoke_test \<Rightarrow> string \<Rightarrow> bench \<Rightarrow> string list" where
  "missing_env t p b = filter (\<lambda>n. n \<notin> set (map fst (project_test_env p b))) (env_names t)"

definition missing_env_text :: "string \<Rightarrow> string list \<Rightarrow> string" where
  "missing_env_text i missing =
    ''`'' @ i @ ''` uses '' @ join_with '', '' (map (\<lambda>n. ''`{{ env.'' @ n @ '' }}`'') missing) @ '', which ''
      @ (if length missing = 1 then ''is'' else ''are'') @ '' not set in the project's test environment. Set ''
      @ (if length missing = 1 then ''it'' else ''them'') @ '' in Yardsort, under the project's smoke test settings.''"

text \<open>Why a run would wait for a person.\<close>

definition person_needed :: "smoke_test \<Rightarrow> string \<Rightarrow> bool \<Rightarrow> bool \<Rightarrow> string option" where
  "person_needed t workspace ask_every_time approved =
    (case manual_step t of
       Some step \<Rightarrow> Some (''The smoke test `'' @ sm_id t @ ''` has a step a person does (`'' @ ks_id step
         @ ''`), and nobody is there to answer it.'')
     | None \<Rightarrow>
         if ask_every_time
         then Some (''This project asks before every run of a smoke test, and nobody is there to say yes to `''
           @ sm_id t @ ''`.'')
         else if \<not> approved
         then Some (''The smoke test `'' @ sm_id t @ ''` is new, or has changed since you approved it. Run it once in `''
           @ workspace @ ''` to approve it.'')
         else None)"

definition approved_here :: "site \<Rightarrow> workspace_row \<Rightarrow> smoke_entry \<Rightarrow> bench \<Rightarrow> bool" where
  "approved_here g ws e b \<longleftrightarrow> test_approved (ws_project_id ws) (ke_id e) (gr_hash g (ke_text e)) b"

definition waits_for_a_person :: "site \<Rightarrow> workspace_row \<Rightarrow> string \<Rightarrow> bench \<Rightarrow> string option" where
  "waits_for_a_person g ws i b =
    (case test_here g ws i of
       None \<Rightarrow> None
     | Some e \<Rightarrow>
         (case (if smoke_runnable e then ke_test e else None) of
            None \<Rightarrow> None
          | Some t \<Rightarrow> person_needed t (ws_name ws)
              (te_ask_every_time (project_test_settings (ws_project_id ws) b)) (approved_here g ws e b)))"

definition browser_step :: "smoke_test \<Rightarrow> smoke_step option" where
  "browser_step t = find (\<lambda>s. is_browser (ks_action s)) (map snd (all_steps t))"

text \<open>A workspace that is there and not archived.\<close>

definition open_workspace :: "site \<Rightarrow> string \<Rightarrow> ipc_error + workspace_row" where
  "open_workspace g i =
    (case (case gr_workspace g i of Some w \<Rightarrow> if ws_forgotten w then None else Some w | None \<Rightarrow> None) of
       None \<Rightarrow> Inl (IpcError ''workspace_not_found'' ''That workspace is not there.'')
     | Some w \<Rightarrow>
         if ws_archived w
         then Inl (IpcError ''workspace_archived'' (''`'' @ ws_name w
           @ ''` is archived. Restore it before running a smoke test in it.''))
         else Inr w)"

definition ready_test :: "site \<Rightarrow> workspace_row \<Rightarrow> string \<Rightarrow> bench \<Rightarrow> ipc_error + smoke_entry \<times> smoke_test" where
  "ready_test g ws i b =
    (case test_here g ws i of
       None \<Rightarrow> Inl (IpcError ''test_not_found'' (unknown_test g ws i))
     | Some e \<Rightarrow>
         (case (if smoke_runnable e then ke_test e else None) of
            None \<Rightarrow> Inl (IpcError ''test_invalid'' (''`'' @ ke_id e @ ''` has problems and cannot run. `ys test show ''
              @ ke_id e @ ''` lists them.''))
          | Some t \<Rightarrow>
              let setting = te_browser (project_test_settings (ws_project_id ws) b) in
              (case (browser_step t, find_browser (gr_machine g) setting) of
                 (Some step, None) \<Rightarrow> Inl (IpcError ''test_needs_browser'' (''`'' @ ke_id e @ ''` has a `browser` step (`''
                   @ ks_id step @ ''`), and '' @ missing_browser (gr_machine g) setting
                   @ ''. Name one under the project's smoke test settings.''))
               | _ \<Rightarrow> Inr (e, t))))"

text \<open>What is written for a run: everything is checked before.\<close>

definition test_to_queue :: "site \<Rightarrow> string \<Rightarrow> test_request \<Rightarrow> workspace_row \<Rightarrow> smoke_entry \<Rightarrow> smoke_test \<Rightarrow> inputs \<Rightarrow>
    bool \<Rightarrow> new_test_run" where
  "test_to_queue g fresh rq ws e t ins approved =
    \<lparr>nt_id = fresh, nt_project = ws_project_id ws, nt_workspace = ws_id ws, nt_workspace_name = ws_name ws,
      nt_test = ke_id e, nt_test_name = sm_name t, nt_definition = ke_text e, nt_hash = gr_hash g (ke_text e),
      nt_inputs = to_json (gr_json g) ins, nt_status = (if approved then ''queued'' else ''awaiting_approval''),
      nt_requested_by = tq_requested_by rq, nt_session = tq_session_record rq,
      nt_steps = map (\<lambda>(ph, s). (ks_id s, phase_name ph, smoke_action_name (ks_action s))) (all_steps t)\<rparr>"

text \<open>Approved, and the project does not ask to see every run: it goes straight to the queue.\<close>

definition goes_straight :: "site \<Rightarrow> workspace_row \<Rightarrow> smoke_entry \<Rightarrow> bench \<Rightarrow> bool" where
  "goes_straight g ws e b \<longleftrightarrow>
    approved_here g ws e b \<and> \<not> te_ask_every_time (project_test_settings (ws_project_id ws) b)"

text \<open>What the answer of the tables means to whoever asked.\<close>

fun test_answer :: "workspace_row \<Rightarrow> smoke_entry \<Rightarrow> string \<Rightarrow> bool \<Rightarrow> store_error + test_queued \<Rightarrow> ipc_error + queued_test" where
  "test_answer ws e fresh approved (Inl (Sqlite why)) = Inl (IpcError ''database'' (''database error: '' @ why))"
| "test_answer ws e fresh approved (Inl _) = Inl (IpcError ''database'' [])"
| "test_answer ws e fresh approved (Inr TestQueued) = Inr \<lparr>qd_id = fresh, qd_awaiting = \<not> approved\<rparr>"
| "test_answer ws e fresh approved (Inr (TestAlreadyRunning other)) =
    Inl (IpcError ''test_already_running'' (''`'' @ ke_id e @ ''` is already going in `'' @ ws_name ws
      @ ''` (run '' @ short_id other @ ''). Wait for it, or cancel it.''))"

definition queue_test :: "site \<Rightarrow> string \<Rightarrow> int \<Rightarrow> test_request \<Rightarrow> bench \<Rightarrow> (ipc_error + queued_test) \<times> bench" where
  "queue_test g fresh now rq b =
    (case open_workspace g (tq_workspace rq) of
       Inl err \<Rightarrow> (Inl err, b)
     | Inr ws \<Rightarrow>
     case ready_test g ws (tq_test rq) b of
       Inl err \<Rightarrow> (Inl err, b)
     | Inr (e, t) \<Rightarrow>
     case smoke_check_inputs t (tq_inputs rq) of
       Inl why \<Rightarrow> (Inl (IpcError ''test_inputs'' why), b)
     | Inr ins \<Rightarrow>
         let missing = missing_env t (ws_project_id ws) b; approved = goes_straight g ws e b in
         if missing \<noteq> [] then (Inl (IpcError ''test_env_missing'' (missing_env_text (ke_id e) missing)), b)
         else case (if tq_unattended rq
             then person_needed t (ws_name ws) (te_ask_every_time (project_test_settings (ws_project_id ws) b)) approved
             else None) of
           Some why \<Rightarrow> (Inl (IpcError ''test_needs_person'' why), b)
         | None \<Rightarrow>
             (case queue_test_run (test_to_queue g fresh rq ws e t ins approved) now b of
                (res, b') \<Rightarrow> (test_answer ws e fresh approved res, b')))"

text \<open>The Run dialog: seeing the steps and pressing Run approves the file the dialog showed, and no other.\<close>

definition queue_seen :: "site \<Rightarrow> string \<Rightarrow> int \<Rightarrow> test_request \<Rightarrow> string \<Rightarrow> bench \<Rightarrow> (ipc_error + queued_test) \<times> bench" where
  "queue_seen g fresh now rq shown b =
    (case queue_test g fresh now rq b of
       (Inl err, b') \<Rightarrow> (Inl err, b')
     | (Inr q, b') \<Rightarrow>
         if qd_awaiting q \<and> (case find_test_run (qd_id q) b' of Some row \<Rightarrow> tn_hash row = shown | None \<Rightarrow> False)
         then (Inr \<lparr>qd_id = qd_id q, qd_awaiting = False\<rparr>, snd (approve_test_run (qd_id q) now b'))
         else (Inr q, b'))"

definition approve_seen :: "site \<Rightarrow> string \<Rightarrow> string \<Rightarrow> string \<Rightarrow> int \<Rightarrow> bench \<Rightarrow> (store_error + bool) \<times> bench" where
  "approve_seen g w i shown now b =
    (case (case gr_workspace g w of Some ws \<Rightarrow> if ws_forgotten ws then None else Some ws | None \<Rightarrow> None) of
       None \<Rightarrow> (Inr False, b)
     | Some ws \<Rightarrow>
         (case test_here g ws i of
            None \<Rightarrow> (Inr False, b)
          | Some e \<Rightarrow>
              if smoke_runnable e \<and> gr_hash g (ke_text e) = shown
              then (case approve_test (ws_project_id ws) (ke_id e) shown now b of
                  (Inl err, b') \<Rightarrow> (Inl err, b') | (Inr _, b') \<Rightarrow> (Inr True, b'))
              else (Inr False, b)))"

section \<open>What the door lets through\<close>

lemma open_workspace_ok:
  "open_workspace g i = Inr ws \<Longrightarrow> gr_workspace g i = Some ws \<and> \<not> ws_forgotten ws \<and> \<not> ws_archived ws"
  by (auto simp: open_workspace_def split: option.splits if_splits)

lemma ready_test_ok:
  "ready_test g ws i b = Inr (e, t) \<Longrightarrow> test_here g ws i = Some e \<and> smoke_runnable e \<and> ke_test e = Some t
    \<and> (browser_step t \<noteq> None \<longrightarrow> find_browser (gr_machine g) (te_browser (project_test_settings (ws_project_id ws) b)) \<noteq> None)"
  by (auto simp: ready_test_def Let_def split: option.splits if_splits)

lemma smoke_collect_ok:
  "smoke_collect given is got missing = Inr (got', missing') \<Longrightarrow> missing' = [] \<Longrightarrow>
    missing = [] \<and> dom got \<subseteq> dom got' \<and> (\<forall>i\<in>set is. ki_required i \<longrightarrow> got' (ki_id i) \<noteq> None)"
proof (induction "is" arbitrary: got missing)
  case (Cons i "is")
  show ?case
  proof (cases "smoke_input_value given i")
    case None
    let ?missing = "if ki_required i then missing @ [''`'' @ ki_id i @ ''` ('' @ ki_label i @ '')''] else missing"
    have "smoke_collect given is got ?missing = Inr (got', missing')" using Cons.prems(1) None by simp
    from Cons.IH [OF this Cons.prems(2)] show ?thesis by (auto split: if_splits)
  next
    case (Some v)
    then have "smoke_collect given is (got(ki_id i \<mapsto> v)) missing = Inr (got', missing')"
      using Cons.prems(1) by (auto split: if_splits)
    from Cons.IH [OF this Cons.prems(2)]
    have rest: "missing = []" "dom (got(ki_id i \<mapsto> v)) \<subseteq> dom got'" "\<forall>i\<in>set is. ki_required i \<longrightarrow> got' (ki_id i) \<noteq> None"
      by blast+
    from rest(2) have here: "insert (ki_id i) (dom got) \<subseteq> dom got'"
      by (simp only: dom_fun_upd option.distinct if_False)
    then have "got' (ki_id i) \<noteq> None" by auto
    then show ?thesis using rest(1,3) here by auto
  qed
qed simp

lemma smoke_check_inputs_ok:
  assumes "smoke_check_inputs t given = Inr ins"
  shows "\<forall>i\<in>set (sm_inputs t). ki_required i \<longrightarrow> ins (ki_id i) \<noteq> None"
proof -
  have "smoke_collect given (sm_inputs t) Map.empty [] = Inr (ins, [])"
    using assms by (auto simp: smoke_check_inputs_def split: option.splits sum.splits prod.splits if_splits)
  from smoke_collect_ok [OF this refl] show ?thesis by blast
qed

lemma person_needed_None: "person_needed t w ask ok = None \<longleftrightarrow> manual_step t = None \<and> \<not> ask \<and> ok"
  by (auto simp: person_needed_def split: option.splits if_splits)

lemma queued_test_row:
  assumes "queue_test_run n now b = (Inr TestQueued, b')"
  shows "bn_runs b' = bn_runs b @ [new_test_row n now] \<and> find_test_run (nt_id n) b' = Some (new_test_row n now)"
proof -
  have runs: "bn_runs b' = bn_runs b @ [new_test_row n now]" and fresh: "list_all (\<lambda>r. tn_id r \<noteq> nt_id n) (bn_runs b)"
    using assms by (auto simp: queue_test_run_def test_run_accepted_def split: option.splits if_splits)
  have "find (\<lambda>r. tn_id r = nt_id n) (bn_runs b) = None" using fresh by (simp add: find_None_iff list_all_iff)
  moreover have "tn_id (new_test_row n now) = nt_id n" by (simp add: new_test_row_def)
  ultimately show ?thesis by (simp add: find_test_run_def runs find_snoc)
qed

lemma test_answer_Inr:
  "test_answer ws e fresh approved res = Inr q \<longleftrightarrow> res = Inr TestQueued \<and> q = \<lparr>qd_id = fresh, qd_awaiting = \<not> approved\<rparr>"
  by (cases "(ws, e, fresh, approved, res)" rule: test_answer.cases) auto

lemma queue_test_run_refused:
  "queue_test_run n now b = (res, b') \<Longrightarrow> res \<noteq> Inr TestQueued \<Longrightarrow> b' = b"
  by (auto simp: queue_test_run_def split: option.splits if_splits)

text \<open>Either nothing was written, or a run was queued that was ready.\<close>

lemma queue_test_cases:
  assumes "queue_test g fresh now rq b = (res, b')"
  obtains (refused) err where "res = Inl err" "b' = b"
  | (queued) ws e t ins where
    "gr_workspace g (tq_workspace rq) = Some ws" "\<not> ws_forgotten ws" "\<not> ws_archived ws"
    "test_here g ws (tq_test rq) = Some e" "smoke_runnable e" "ke_test e = Some t"
    "browser_step t \<noteq> None \<longrightarrow> find_browser (gr_machine g) (te_browser (project_test_settings (ws_project_id ws) b)) \<noteq> None"
    "smoke_check_inputs t (tq_inputs rq) = Inr ins" "missing_env t (ws_project_id ws) b = []"
    "tq_unattended rq \<longrightarrow> manual_step t = None \<and> goes_straight g ws e b"
    "queue_test_run (test_to_queue g fresh rq ws e t ins (goes_straight g ws e b)) now b = (Inr TestQueued, b')"
    "res = Inr \<lparr>qd_id = fresh, qd_awaiting = \<not> goes_straight g ws e b\<rparr>"
proof (cases "open_workspace g (tq_workspace rq)")
  case (Inl err)
  then show ?thesis using assms by (intro refused [of err]) (simp_all add: queue_test_def)
next
  case (Inr ws)
  note ws = Inr
  show ?thesis
  proof (cases "ready_test g ws (tq_test rq) b")
    case (Inl err)
    then show ?thesis using assms by (intro refused [of err]) (simp_all add: queue_test_def ws)
  next
    case (Inr et)
    obtain e t where et: "ready_test g ws (tq_test rq) b = Inr (e, t)" using Inr by (cases et) auto
    show ?thesis
    proof (cases "smoke_check_inputs t (tq_inputs rq)")
      case (Inl why)
      then show ?thesis using assms by (intro refused [of "IpcError ''test_inputs'' why"]) (simp_all add: queue_test_def ws et)
    next
      case (Inr ins)
      let ?person = "if tq_unattended rq then person_needed t (ws_name ws)
        (te_ask_every_time (project_test_settings (ws_project_id ws) b)) (goes_straight g ws e b) else None"
      show ?thesis
      proof (cases "missing_env t (ws_project_id ws) b = [] \<and> ?person = None")
        case False
        then have "b' = b \<and> isl res"
          using assms by (auto simp: queue_test_def ws et Inr Let_def split: option.splits if_splits)
        then show ?thesis using refused by (auto simp: isl_def)
      next
        case True
        obtain res' where run: "queue_test_run (test_to_queue g fresh rq ws e t ins (goes_straight g ws e b)) now b = (res', b')"
          and res: "res = test_answer ws e fresh (goes_straight g ws e b) res'"
          using assms True by (auto simp: queue_test_def ws et Inr Let_def split: prod.splits)
        show ?thesis
        proof (cases res)
          case (Inl err)
          then have "res' \<noteq> Inr TestQueued" using res by auto
          then show ?thesis using refused Inl queue_test_run_refused [OF run] by blast
        next
          case Q: (Inr q)
          then have q: "res' = Inr TestQueued" "q = \<lparr>qd_id = fresh, qd_awaiting = \<not> goes_straight g ws e b\<rparr>"
            using res unfolding Q by (metis test_answer_Inr)+
          have "tq_unattended rq \<longrightarrow> manual_step t = None \<and> goes_straight g ws e b"
            using True by (auto simp: person_needed_None)
          then show ?thesis
            using queued [of ws e t ins] open_workspace_ok [OF ws] ready_test_ok [OF et] Inr True run q Q by simp
        qed
      qed
    qed
  qed
qed

lemma queue_test_id: "queue_test g fresh now rq b = (Inr qd, b') \<Longrightarrow> qd_id qd = fresh"
  by (erule queue_test_cases) auto

section \<open>Approvals\<close>

lemma approved_add:
  "set (bn_approvals (add_approval p i h now b)) \<subseteq> insert \<lparr>ap_project = p, ap_test = i, ap_hash = h, ap_at = now\<rparr> (set (bn_approvals b))"
  by (auto simp: add_approval_def)

lemma approvals_end_interrupted: "bn_approvals (fold (end_interrupted why now) rs b) = bn_approvals b"
  by (induction rs arbitrary: b) (simp_all add: end_interrupted_def)

lemma approvals_move: "bn_approvals (snd (move_test_step i step froms c now b)) = bn_approvals b"
  by (simp add: move_test_step_def)

lemma approvals_queue: "bn_approvals (snd (queue_test_run n now b)) = bn_approvals b"
  by (simp add: queue_test_run_def split: option.splits)

lemma approvals_cancel: "bn_approvals (snd (cancel_test_run i reason now b)) = bn_approvals b"
proof -
  let ?u = "update_test_run i (\<lambda>r. tn_status r = ''awaiting_approval'' \<or> tn_status r = ''queued'')
    (\<lambda>r. r\<lparr>tn_status := ''cancelled'', tn_error := Some reason, tn_ended := Some now\<rparr>) b"
  have u: "bn_approvals (snd ?u) = bn_approvals b" by simp
  show ?thesis
  proof (cases ?u)
    case (Pair ended b')
    then have "bn_approvals b' = bn_approvals b" using u by simp
    then show ?thesis using Pair by (cases ended) (simp_all add: cancel_test_run_def)
  qed
qed

lemma approvals_finish: "bn_approvals (snd (finish_test_run i status why now b)) = bn_approvals b"
proof -
  let ?u = "update_test_run i (\<lambda>r. tn_status r = ''running'') (\<lambda>r. r\<lparr>tn_status := status, tn_error := why, tn_ended := Some now\<rparr>) b"
  have u: "bn_approvals (snd ?u) = bn_approvals b" by simp
  show ?thesis using u by (cases ?u) (simp add: finish_test_run_def)
qed

lemma approvals_refuse: "bn_approvals (snd (refuse_test_run i now b)) = bn_approvals b"
proof -
  let ?u = "update_test_run i (\<lambda>r. tn_status r = ''awaiting_approval'') (\<lambda>r. r\<lparr>tn_status := ''refused'', tn_ended := Some now\<rparr>) b"
  have u: "bn_approvals (snd ?u) = bn_approvals b" by simp
  show ?thesis using u by (cases ?u) (simp add: refuse_test_run_def)
qed

text \<open>What the user approves outright aside, nothing adds to the approvals.\<close>

definition approves :: "bench_op \<Rightarrow> bool" where
  "approves op \<longleftrightarrow> (case op of ApproveTest _ _ _ _ \<Rightarrow> True | ApproveRun _ _ \<Rightarrow> True | _ \<Rightarrow> False)"

lemma approvals_step: "\<not> approves op \<Longrightarrow> set (bn_approvals (bench_step js op b)) \<subseteq> set (bn_approvals b)"
  by (cases op) (simp_all add: approves_def approvals_queue start_test_run_def approvals_move approvals_finish
      approvals_cancel end_interrupted_test_runs_def approvals_end_interrupted answer_test_step_def prune_test_runs_def
      approvals_refuse set_project_test_env_def set_project_test_settings_def bench_without_workspace_def
      bench_without_project_def Let_def)

lemma approvals_approve_run:
  "set (bn_approvals (snd (approve_test_run i now b))) \<subseteq> set (bn_approvals b) \<union>
    {a. \<exists>r\<in>set (bn_runs b). tn_id r = i \<and> ap_test a = tn_test r \<and> ap_hash a = tn_hash r}"
proof (cases "find (\<lambda>r. tn_id r = i \<and> tn_status r = ''awaiting_approval'') (bn_runs b)")
  case None
  then show ?thesis by (simp add: approve_test_run_def)
next
  case (Some run)
  then have run: "run \<in> set (bn_runs b)" "tn_id run = i" by (auto simp: find_Some_iff)
  have "set (bn_approvals (snd (approve_test_run i now b))) \<subseteq> set (bn_approvals b) \<union>
    {a. ap_test a = tn_test run \<and> ap_hash a = tn_hash run}"
    using Some approved_add by (fastforce simp: approve_test_run_def Let_def split: option.splits)
  then show ?thesis using run by blast
qed

section \<open>Nothing runs unseen\<close>

text \<open>Who does what: an agent or the user asks for a run (\<open>AskTest\<close>), presses Run under the steps of a file
  with this hash (\<open>RunShown\<close>), saves a schedule under them (\<open>ScheduleShown\<close>), or anything else happens to
  the tables.  The files may be edited in between: each step has the worktrees as they are then.  A
  state is the tables and what the user has been shown, a test and the hash of its file; the approval
  card of a run that waits shows the file as the run has it.\<close>

datatype desk_op =
    AskTest string test_request
  | RunShown string test_request string
  | ScheduleShown string string string
  | Elsewhere bench_op

type_synonym desk = "bench \<times> (string \<times> string) list"

fun desk_step :: "site \<times> int \<Rightarrow> desk_op \<Rightarrow> desk \<Rightarrow> desk" where
  "desk_step (g, now) (AskTest fresh rq) (b, shown) = (snd (queue_test g fresh now rq b), shown)"
| "desk_step (g, now) (RunShown fresh rq h) (b, shown) =
    (snd (queue_seen g fresh now rq h b), (tq_test rq, h) # shown)"
| "desk_step (g, now) (ScheduleShown w i h) (b, shown) = (snd (approve_seen g w i h now b), (i, h) # shown)"
| "desk_step (g, now) (Elsewhere op) (b, shown) =
    (bench_step (gr_json g) op b,
     (case op of
        ApproveRun i _ \<Rightarrow> map (\<lambda>r. (tn_test r, tn_hash r)) (filter (\<lambda>r. tn_id r = i) (bn_runs b)) @ shown
      | _ \<Rightarrow> shown))"

text \<open>Runs are queued, and files approved with no run, only through the doors; every one hashes alike.\<close>

definition by_the_door :: "(string \<Rightarrow> string) \<Rightarrow> (site \<times> int) \<times> desk_op \<Rightarrow> bool" where
  "by_the_door hash s \<longleftrightarrow> gr_hash (fst (fst s)) = hash
    \<and> (case snd s of Elsewhere (QueueTest _ _) \<Rightarrow> False | Elsewhere (ApproveTest _ _ _ _) \<Rightarrow> False | _ \<Rightarrow> True)"

definition run_seen :: "(string \<Rightarrow> string) \<Rightarrow> (string \<times> string) list \<Rightarrow> test_run_row \<Rightarrow> bool" where
  "run_seen hash shown r \<longleftrightarrow> tn_hash r = hash (tn_definition r) \<and> (cleared r \<longrightarrow> (tn_test r, tn_hash r) \<in> set shown)"

definition all_seen :: "(string \<Rightarrow> string) \<Rightarrow> desk \<Rightarrow> bool" where
  "all_seen hash d \<longleftrightarrow>
    (\<forall>a\<in>set (bn_approvals (fst d)). (ap_test a, ap_hash a) \<in> set (snd d))
    \<and> (\<forall>r\<in>set (bn_runs (fst d)). run_seen hash (snd d) r)"

lemma all_seen_more: "all_seen hash (b, shown) \<Longrightarrow> set shown \<subseteq> set shown' \<Longrightarrow> all_seen hash (b, shown')"
  by (auto simp: all_seen_def run_seen_def)

lemma all_seen_keep:
  assumes "all_seen hash (b, shown)" and "runs_keep b b'" and "set (bn_approvals b') \<subseteq> set (bn_approvals b)"
  shows "all_seen hash (b', shown)"
proof -
  obtain f where f: "\<forall>r. test_keeps r (f r)" "bn_runs b' = map f (bn_runs b)"
    using assms(2) by (auto simp: runs_changed_def)
  have "run_seen hash shown (f r)" if "r \<in> set (bn_runs b)" for r
  proof -
    have "test_keeps r (f r)" using f(1) by blast
    then show ?thesis using assms(1) that by (auto simp: all_seen_def run_seen_def test_keeps_def test_moves_def)
  qed
  then show ?thesis using assms(1,3) f(2) by (auto simp: all_seen_def)
qed

lemma all_seen_queue:
  assumes "all_seen (gr_hash g) (b, shown)"
  shows "all_seen (gr_hash g) (snd (queue_test g fresh now rq b), shown)"
proof -
  obtain res b' where q: "queue_test g fresh now rq b = (res, b')" by fastforce
  from q show ?thesis
  proof (cases rule: queue_test_cases)
    case (refused err)
    then show ?thesis using assms q by simp
  next
    case (queued ws e t ins)
    let ?n = "test_to_queue g fresh rq ws e t ins (goes_straight g ws e b)"
    have runs: "bn_runs b' = bn_runs b @ [new_test_row ?n now]" and ap: "bn_approvals b' = bn_approvals b"
      using queued(11) by (auto simp: queue_test_run_def split: option.splits if_splits)
    have "(ke_id e, gr_hash g (ke_text e)) \<in> set shown" if "goes_straight g ws e b"
      using that assms by (auto simp: goes_straight_def approved_here_def test_approved_def list_ex_iff all_seen_def)
    then show ?thesis using assms q
      by (auto simp: all_seen_def run_seen_def runs ap new_test_row_def test_to_queue_def cleared_def)
  qed
qed

lemma all_seen_approve_run:
  assumes "all_seen hash (b, shown)"
    and "\<And>r. r \<in> set (bn_runs b) \<Longrightarrow> tn_id r = i \<Longrightarrow> (tn_test r, tn_hash r) \<in> set shown"
  shows "all_seen hash (snd (approve_test_run i now b), shown)"
proof -
  obtain f where f: "\<forall>r. test_moves r (f r) \<and> (cleared (f r) \<longrightarrow> cleared r \<or> tn_id r = i)"
      "bn_runs (snd (approve_test_run i now b)) = map f (bn_runs b)"
    using runs_approved [of i b now] by (auto simp: runs_changed_def)
  have "run_seen hash shown (f r)" if "r \<in> set (bn_runs b)" for r
  proof -
    have "test_moves r (f r) \<and> (cleared (f r) \<longrightarrow> cleared r \<or> tn_id r = i)" using f(1) by blast
    then show ?thesis using assms that by (auto simp: all_seen_def run_seen_def test_moves_def)
  qed
  moreover have "(ap_test a, ap_hash a) \<in> set shown" if "a \<in> set (bn_approvals (snd (approve_test_run i now b)))" for a
    using subsetD [OF approvals_approve_run that] assms by (auto simp: all_seen_def)
  ultimately show ?thesis using f(2) by (auto simp: all_seen_def)
qed

lemma all_seen_step:
  assumes "all_seen hash (b, shown)" and "by_the_door hash ((g, now), op)"
  shows "all_seen hash (desk_step (g, now) op (b, shown))"
proof -
  have hash: "gr_hash g = hash" using assms(2) by (simp add: by_the_door_def)
  show ?thesis
  proof (cases op)
    case (AskTest fresh rq)
    then show ?thesis using all_seen_queue [of g b shown] assms(1) hash by simp
  next
    case (RunShown fresh rq h)
    let ?shown = "(tq_test rq, h) # shown"
    obtain res b' where q: "queue_test g fresh now rq b = (res, b')" by fastforce
    have more: "all_seen hash (b', ?shown)"
      using all_seen_more [OF all_seen_queue [of g b shown fresh now rq], of ?shown] assms(1) hash q by auto
    have "all_seen hash (snd (queue_seen g fresh now rq h b), ?shown)"
    proof (cases "snd (queue_seen g fresh now rq h b) = b'")
      case False
      then obtain qd where res: "res = Inr qd"
        and found: "case find_test_run (qd_id qd) b' of Some row \<Rightarrow> tn_hash row = h | None \<Rightarrow> False"
        and queue: "snd (queue_seen g fresh now rq h b) = snd (approve_test_run (qd_id qd) now b')"
        by (cases res) (auto simp: queue_seen_def q split: if_splits)
      have id: "qd_id qd = fresh" using queue_test_id [of g fresh now rq b qd b'] q res by simp
      obtain row where row: "find_test_run fresh b' = Some row" "tn_hash row = h"
        using found id by (cases "find_test_run fresh b'") auto
      from q show ?thesis
      proof (cases rule: queue_test_cases)
        case (queued ws e t ins)
        let ?n = "test_to_queue g fresh rq ws e t ins (goes_straight g ws e b)"
        have runs: "bn_runs b' = bn_runs b @ [new_test_row ?n now]" and fresh: "list_all (\<lambda>r. tn_id r \<noteq> fresh) (bn_runs b)"
          using queued(11) by (auto simp: queue_test_run_def test_run_accepted_def test_to_queue_def split: option.splits if_splits)
        have "find (\<lambda>r. tn_id r = fresh) (bn_runs b) = None" using fresh by (simp add: find_None_iff list_all_iff)
        then have "row = new_test_row ?n now"
          using row(1) by (auto simp: find_test_run_def runs find_snoc split: if_splits)
        moreover have "ke_id e = tq_test rq" using queued(4) by (auto simp: test_here_def intro: runnable_id)
        ultimately have new: "tn_test (new_test_row ?n now) = tq_test rq" "tn_hash (new_test_row ?n now) = h"
          using row(2) by (simp_all add: new_test_row_def test_to_queue_def)
        have "(tn_test r, tn_hash r) \<in> set ?shown" if r: "r \<in> set (bn_runs b')" "tn_id r = fresh" for r
        proof -
          have "r \<notin> set (bn_runs b)" using fresh r(2) by (auto simp: list_all_iff)
          then have "r = new_test_row ?n now" using r(1) by (simp add: runs)
          then show ?thesis by (simp only: new list.set insert_iff simp_thms)
        qed
        from all_seen_approve_run [OF more this] show ?thesis by (simp add: queue id)
      qed (simp add: res)
    qed (simp add: more)
    then show ?thesis using RunShown by simp
  next
    case (ScheduleShown w i h)
    have "set (bn_approvals (snd (approve_seen g w i h now b))) \<subseteq> set (bn_approvals b) \<union> {a. ap_test a = i \<and> ap_hash a = h}
        \<and> bn_runs (snd (approve_seen g w i h now b)) = bn_runs b"
      using approved_add
      by (fastforce simp: approve_seen_def approve_test_def add_approval_def test_here_def
          dest: runnable_id split: option.splits if_splits prod.splits sum.splits)
    then show ?thesis using assms(1) ScheduleShown by (auto simp: all_seen_def run_seen_def)
  next
    case (Elsewhere bop)
    show ?thesis
    proof (cases "case bop of QueueTest _ _ \<Rightarrow> False | PruneTests _ _ \<Rightarrow> False | ApproveRun _ _ \<Rightarrow> False | _ \<Rightarrow> True")
      case True
      then have "\<not> approves bop" using assms(2) Elsewhere by (cases bop) (simp_all add: by_the_door_def approves_def)
      from all_seen_keep [OF assms(1) bench_step_keeps [OF True] approvals_step [OF this]]
      have "all_seen hash (bench_step (gr_json g) bop b, shown)" .
      moreover have "desk_step (g, now) op (b, shown) = (bench_step (gr_json g) bop b, shown)"
        using True Elsewhere by (cases bop) simp_all
      ultimately show ?thesis by simp
    next
      case False
      then show ?thesis
      proof (cases bop)
        case (ApproveRun i at)
        let ?shown = "map (\<lambda>r. (tn_test r, tn_hash r)) (filter (\<lambda>r. tn_id r = i) (bn_runs b)) @ shown"
        have "all_seen hash (snd (approve_test_run i at b), ?shown)"
          by (rule all_seen_approve_run [OF all_seen_more [OF assms(1)]]) auto
        then show ?thesis using Elsewhere ApproveRun by simp
      next
        case (PruneTests p before)
        then show ?thesis using assms(1) Elsewhere by (auto simp: all_seen_def prune_test_runs_def Let_def)
      next
        case (QueueTest n at)
        then show ?thesis using assms(2) Elsewhere by (simp add: by_the_door_def)
      qed simp_all
    qed
  qed
qed

lemma all_seen_steps:
  assumes "list_all (by_the_door hash) steps" and "all_seen hash d"
  shows "all_seen hash (fold (\<lambda>(at, op). desk_step at op) steps d)"
  using assms
proof (induction steps arbitrary: d)
  case (Cons s steps)
  obtain g now op where s: "s = ((g, now), op)" by (metis prod.collapse)
  obtain b shown where d: "d = (b, shown)" by fastforce
  have "all_seen hash (desk_step (g, now) op d)"
    using all_seen_step [of hash b shown g now op] Cons.prems by (simp add: s d)
  then show ?case using Cons by (simp add: s)
qed simp

section \<open>Properties\<close>


text \<open>
  C3. Whatever agents edit and ask for, and in whatever order the doors, the runner and the user take
  their turns: a run that is queued, is running or has run is of a file the user was shown, by this
  test's name and with the very text the run carries, or one with its hash.
\<close>

theorem nothing_runs_unseen:
  assumes "list_all (by_the_door hash) steps"
    and "fold (\<lambda>(at, op). desk_step at op) steps (empty_bench ps ws, []) = (b, shown)"
    and "r \<in> set (bn_runs b)" and "cleared r"
  shows "(tn_test r, hash (tn_definition r)) \<in> set shown"
proof -
  have "all_seen hash (empty_bench ps ws, [])" by (simp add: all_seen_def empty_bench_def)
  from all_seen_steps [OF assms(1) this] assms(2-4) show ?thesis
    by (auto simp: all_seen_def run_seen_def)
qed

section \<open>Witness\<close>

definition example_site :: site where
  "example_site = \<lparr>gr_reader = example_smoke_reader,
    gr_files = (\<lambda>_. [\<lparr>uf_path = ''w/.yardsort/tests/up.yaml'', uf_stem = ''up'', uf_read = Inr ''id: up''\<rparr>]),
    gr_workspace = (\<lambda>_. Some \<lparr>ws_id = ''w'', ws_project_id = ''p'', ws_kind = ''worktree'', ws_name = ''w'', ws_path = ''w'',
      ws_branch = None, ws_base_branch = None, ws_archived = False, ws_forgotten = False\<rparr>),
    gr_hash = (\<lambda>s. s), gr_json = \<lparr>js_print = (\<lambda>_. None), js_parse = (\<lambda>_. None)\<rparr>,
    gr_machine = \<lparr>mc_is_file = (\<lambda>_. False), mc_which = (\<lambda>_. None), mc_candidates = [], mc_places = []\<rparr>\<rparr>"

definition example_request :: test_request where
  "example_request = \<lparr>tq_test = ''up'', tq_workspace = ''w'', tq_inputs = [], tq_requested_by = ''app'',
    tq_session_record = None, tq_unattended = False\<rparr>"


theorem nothing_runs_unseen_witness:
  "\<exists>b shown r. fold (\<lambda>(at, op). desk_step at op) [((example_site, 1), RunShown ''r'' example_request ''id: up'')]
      (empty_bench [''p''] [''w''], []) = (b, shown)
    \<and> r \<in> set (bn_runs b) \<and> tn_status r = ''queued'' \<and> (tn_test r, tn_definition r) \<in> set shown"
proof -
  let ?steps = "[((example_site, 1), RunShown ''r'' example_request ''id: up'')]"
  let ?d = "fold (\<lambda>(at, op). desk_step at op) ?steps (empty_bench [''p''] [''w''], [])"
  have "list_ex (\<lambda>r. tn_status r = ''queued'') (bn_runs (fst ?d))" by code_simp
  then obtain r where r: "r \<in> set (bn_runs (fst ?d))" "tn_status r = ''queued''" by (auto simp: list_ex_iff)
  have "list_all (by_the_door (\<lambda>s. s)) ?steps" by (simp add: by_the_door_def example_site_def)
  from nothing_runs_unseen [OF this, of "[''p'']" "[''w'']" "fst ?d" "snd ?d" r] r
  have "(tn_test r, tn_definition r) \<in> set (snd ?d)" by (simp add: cleared_def)
  then show ?thesis using r by (metis prod.collapse)
qed

end
