(* ===== verification/Schedules.thy ===== *)
theory Schedules
  imports Agenda Smoke_Door
begin

text \<open>
  \<open>crates/core/src/schedule/mod.rs\<close>: what a schedule may hold, and where one stands.  A draft is
  checked against everything that can be known before its first time comes, by the rules the doors
  for workflows and smoke tests have.  The files, the calendar and the readers of JSON are the record
  \<open>office\<close>; the tables are an agenda beside the tables of smoke tests (\<open>diary\<close>).  The lemmas show that
  what is saved has a time to come and needs nobody.
\<close>

section \<open>Names\<close>

datatype schedule_target = TargetWorkflow | TargetTest

fun target_str :: "schedule_target \<Rightarrow> string" where
  "target_str TargetWorkflow = ''workflow''"
| "target_str TargetTest = ''test''"

definition target_parse :: "string \<Rightarrow> schedule_target option" where
  "target_parse s = (if s = ''workflow'' then Some TargetWorkflow else if s = ''test'' then Some TargetTest else None)"

fun target_words :: "schedule_target \<Rightarrow> string" where
  "target_words TargetWorkflow = ''workflow''"
| "target_words TargetTest = ''smoke test''"

datatype if_missed = RunOnce | SkipMissed

fun missed_str :: "if_missed \<Rightarrow> string" where
  "missed_str RunOnce = ''run_once''"
| "missed_str SkipMissed = ''skip''"

definition missed_parse :: "string \<Rightarrow> if_missed option" where
  "missed_parse s = (if s = ''run_once'' then Some RunOnce else if s = ''skip'' then Some SkipMissed else None)"

datatype schedule_notify = NotifyFailure | NotifyAlways | NotifyNever

fun notify_str :: "schedule_notify \<Rightarrow> string" where
  "notify_str NotifyFailure = ''failure''"
| "notify_str NotifyAlways = ''always''"
| "notify_str NotifyNever = ''never''"

definition notify_parse :: "string \<Rightarrow> schedule_notify option" where
  "notify_parse s =
    (if s = ''failure'' then Some NotifyFailure else if s = ''always'' then Some NotifyAlways
     else if s = ''never'' then Some NotifyNever else None)"

lemma names_parse [simp]:
  "target_parse (target_str t) = Some t" "missed_parse (missed_str m) = Some m" "notify_parse (notify_str n) = Some n"
  by (cases t; cases m; cases n; simp add: target_parse_def missed_parse_def notify_parse_def)+

section \<open>Drafts\<close>

record diary =
  dy_agenda :: agenda
  dy_bench :: bench

record office =
  of_calendar :: calendar
  of_shelf :: shelf
  of_folder :: folder
  of_look :: look
  of_facts :: facts_json
  of_json :: json
  of_site :: site
  of_read_spec :: "string \<Rightarrow> schedule_spec option"
  of_show_spec :: "schedule_spec \<Rightarrow> string option"
  of_read_inputs :: "string \<Rightarrow> texts option"
  of_show_inputs :: "texts \<Rightarrow> string option"

record draft =
  df_name :: "string option"
  df_target :: schedule_target
  df_target_id :: string
  df_workspace :: string
  df_inputs :: texts
  df_spec :: schedule_spec
  df_missed :: if_missed
  df_notify :: schedule_notify

record checked =
  ck_name :: string
  ck_workspace :: workspace_row
  ck_inputs :: string
  ck_spec :: string
  ck_next :: "int option"

definition spec_json :: "office \<Rightarrow> schedule_spec \<Rightarrow> string" where
  "spec_json k spec = (case of_show_spec k spec of Some s \<Rightarrow> s | None \<Rightarrow> ''{}'')"

definition needs_a_person :: "smoke_test \<Rightarrow> string option" where
  "needs_a_person t =
    (case manual_step t of
       None \<Rightarrow> None
     | Some step \<Rightarrow> Some (''`'' @ sm_id t @ ''` has a step a person does (`'' @ ks_id step
         @ ''`), so it cannot run on a schedule: nobody would be there to answer it.''))"

text \<open>The tests a workflow names outright, with the steps that run them.\<close>

definition named_test :: "flow_step \<Rightarrow> string option" where
  "named_test s = (case st_action s of RunTest test _ _ \<Rightarrow> if has_braces test then None else Some test | _ \<Rightarrow> None)"

definition step_needs_a_person :: "office \<Rightarrow> workspace_row \<Rightarrow> bench \<Rightarrow> flow_step \<Rightarrow> string option" where
  "step_needs_a_person k ws b s =
    (case named_test s of Some test \<Rightarrow> waits_for_a_person (of_site k) ws test b | None \<Rightarrow> None)"

definition workflow_needs_a_person :: "office \<Rightarrow> workspace_row \<Rightarrow> workflow \<Rightarrow> bench \<Rightarrow> string option" where
  "workflow_needs_a_person k ws flow b =
    (case List.map_filter (\<lambda>s. map_option (Pair s) (step_needs_a_person k ws b s)) (wf_steps flow) of
       [] \<Rightarrow> None
     | (s, why) # _ \<Rightarrow> Some (''`'' @ wf_id flow @ ''` cannot run on a schedule: its step `'' @ st_id s
         @ ''` runs a smoke test that would wait for you. '' @ why))"

definition draft_workspace :: "office \<Rightarrow> string \<Rightarrow> ipc_error + workspace_row" where
  "draft_workspace k i =
    (case (case gr_workspace (of_site k) i of Some w \<Rightarrow> if ws_forgotten w then None else Some w | None \<Rightarrow> None) of
       None \<Rightarrow> Inl (IpcError ''workspace_not_found'' ''That workspace is not there.'')
     | Some w \<Rightarrow>
         if ws_archived w
         then Inl (IpcError ''workspace_archived'' (''`'' @ ws_name w
           @ ''` is archived. Restore it before scheduling something in it.''))
         else Inr w)"

text \<open>The name of the workflow a draft starts, or what is wrong with it.\<close>

definition draft_workflow :: "office \<Rightarrow> draft \<Rightarrow> workspace_row \<Rightarrow> bench \<Rightarrow> ipc_error + string" where
  "draft_workflow k d ws b =
    (case catalog_find (of_shelf k) (of_folder k) (df_target_id d) of
       None \<Rightarrow> Inl (IpcError ''workflow_not_found'' (''There is no workflow `'' @ df_target_id d @ ''`.''))
     | Some e \<Rightarrow>
         (case (if runnable e then en_workflow e else None) of
            None \<Rightarrow> Inl (IpcError ''workflow_invalid'' (''`'' @ en_id e @ ''` has problems and cannot run.''))
          | Some flow \<Rightarrow>
              (case check_inputs flow (df_inputs d) (lk_harness (of_look k)) of
                 Inl why \<Rightarrow> Inl (IpcError ''workflow_inputs'' why)
               | Inr _ \<Rightarrow>
                   (case workflow_needs_a_person k ws flow b of
                      Some why \<Rightarrow> Inl (IpcError ''schedule_needs_person'' why)
                    | None \<Rightarrow> Inr (wf_name flow)))))"

definition draft_test :: "office \<Rightarrow> draft \<Rightarrow> workspace_row \<Rightarrow> ipc_error + string" where
  "draft_test k d ws =
    (case test_here (of_site k) ws (df_target_id d) of
       None \<Rightarrow> Inl (IpcError ''test_not_found'' (''There is no smoke test `'' @ df_target_id d @ ''` in `'' @ ws_name ws @ ''`.''))
     | Some e \<Rightarrow>
         (case (if smoke_runnable e then ke_test e else None) of
            None \<Rightarrow> Inl (IpcError ''test_invalid'' (''`'' @ ke_id e @ ''` has problems and cannot run.''))
          | Some t \<Rightarrow>
              (case needs_a_person t of
                 Some why \<Rightarrow> Inl (IpcError ''schedule_needs_person'' why)
               | None \<Rightarrow>
                   (case smoke_check_inputs t (df_inputs d) of
                      Inl why \<Rightarrow> Inl (IpcError ''test_inputs'' why)
                    | Inr _ \<Rightarrow> Inr (sm_name t)))))"

definition draft_name :: "draft \<Rightarrow> string \<Rightarrow> string" where
  "draft_name d target = (case map_option trim (df_name d) of Some n \<Rightarrow> if n \<noteq> [] then n else target | None \<Rightarrow> target)"

definition check_draft :: "office \<Rightarrow> draft \<Rightarrow> int \<Rightarrow> bench \<Rightarrow> ipc_error + checked" where
  "check_draft k d now b =
    (case draft_workspace k (df_workspace d) of
       Inl err \<Rightarrow> Inl err
     | Inr ws \<Rightarrow>
     case (case df_target d of TargetWorkflow \<Rightarrow> draft_workflow k d ws b | TargetTest \<Rightarrow> draft_test k d ws) of
       Inl err \<Rightarrow> Inl err
     | Inr target \<Rightarrow>
     case spec_check (of_calendar k) (df_spec d) now of
       Some why \<Rightarrow> Inl (IpcError ''schedule_when'' why)
     | None \<Rightarrow>
     case next_after (of_calendar k) (df_spec d) now None of
       Inl why \<Rightarrow> Inl (IpcError ''schedule_when'' why)
     | Inr next_at \<Rightarrow>
         Inr \<lparr>ck_name = draft_name d target, ck_workspace = ws,
           ck_inputs = (case of_show_inputs k (df_inputs d) of Some s \<Rightarrow> s | None \<Rightarrow> ''{}''),
           ck_spec = spec_json k (df_spec d), ck_next = map_option millis_of next_at\<rparr>)"

definition draft_fields :: "draft \<Rightarrow> checked \<Rightarrow> schedule_fields" where
  "draft_fields d c =
    \<lparr>sf_name = ck_name c, sf_target_kind = target_str (df_target d), sf_target = df_target_id d,
      sf_project = ws_project_id (ck_workspace c), sf_workspace = ws_id (ck_workspace c),
      sf_workspace_name = ws_name (ck_workspace c), sf_inputs = ck_inputs c, sf_spec = ck_spec c,
      sf_missed = missed_str (df_missed d), sf_notify = notify_str (df_notify d), sf_next = ck_next c\<rparr>"

section \<open>Adding, changing, switching\<close>

fun store_ipc :: "store_error \<Rightarrow> ipc_error" where
  "store_ipc (Sqlite why) = IpcError ''database'' (''database error: '' @ why)"
| "store_ipc _ = IpcError ''database'' []"

definition schedule_not_found :: ipc_error where
  "schedule_not_found = IpcError ''schedule_not_found'' ''That schedule is not there.''"

definition the_schedule :: "string \<Rightarrow> agenda \<Rightarrow> ipc_error + schedule_row" where
  "the_schedule i a = (case find_schedule i a of Some r \<Rightarrow> Inr r | None \<Rightarrow> Inl schedule_not_found)"

definition schedule_add :: "office \<Rightarrow> string \<Rightarrow> draft \<Rightarrow> string \<Rightarrow> int \<Rightarrow> diary \<Rightarrow> (ipc_error + schedule_row) \<times> diary" where
  "schedule_add k fresh d created_by now y =
    (case check_draft k d now (dy_bench y) of
       Inl err \<Rightarrow> (Inl err, y)
     | Inr c \<Rightarrow>
         (case add_schedule fresh (draft_fields d c) created_by (millis_of now) (dy_agenda y) of
            (res, a) \<Rightarrow> (map_sum store_ipc id res, y\<lparr>dy_agenda := a\<rparr>)))"

definition schedule_change :: "office \<Rightarrow> string \<Rightarrow> draft \<Rightarrow> int \<Rightarrow> diary \<Rightarrow> (ipc_error + schedule_row) \<times> diary" where
  "schedule_change k i d now y =
    (case check_draft k d now (dy_bench y) of
       Inl err \<Rightarrow> (Inl err, y)
     | Inr c \<Rightarrow>
         (case update_schedule i (draft_fields d c) (millis_of now) (dy_agenda y) of
            (Inl err, a) \<Rightarrow> (Inl (store_ipc err), y\<lparr>dy_agenda := a\<rparr>)
          | (Inr False, a) \<Rightarrow> (Inl schedule_not_found, y\<lparr>dy_agenda := a\<rparr>)
          | (Inr True, a) \<Rightarrow> (the_schedule i a, y\<lparr>dy_agenda := a\<rparr>)))"

text \<open>The time it is switched on with, worked out from now.\<close>

definition switch_time :: "office \<Rightarrow> schedule_row \<Rightarrow> int \<Rightarrow> ipc_error + int" where
  "switch_time k r now =
    (if sk_workspace r = None
     then Inl (IpcError ''workspace_not_found'' (''`'' @ sk_workspace_name r
       @ ''` was deleted, so this has nowhere to run. Edit it to pick a workspace.''))
     else case of_read_spec k (sk_spec r) of
       None \<Rightarrow> Inl (IpcError ''schedule_when'' ''This Yardsort cannot read when this schedule runs. Edit it to say when.'')
     | Some spec \<Rightarrow>
         (case next_after (of_calendar k) spec now None of
            Inl why \<Rightarrow> Inl (IpcError ''schedule_when'' why)
          | Inr None \<Rightarrow> Inl (IpcError ''schedule_when'' ''Its time has passed. Edit it to give it a new one.'')
          | Inr (Some t) \<Rightarrow> Inr (millis_of t)))"

definition schedule_switch :: "office \<Rightarrow> string \<Rightarrow> bool \<Rightarrow> int \<Rightarrow> agenda \<Rightarrow> (ipc_error + schedule_row) \<times> agenda" where
  "schedule_switch k i enabled now a =
    (case the_schedule i a of
       Inl err \<Rightarrow> (Inl err, a)
     | Inr r \<Rightarrow>
         (case (if enabled then map_sum id Some (switch_time k r now) else Inr None) of
            Inl err \<Rightarrow> (Inl err, a)
          | Inr next_at \<Rightarrow>
              let a' = snd (set_schedule_enabled i enabled next_at (millis_of now) a) in (the_schedule i a', a')))"

section \<open>Where a schedule stands\<close>

datatype schedule_standing =
    StandsWaiting | StandsRunning | StandsAwaitingApproval | StandsRefused | StandsNoWorkspace | StandsOff
  | StandsDone | StandsMissed

definition needs_attention :: "schedule_standing \<Rightarrow> bool" where
  "needs_attention s \<longleftrightarrow> s \<in> {StandsAwaitingApproval, StandsRefused, StandsNoWorkspace}"

text \<open>By the schedule's id, the newest of its runs that go on.\<close>

definition going_runs :: "agenda \<Rightarrow> string \<rightharpoonup> schedule_run_row" where
  "going_runs a = fold (\<lambda>l m. m(sr_schedule l \<mapsto> l)) (unsettled_schedule_runs a) Map.empty"

definition standing :: "schedule_row \<Rightarrow> schedule_run_row option \<Rightarrow> schedule_run_row option \<Rightarrow> schedule_standing" where
  "standing r last_line going =
    (if sk_workspace r = None then StandsNoWorkspace
     else case (case going of Some l \<Rightarrow> if unsettled l then Some l else None | None \<Rightarrow> None) of
       Some l \<Rightarrow> if sr_told_waiting l then StandsAwaitingApproval else StandsRunning
     | None \<Rightarrow>
         if \<not> sk_enabled r
         then (if sk_next r \<noteq> None then StandsOff
           else case map_option sr_outcome last_line of
               Some outcome \<Rightarrow> if outcome = ''missed'' then StandsMissed
                 else if outcome = ''refused'' then StandsRefused else StandsDone
             | None \<Rightarrow> StandsDone)
         else if sk_next r = None then StandsRefused
         else (case last_line of
             Some l \<Rightarrow> if sr_outcome l = ''refused'' then StandsRefused else StandsWaiting
           | None \<Rightarrow> StandsWaiting))"

section \<open>Properties\<close>

lemma map_filter_empty: "List.map_filter f xs = [] \<longleftrightarrow> list_all (\<lambda>x. f x = None) xs"
  by (induction xs) (auto simp: List.map_filter_def split: option.splits)

lemma draft_workspace_ok:
  "draft_workspace k i = Inr ws \<Longrightarrow> gr_workspace (of_site k) i = Some ws \<and> \<not> ws_forgotten ws \<and> \<not> ws_archived ws"
  by (auto simp: draft_workspace_def split: option.splits if_splits)

lemma draft_test_ok:
  "draft_test k d ws = Inr n \<Longrightarrow> \<exists>e t. test_here (of_site k) ws (df_target_id d) = Some e \<and> smoke_runnable e
    \<and> ke_test e = Some t \<and> manual_step t = None"
  by (auto simp: draft_test_def needs_a_person_def split: option.splits if_splits sum.splits)

lemma draft_workflow_ok:
  "draft_workflow k d ws b = Inr n \<Longrightarrow> \<exists>e flow. catalog_find (of_shelf k) (of_folder k) (df_target_id d) = Some e
    \<and> runnable e \<and> en_workflow e = Some flow \<and> list_all (\<lambda>s. step_needs_a_person k ws b s = None) (wf_steps flow)"
  by (auto simp: draft_workflow_def workflow_needs_a_person_def map_filter_empty split: option.splits if_splits sum.splits list.splits)

text \<open>What a draft that passed holds.\<close>

lemma check_draft_ok:
  assumes "cron_moves_on (of_calendar k)" and "check_draft k d now b = Inr c"
  shows "\<exists>n. gr_workspace (of_site k) (df_workspace d) = Some (ck_workspace c) \<and> \<not> ws_forgotten (ck_workspace c)
    \<and> \<not> ws_archived (ck_workspace c) \<and> ck_next c = Some n \<and> millis_of now < n
    \<and> (case df_target d of
         TargetTest \<Rightarrow> \<exists>e t. test_here (of_site k) (ck_workspace c) (df_target_id d) = Some e \<and> smoke_runnable e
           \<and> ke_test e = Some t \<and> manual_step t = None
       | TargetWorkflow \<Rightarrow> \<exists>e flow. catalog_find (of_shelf k) (of_folder k) (df_target_id d) = Some e
           \<and> runnable e \<and> en_workflow e = Some flow
           \<and> list_all (\<lambda>s. step_needs_a_person k (ck_workspace c) b s = None) (wf_steps flow))"
proof -
  obtain ws where ws: "draft_workspace k (df_workspace d) = Inr ws"
    using assms(2) by (auto simp: check_draft_def split: sum.splits)
  obtain target where target: "(case df_target d of TargetWorkflow \<Rightarrow> draft_workflow k d ws b | TargetTest \<Rightarrow> draft_test k d ws) = Inr target"
    using assms(2) ws by (auto simp: check_draft_def split: sum.splits)
  have spec: "spec_check (of_calendar k) (df_spec d) now = None"
    using assms(2) ws target by (auto simp: check_draft_def split: option.splits)
  obtain next_at where next_at: "next_after (of_calendar k) (df_spec d) now None = Inr next_at"
    using assms(2) ws target spec by (auto simp: check_draft_def split: sum.splits)
  have c: "ck_workspace c = ws" "ck_next c = map_option millis_of next_at"
    using assms(2) ws target spec next_at by (auto simp: check_draft_def)
  obtain t where t: "next_at = Some t"
    using spec next_at by (auto simp: spec_check_def split: option.splits)
  then have "millis_of now < millis_of t" using next_after_millis [OF assms(1)] next_at by blast
  moreover have "ck_next c = Some (millis_of t)" using c t by simp
  ultimately show ?thesis
    using draft_workspace_ok [OF ws] target draft_test_ok draft_workflow_ok c
    by (cases "df_target d") auto
qed


section \<open>Witness\<close>

definition example_look :: look where
  "example_look = \<lparr>lk_harness = Inr, lk_pull_request = (\<lambda>_. Inr None)\<rparr>"

definition example_office :: office where
  "example_office = \<lparr>of_calendar = daily_calendar, of_shelf = example_shelf, of_folder = [], of_look = example_look,
    of_facts = \<lparr>fj_parse = (\<lambda>_. None), fj_print = (\<lambda>_. None)\<rparr>, of_json = \<lparr>js_print = (\<lambda>_. None), js_parse = (\<lambda>_. None)\<rparr>,
    of_site = example_site, of_read_spec = (\<lambda>_. Some (Every 60)), of_show_spec = (\<lambda>_. None),
    of_read_inputs = (\<lambda>_. None), of_show_inputs = (\<lambda>_. None)\<rparr>"

definition example_draft :: draft where
  "example_draft = \<lparr>df_name = None, df_target = TargetTest, df_target_id = ''up'', df_workspace = ''w'', df_inputs = [],
    df_spec = Every 60, df_missed = RunOnce, df_notify = NotifyFailure\<rparr>"

definition example_diary :: diary where
  "example_diary = \<lparr>dy_agenda = example_agenda, dy_bench = empty_bench [''p''] [''w'']\<rparr>"


end
