(* ===== verification/Firing.thy ===== *)
theory Firing
  imports Schedules
begin

text \<open>
  \<open>crates/core/src/schedule/fire.rs\<close>: what becomes of a time that has come.  Before each time that is
  taken other processes may have changed everything (\<open>meanwhile\<close>); the ids of new rows and the clock
  of the store are arguments.  The lemmas show that no time fires twice, that a tick leaves nothing
  due, and that the history says what happened.
\<close>

section \<open>Asking for the run\<close>

definition LATE_AFTER_MS :: int where
  "LATE_AFTER_MS = 5 * 60000"

datatype schedule_outcome = FireStarted | FireSkipped | FireMissed | FireRefused

fun outcome_str :: "schedule_outcome \<Rightarrow> string" where
  "outcome_str FireStarted = ''started''"
| "outcome_str FireSkipped = ''skipped''"
| "outcome_str FireMissed = ''missed''"
| "outcome_str FireRefused = ''refused''"

definition outcome_parse :: "string \<Rightarrow> schedule_outcome option" where
  "outcome_parse s =
    (if s = ''started'' then Some FireStarted else if s = ''skipped'' then Some FireSkipped
     else if s = ''missed'' then Some FireMissed else if s = ''refused'' then Some FireRefused else None)"

record notice =
  ny_schedule :: string
  ny_title :: string
  ny_body :: string

record fired =
  fd_schedule :: schedule_row
  fd_run :: schedule_run_row
  fd_notice :: "notice option"

text \<open>A workflow's run: when nobody is there, no smoke test it names may wait for a person.\<close>

definition workflow_waits :: "office \<Rightarrow> schedule_row \<Rightarrow> string \<Rightarrow> bench \<Rightarrow> string option" where
  "workflow_waits k r w b =
    (case (case catalog_find (of_shelf k) (of_folder k) (sk_target r) of Some e \<Rightarrow> en_workflow e | None \<Rightarrow> None,
         gr_workspace (of_site k) w) of
       (Some flow, Some ws) \<Rightarrow> workflow_needs_a_person k ws flow b
     | _ \<Rightarrow> None)"

definition ask_workflow :: "office \<Rightarrow> string \<Rightarrow> int \<Rightarrow> schedule_row \<Rightarrow> string \<Rightarrow> texts \<Rightarrow> bool \<Rightarrow> diary \<Rightarrow>
    (ipc_error + string) \<times> diary" where
  "ask_workflow k fresh clock r w ins attended y =
    (case (if attended then None else workflow_waits k r w (dy_bench y)) of
       Some why \<Rightarrow> (Inl (IpcError ''schedule_needs_person'' why), y)
     | None \<Rightarrow>
         (case ask_run (of_shelf k) (of_folder k) (of_facts k) (of_json k) (gr_workspace (of_site k)) (of_look k)
             fresh clock \<lparr>rq_workflow = sk_target r, rq_workspace = w, rq_inputs = ins, rq_requested_by = ''app'',
               rq_unattended = \<not> attended\<rparr> (ag_tables (dy_agenda y)) of
            (res, t) \<Rightarrow> (res, y\<lparr>dy_agenda := (dy_agenda y)\<lparr>ag_tables := t\<rparr>\<rparr>)))"

text \<open>A smoke test's run: its file may have gained a step a person does.\<close>

definition test_waits :: "office \<Rightarrow> schedule_row \<Rightarrow> string \<Rightarrow> string option" where
  "test_waits k r w =
    (case gr_workspace (of_site k) w of
       None \<Rightarrow> None
     | Some ws \<Rightarrow>
         (case test_here (of_site k) ws (sk_target r) of
            None \<Rightarrow> None
          | Some e \<Rightarrow> (case ke_test e of Some t \<Rightarrow> needs_a_person t | None \<Rightarrow> None)))"

definition ask_test :: "office \<Rightarrow> string \<Rightarrow> int \<Rightarrow> schedule_row \<Rightarrow> string \<Rightarrow> texts \<Rightarrow> diary \<Rightarrow> (ipc_error + string) \<times> diary" where
  "ask_test k fresh clock r w ins y =
    (case test_waits k r w of
       Some why \<Rightarrow> (Inl (IpcError ''schedule_needs_person'' why), y)
     | None \<Rightarrow>
         (case queue_test (of_site k) fresh clock \<lparr>tq_test = sk_target r, tq_workspace = w, tq_inputs = ins,
             tq_requested_by = ''app'', tq_session_record = None, tq_unattended = False\<rparr> (dy_bench y) of
            (res, b) \<Rightarrow> (map_sum id qd_id res, y\<lparr>dy_bench := b\<rparr>)))"

definition ask_for_run :: "office \<Rightarrow> string \<Rightarrow> int \<Rightarrow> schedule_row \<Rightarrow> bool \<Rightarrow> diary \<Rightarrow> (ipc_error + string) \<times> diary" where
  "ask_for_run k fresh clock r attended y =
    (case sk_workspace r of
       None \<Rightarrow> (Inl (IpcError ''workspace_not_found'' (''`'' @ sk_workspace_name r
         @ ''` was deleted, so this has nowhere to run. Edit it to pick a workspace.'')), y)
     | Some w \<Rightarrow>
         let ins = (case of_read_inputs k (sk_inputs r) of Some ins \<Rightarrow> ins | None \<Rightarrow> []) in
         (case target_parse (sk_target_kind r) of
            Some TargetWorkflow \<Rightarrow> ask_workflow k fresh clock r w ins attended y
          | Some TargetTest \<Rightarrow> ask_test k fresh clock r w ins y
          | None \<Rightarrow> (Inl (IpcError ''schedule_target'' (''This Yardsort does not know how to start a `''
              @ sk_target_kind r @ ''`.'')), y)))"

section \<open>A time that has come\<close>

definition next_time :: "office \<Rightarrow> schedule_row \<Rightarrow> int \<Rightarrow> int \<Rightarrow> string + int option" where
  "next_time k r now due =
    (case of_read_spec k (sk_spec r) of
       Some spec \<Rightarrow> map_sum id (map_option millis_of) (next_after (of_calendar k) spec now (Some due))
     | None \<Rightarrow> Inl ''This Yardsort cannot read when this schedule runs.'')"

definition take_time :: "string \<Rightarrow> int \<Rightarrow> string + int option \<Rightarrow> agenda \<Rightarrow> bool \<times> agenda" where
  "take_time i due following a =
    (case following of Inr next_at \<Rightarrow> claim_schedule i due next_at a | Inl _ \<Rightarrow> stall_schedule i due a)"

text \<open>What becomes of a time that was taken: the outcome, the run and what to say.\<close>

definition act_on_time :: "office \<Rightarrow> string \<Rightarrow> int \<Rightarrow> int \<Rightarrow> int \<Rightarrow> schedule_row \<Rightarrow> string + int option \<Rightarrow> diary \<Rightarrow>
    (schedule_outcome \<times> string option \<times> string option) \<times> diary" where
  "act_on_time k fresh clock now_ms due r following y =
    (case following of
       Inl why \<Rightarrow> ((FireRefused, None,
         Some (why @ '' Its next time cannot be worked out, so it fires nothing until you edit it.'')), y)
     | Inr _ \<Rightarrow>
         if LATE_AFTER_MS < now_ms - due \<and> missed_parse (sk_missed r) = Some SkipMissed
         then ((FireMissed, None, None), y)
         else (case ask_for_run k fresh clock r False y of
             (Inr i, y') \<Rightarrow> ((FireStarted, Some i, None), y')
           | (Inl (IpcError code message), y') \<Rightarrow>
               if suffix ''_already_running'' code
               then ((FireSkipped, None, Some ''The previous run was still going.''), y')
               else ((FireRefused, None, Some message),
                 if sk_workspace r = None
                 then y'\<lparr>dy_agenda := snd (set_schedule_enabled (sk_id r) False None clock (dy_agenda y'))\<rparr>
                 else y')))"

text \<open>A refusal is told now, once for as long as it goes on.\<close>

definition refusal_notice :: "schedule_row \<Rightarrow> schedule_outcome \<Rightarrow> string option \<Rightarrow> agenda \<Rightarrow> notice option" where
  "refusal_notice r outcome note a =
    (case note of
       None \<Rightarrow> None
     | Some why \<Rightarrow>
         if outcome = FireRefused \<and> notify_parse (sk_notify r) \<noteq> Some NotifyNever
           \<and> (case schedule_runs (sk_id r) 1 a of newest # _ \<Rightarrow> sr_outcome newest \<noteq> outcome_str FireRefused | [] \<Rightarrow> True)
         then Some \<lparr>ny_schedule = sk_id r, ny_title = sk_name r @ '' could not start'', ny_body = why\<rparr>
         else None)"

definition fire :: "office \<Rightarrow> string \<times> string \<Rightarrow> int \<Rightarrow> int \<Rightarrow> schedule_row \<Rightarrow> diary \<Rightarrow> (store_error + fired option) \<times> diary" where
  "fire k fresh clock now r y =
    (case sk_next r of
       None \<Rightarrow> (Inr None, y)
     | Some due \<Rightarrow>
         let following = next_time k r now due in
         (case take_time (sk_id r) due following (dy_agenda y) of
            (False, a) \<Rightarrow> (Inr None, y\<lparr>dy_agenda := a\<rparr>)
          | (True, a) \<Rightarrow>
              (case act_on_time k (fst fresh) clock (millis_of now) due r following (y\<lparr>dy_agenda := a\<rparr>) of
                 ((outcome, run, note), y') \<Rightarrow>
                   let told = refusal_notice r outcome note (dy_agenda y') in
                   (case record_schedule_run (snd fresh)
                       \<lparr>ns_schedule = sk_id r, ns_due = due, ns_fired = millis_of now, ns_outcome = outcome_str outcome,
                         ns_manual = False, ns_run = run, ns_note = note\<rparr> (dy_agenda y') of
                      (Inl err, a') \<Rightarrow> (Inl err, y'\<lparr>dy_agenda := a'\<rparr>)
                    | (Inr line, a') \<Rightarrow>
                        (Inr (Some \<lparr>fd_schedule = r, fd_run = line, fd_notice = told\<rparr>), y'\<lparr>dy_agenda := a'\<rparr>)))))"

fun fire_each :: "office \<Rightarrow> (nat \<Rightarrow> string \<times> string) \<Rightarrow> int \<Rightarrow> int \<Rightarrow> (nat \<Rightarrow> diary \<Rightarrow> diary) \<Rightarrow> nat \<Rightarrow> schedule_row list \<Rightarrow>
    diary \<Rightarrow> (ipc_error + fired list) \<times> diary" where
  "fire_each k fresh clock now meanwhile n [] y = (Inr [], y)"
| "fire_each k fresh clock now meanwhile n (r # rs) y =
    (case fire k (fresh n) clock now r (meanwhile n y) of
       (Inl err, y') \<Rightarrow> (Inl (store_ipc err), y')
     | (Inr f, y') \<Rightarrow>
         (case fire_each k fresh clock now meanwhile (Suc n) rs y' of
            (Inl err, y'') \<Rightarrow> (Inl err, y'')
          | (Inr fs, y'') \<Rightarrow> (Inr (case f of Some f \<Rightarrow> f # fs | None \<Rightarrow> fs), y'')))"

definition schedules_tick :: "office \<Rightarrow> (nat \<Rightarrow> string \<times> string) \<Rightarrow> int \<Rightarrow> int \<Rightarrow> (nat \<Rightarrow> diary \<Rightarrow> diary) \<Rightarrow> diary \<Rightarrow>
    (ipc_error + fired list) \<times> diary" where
  "schedules_tick k fresh clock now meanwhile y =
    fire_each k fresh clock now meanwhile 0 (due_schedules (millis_of now) (dy_agenda y)) y"

text \<open>Run now: a person asked, the next time stays, and a refusal is theirs to read.\<close>

definition run_now :: "office \<Rightarrow> string \<times> string \<Rightarrow> int \<Rightarrow> string \<Rightarrow> int \<Rightarrow> diary \<Rightarrow> (ipc_error + fired) \<times> diary" where
  "run_now k fresh clock i now_ms y =
    (case the_schedule i (dy_agenda y) of
       Inl err \<Rightarrow> (Inl err, y)
     | Inr r \<Rightarrow>
         (case ask_for_run k (fst fresh) clock r True y of
            (Inl err, y') \<Rightarrow> (Inl err, y')
          | (Inr run, y') \<Rightarrow>
              (case record_schedule_run (snd fresh)
                  \<lparr>ns_schedule = sk_id r, ns_due = now_ms, ns_fired = now_ms, ns_outcome = outcome_str FireStarted,
                    ns_manual = True, ns_run = Some run, ns_note = None\<rparr> (dy_agenda y') of
                 (Inl err, a') \<Rightarrow> (Inl (store_ipc err), y'\<lparr>dy_agenda := a'\<rparr>)
               | (Inr line, a') \<Rightarrow> (Inr \<lparr>fd_schedule = r, fd_run = line, fd_notice = None\<rparr>, y'\<lparr>dy_agenda := a'\<rparr>))))"

section \<open>What asking leaves alone\<close>

lemma queue_workflow_run_places:
  "tb_projects (snd (queue_workflow_run n now t)) = tb_projects t"
  "tb_workspaces (snd (queue_workflow_run n now t)) = tb_workspaces t"
  by (simp_all add: queue_workflow_run_def split: option.splits)

lemma ask_run_places:
  "tb_projects (snd (ask_run sh files fj js workspace lk fresh now rq t)) = tb_projects t"
  using ask_run_tables [of sh files fj js workspace lk fresh now rq t] queue_workflow_run_places by metis

definition same_schedules :: "agenda \<Rightarrow> agenda \<Rightarrow> bool" where
  "same_schedules a a' \<longleftrightarrow> ag_rows a' = ag_rows a \<and> ag_runs a' = ag_runs a \<and> ag_removed a' = ag_removed a
    \<and> tb_projects (ag_tables a') = tb_projects (ag_tables a)"

lemma same_schedules_refl [simp]: "same_schedules a a"
  by (simp add: same_schedules_def)

lemma ask_workflow_same: "same_schedules (dy_agenda y) (dy_agenda (snd (ask_workflow k fresh clock r w ins att y)))"
proof (cases "if att then None else workflow_waits k r w (dy_bench y)")
  case None
  let ?ask = "ask_run (of_shelf k) (of_folder k) (of_facts k) (of_json k) (gr_workspace (of_site k)) (of_look k)
      fresh clock \<lparr>rq_workflow = sk_target r, rq_workspace = w, rq_inputs = ins, rq_requested_by = ''app'', rq_unattended = \<not> att\<rparr>
      (ag_tables (dy_agenda y))"
  have "tb_projects (snd ?ask) = tb_projects (ag_tables (dy_agenda y))" by (rule ask_run_places)
  then show ?thesis using None by (cases ?ask) (simp add: ask_workflow_def same_schedules_def)
qed (simp add: ask_workflow_def)

lemma ask_test_same: "dy_agenda (snd (ask_test k fresh clock r w ins y)) = dy_agenda y"
  by (simp add: ask_test_def split: prod.splits option.splits)

lemma ask_for_run_same: "same_schedules (dy_agenda y) (dy_agenda (snd (ask_for_run k fresh clock r att y)))"
  by (simp add: ask_for_run_def Let_def ask_workflow_same ask_test_same split: option.splits schedule_target.splits)

text \<open>A run that is not queued leaves nothing; one that is queued is there.\<close>

definition run_is_there :: "schedule_row \<Rightarrow> string \<Rightarrow> diary \<Rightarrow> bool" where
  "run_is_there r i y \<longleftrightarrow>
    (case target_parse (sk_target_kind r) of
       Some TargetWorkflow \<Rightarrow> \<exists>run. workflow_run i (ag_tables (dy_agenda y)) = Some run \<and> run_active run
         \<and> rn_workspace run \<noteq> None
     | Some TargetTest \<Rightarrow> \<exists>run. find_test_run i (dy_bench y) = Some run \<and> test_going (tn_status run) \<and> tn_test run = sk_target r
     | None \<Rightarrow> False)"

lemma ask_workflow_cases:
  assumes "ask_workflow k fresh clock r w ins att y = (res, y')"
  shows "case res of Inl _ \<Rightarrow> y' = y
    | Inr i \<Rightarrow> i = fresh \<and> (\<exists>run. workflow_run fresh (ag_tables (dy_agenda y')) = Some run \<and> run_active run \<and> rn_workspace run \<noteq> None)"
proof (cases "if att then None else workflow_waits k r w (dy_bench y)")
  case (Some why)
  then show ?thesis using assms by (auto simp: ask_workflow_def)
next
  case None
  let ?rq = "\<lparr>rq_workflow = sk_target r, rq_workspace = w, rq_inputs = ins, rq_requested_by = ''app'', rq_unattended = \<not> att\<rparr>"
  obtain res' t where ask: "ask_run (of_shelf k) (of_folder k) (of_facts k) (of_json k) (gr_workspace (of_site k)) (of_look k)
      fresh clock ?rq (ag_tables (dy_agenda y)) = (res', t)" by fastforce
  then have y': "y' = y\<lparr>dy_agenda := (dy_agenda y)\<lparr>ag_tables := t\<rparr>\<rparr>" "res' = res"
    using assms None by (simp_all add: ask_workflow_def)
  note outcome = ask_run_outcome [where sh = "of_shelf k" and files = "of_folder k" and fj = "of_facts k" and js = "of_json k"
      and workspace = "gr_workspace (of_site k)" and lk = "of_look k" and fresh = fresh and now = clock and rq = ?rq
      and t = "ag_tables (dy_agenda y)", unfolded ask y'(2) prod.case]
  show ?thesis
  proof (cases res)
    case (Inl err)
    then show ?thesis using outcome by (simp add: y'(1))
  next
    case (Inr i)
    obtain run ws where "i = fresh" "workflow_run fresh t = Some run" "rn_status run = ''queued''" "rn_workspace run = Some ws"
      using outcome unfolding Inr sum.case by blast
    then show ?thesis using Inr by (simp add: y'(1) run_active_def active_status_def)
  qed
qed

lemma ask_test_cases:
  assumes "ask_test k fresh clock r w ins y = (res, y')"
  shows "case res of Inl _ \<Rightarrow> y' = y
    | Inr i \<Rightarrow> i = fresh \<and> (\<exists>run. find_test_run fresh (dy_bench y') = Some run \<and> test_going (tn_status run) \<and> tn_test run = sk_target r)"
proof (cases "test_waits k r w")
  case (Some why)
  then show ?thesis using assms by (auto simp: ask_test_def)
next
  case None
  let ?rq = "\<lparr>tq_test = sk_target r, tq_workspace = w, tq_inputs = ins, tq_requested_by = ''app'', tq_session_record = None, tq_unattended = False\<rparr>"
  obtain q b where ask: "queue_test (of_site k) fresh clock ?rq (dy_bench y) = (q, b)" by fastforce
  then have res: "res = map_sum id qd_id q" and y': "y' = y\<lparr>dy_bench := b\<rparr>"
    using assms None by (simp_all add: ask_test_def)
  from ask show ?thesis
  proof (cases rule: queue_test_cases)
    case (refused err)
    then show ?thesis by (simp add: res y')
  next
    case (queued ws e t ins')
    have "ke_id e = sk_target r" using queued(4) by (auto simp: test_here_def intro: runnable_id)
    then have row: "tn_test (new_test_row (test_to_queue (of_site k) fresh ?rq ws e t ins' (goes_straight (of_site k) ws e (dy_bench y))) clock) = sk_target r"
      "test_going (tn_status (new_test_row (test_to_queue (of_site k) fresh ?rq ws e t ins' (goes_straight (of_site k) ws e (dy_bench y))) clock))"
      by (simp_all add: new_test_row_def test_to_queue_def test_going_def)
    have "nt_id (test_to_queue (of_site k) fresh ?rq ws e t ins' (goes_straight (of_site k) ws e (dy_bench y))) = fresh"
      by (simp add: test_to_queue_def)
    with queued_test_row [OF queued(11)] row show ?thesis by (simp add: res y' queued(12))
  qed
qed

lemma ask_for_run_cases:
  assumes "ask_for_run k fresh clock r att y = (res, y')"
  shows "case res of Inl _ \<Rightarrow> y' = y | Inr i \<Rightarrow> i = fresh \<and> run_is_there r i y'"
proof (cases "sk_workspace r")
  case None
  then show ?thesis using assms by (auto simp: ask_for_run_def)
next
  case (Some w)
  define ins where "ins = (case of_read_inputs k (sk_inputs r) of Some ins \<Rightarrow> ins | None \<Rightarrow> [])"
  show ?thesis
  proof (cases "target_parse (sk_target_kind r)")
    case None
    then show ?thesis using assms Some by (auto simp: ask_for_run_def Let_def)
  next
    case (Some t)
    note target = Some
    show ?thesis
    proof (cases t)
      case TargetWorkflow
      then have "ask_workflow k fresh clock r w ins att y = (res, y')"
        using assms \<open>sk_workspace r = Some w\<close> target by (simp add: ask_for_run_def ins_def Let_def)
      from ask_workflow_cases [OF this] show ?thesis
        using target TargetWorkflow by (cases res) (simp_all add: run_is_there_def)
    next
      case TargetTest
      then have "ask_test k fresh clock r w ins y = (res, y')"
        using assms \<open>sk_workspace r = Some w\<close> target by (simp add: ask_for_run_def ins_def Let_def)
      from ask_test_cases [OF this] show ?thesis
        using target TargetTest by (cases res) (simp_all add: run_is_there_def)
    qed
  qed
qed

section \<open>What firing does to the schedules\<close>

text \<open>Rows that are the same but for one schedule that may have been switched off.\<close>

definition switched_off :: "string \<Rightarrow> agenda \<Rightarrow> agenda \<Rightarrow> bool" where
  "switched_off i a a' \<longleftrightarrow> ag_removed a' = ag_removed a \<and> tb_projects (ag_tables a') = tb_projects (ag_tables a)
    \<and> (\<exists>f. ag_rows a' = map f (ag_rows a)
        \<and> (\<forall>q. f q = q \<or> (sk_id q = i \<and> (\<exists>at. f q = q\<lparr>sk_enabled := False, sk_updated := at\<rparr>))))"

lemma switched_off_same: "same_schedules a a' \<Longrightarrow> switched_off i a a'"
  unfolding switched_off_def same_schedules_def by (auto intro!: exI [of _ id])

lemma switched_off_later:
  assumes "switched_off i a a'" and "ag_rows a'' = ag_rows a'" and "ag_removed a'' = ag_removed a'"
    and "tb_projects (ag_tables a'') = tb_projects (ag_tables a')"
  shows "switched_off i a a''"
  using assms unfolding switched_off_def by simp

lemma switched_off_switch:
  assumes "same_schedules a a'"
  shows "switched_off i a (snd (set_schedule_enabled i False None at a'))"
proof -
  let ?f = "\<lambda>q. if sk_id q = i then q\<lparr>sk_enabled := False, sk_updated := at\<rparr> else q"
  have "ag_rows (snd (set_schedule_enabled i False None at a')) = map ?f (ag_rows a)"
    using assms by (simp add: set_schedule_enabled_def update_rows_def same_schedules_def)
  moreover have "?f q = q \<or> (sk_id q = i \<and> (\<exists>at. ?f q = q\<lparr>sk_enabled := False, sk_updated := at\<rparr>))" for q
    by (cases "sk_id q = i") auto
  ultimately have "\<exists>f. ag_rows (snd (set_schedule_enabled i False None at a')) = map f (ag_rows a)
      \<and> (\<forall>q. f q = q \<or> (sk_id q = i \<and> (\<exists>at. f q = q\<lparr>sk_enabled := False, sk_updated := at\<rparr>)))"
    by (intro exI [of _ ?f] conjI allI)
  moreover have "ag_removed (snd (set_schedule_enabled i False None at a')) = ag_removed a"
    "ag_tables (snd (set_schedule_enabled i False None at a')) = ag_tables a'"
    using assms by (simp_all add: set_schedule_enabled_def update_rows_def same_schedules_def)
  ultimately show ?thesis using assms unfolding switched_off_def same_schedules_def by simp
qed

lemma act_on_time_switched:
  assumes "act_on_time k fresh clock now_ms due r following y = (what, y')"
  shows "switched_off (sk_id r) (dy_agenda y) (dy_agenda y')"
proof (cases "y' = y")
  case True
  then show ?thesis by (simp add: switched_off_same)
next
  case False
  obtain res y1 where ask: "ask_for_run k fresh clock r False y = (res, y1)" by fastforce
  have same: "same_schedules (dy_agenda y) (dy_agenda y1)" using ask_for_run_same [of y k fresh clock r False] ask by simp
  have "y' = y1 \<or> y' = y1\<lparr>dy_agenda := snd (set_schedule_enabled (sk_id r) False None clock (dy_agenda y1))\<rparr>"
    using assms False
    by (auto simp: act_on_time_def ask split: sum.splits ipc_error.splits if_splits)
  then show ?thesis using switched_off_same [OF same] switched_off_switch [OF same] by auto
qed

lemma record_rows:
  assumes "record_schedule_run i n a = (res, a')"
  shows "ag_rows a' = ag_rows a \<and> ag_removed a' = ag_removed a \<and> ag_tables a' = ag_tables a"
  using assms by (auto simp: record_schedule_run_def Let_def split: if_splits)

text \<open>Firing a schedule takes its time, or finds it taken.\<close>

lemma fire_agenda:
  assumes "sk_next r = Some due" and "fire k fresh clock now r y = (res, y')"
    and "take_time (sk_id r) due (next_time k r now due) (dy_agenda y) = (taken, a)"
  shows "switched_off (sk_id r) a (dy_agenda y')
    \<and> (\<forall>f. res = Inr (Some f) \<longrightarrow> taken \<and> fd_schedule f = r \<and> sr_due (fd_run f) = due)"
proof (cases taken)
  case False
  then show ?thesis using assms by (auto simp: fire_def Let_def switched_off_same)
next
  case True
  obtain outcome run said y1 where act: "act_on_time k (fst fresh) clock (millis_of now) due r (next_time k r now due)
      (y\<lparr>dy_agenda := a\<rparr>) = ((outcome, run, said), y1)" by (metis prod.collapse)
  let ?n = "\<lparr>ns_schedule = sk_id r, ns_due = due, ns_fired = millis_of now, ns_outcome = outcome_str outcome,
     ns_manual = False, ns_run = run, ns_note = said\<rparr>"
  obtain wrote a' where wrote: "record_schedule_run (snd fresh) ?n (dy_agenda y1) = (wrote, a')" by fastforce
  have y': "y' = y1\<lparr>dy_agenda := a'\<rparr>"
    using assms True act wrote by (cases wrote) (auto simp: fire_def Let_def)
  have "sr_due (fd_run f) = due \<and> fd_schedule f = r" if "res = Inr (Some f)" for f
    using that assms True act wrote
    by (cases wrote) (auto simp: fire_def Let_def record_schedule_run_def new_run_line_def split: if_splits)
  moreover have "switched_off (sk_id r) a (dy_agenda y')"
    using switched_off_later [OF act_on_time_switched [OF act]] record_rows [OF wrote] by (simp add: y')
  ultimately show ?thesis using True by blast
qed

lemma switched_off_above: "switched_off i a a' \<Longrightarrow> times_above low a \<Longrightarrow> times_above low a'"
proof -
  assume off: "switched_off i a a'" and above: "times_above low a"
  then obtain f where rows: "ag_rows a' = map f (ag_rows a)"
    and f: "\<And>q. f q = q \<or> (sk_id q = i \<and> (\<exists>at. f q = q\<lparr>sk_enabled := False, sk_updated := at\<rparr>))"
    unfolding switched_off_def by blast
  have f': "sk_id (f q) = sk_id q" "sk_next (f q) = sk_next q" for q using f [of q] by auto
  show "times_above low a'" using above by (auto simp: times_above_def rows list_all_iff f' split: option.splits)
qed

lemma switched_off_ids: "switched_off i a a' \<Longrightarrow> map sk_id (ag_rows a') = map sk_id (ag_rows a)"
proof -
  assume "switched_off i a a'"
  then obtain f where rows: "ag_rows a' = map f (ag_rows a)"
    and f: "\<And>q. f q = q \<or> (sk_id q = i \<and> (\<exists>at. f q = q\<lparr>sk_enabled := False, sk_updated := at\<rparr>))"
    unfolding switched_off_def by blast
  have "sk_id (f q) = sk_id q" for q using f [of q] by auto
  then show ?thesis by (simp add: rows)
qed

lemma next_time_to_come:
  assumes "cron_moves_on (of_calendar k)" and "next_time k r now due = Inr n"
  shows "to_come (millis_of now) n"
proof (cases n)
  case (Some m)
  then obtain spec z where "next_after (of_calendar k) spec now (Some due) = Inr z" "Some m = map_option millis_of z"
    using assms(2) by (auto simp: next_time_def split: option.splits sum.splits elim!: map_sum_Inr)
  then obtain t where "next_after (of_calendar k) spec now (Some due) = Inr (Some t)" "m = millis_of t"
    by (cases z) auto
  then show ?thesis using next_after_millis [OF assms(1)] Some by (simp add: to_come_def)
qed (simp add: to_come_def)

section \<open>No time fires twice\<close>

text \<open>What happens to the schedules, by any process: one row that was read as due is fired, however long
  ago it was read, or they are edited.  The times that fired come out.\<close>

datatype schedule_event = Fires office "string \<times> string" int int schedule_row | Edits agenda_op int

fun event_time :: "schedule_event \<Rightarrow> int" where
  "event_time (Fires k fresh clock now r) = millis_of now"
| "event_time (Edits op at) = at"

fun event_step :: "schedule_event \<Rightarrow> diary \<Rightarrow> (string \<times> int) list \<times> diary" where
  "event_step (Fires k fresh clock now r) y =
    (case fire k fresh clock now r y of
       (Inr (Some f), y') \<Rightarrow> ([(sk_id (fd_schedule f), sr_due (fd_run f))], y') | (_, y') \<Rightarrow> ([], y'))"
| "event_step (Edits op at) y = ([], y\<lparr>dy_agenda := snd (agenda_step (op, at) (dy_agenda y))\<rparr>)"

fun event_steps :: "schedule_event list \<Rightarrow> diary \<Rightarrow> (string \<times> int) list \<times> diary" where
  "event_steps [] y = ([], y)"
| "event_steps (e # es) y =
    (case event_step e y of (first, y') \<Rightarrow> case event_steps es y' of (later, y'') \<Rightarrow> (first @ later, y''))"

text \<open>A schedule is fired when its time has come, by a calendar that moves on; edits give times to come.\<close>

fun event_ok :: "schedule_event \<Rightarrow> bool" where
  "event_ok (Fires k fresh clock now r) \<longleftrightarrow>
    cron_moves_on (of_calendar k) \<and> (case sk_next r of Some due \<Rightarrow> due \<le> millis_of now | None \<Rightarrow> True)"
| "event_ok (Edits op at) \<longleftrightarrow> in_time (op, at)"

lemma agenda_step_cases: "fst (agenda_step (op, at) a) = [] \<or> (\<exists>i due. fst (agenda_step (op, at) a) = [(i, due)])"
  by (cases op) (auto split: prod.splits if_splits)

lemma times_above_mono: "times_above (low(i := due)) a \<Longrightarrow> low i < due \<Longrightarrow> times_above low a"
  by (auto simp: times_above_def list_all_iff split: option.splits if_splits)

lemma edit_above:
  assumes "times_above low a" and "distinct (map sk_id (ag_rows a))" and "\<And>i. low i \<le> at" and "in_time (op, at)"
  shows "times_above low (snd (agenda_step (op, at) a))"
proof -
  obtain taken a' where step: "agenda_step (op, at) a = (taken, a')" by fastforce
  then show ?thesis
  proof (cases "taken = []")
    case True
    then show ?thesis using untaken_above [OF assms(1) assms(3,4)] step by simp
  next
    case False
    then obtain i due where "taken = [(i, due)]" using agenda_step_cases [of op at a] step by auto
    then show ?thesis using taken_above [OF assms, of i due a'] times_above_mono [of low i due a'] step by simp
  qed
qed

lemma take_time_step:
  "agenda_step (case following of Inr n \<Rightarrow> TakeTime i due n | Inl _ \<Rightarrow> StallTime i due, at) a
    = (if fst (take_time i due following a) then [(i, due)] else [], snd (take_time i due following a))"
  by (cases following) (simp_all add: take_time_def split: prod.splits)

text \<open>One event: at most one time fires, later than any before, and every schedule's next is later still.\<close>

lemma event_step_above:
  assumes "times_above low (dy_agenda y)" and "distinct (map sk_id (ag_rows (dy_agenda y)))"
    and "\<And>i. low i \<le> event_time e" and "event_ok e" and "event_step e y = (first, y')"
  shows "distinct (map sk_id (ag_rows (dy_agenda y')))
    \<and> ((first = [] \<and> times_above low (dy_agenda y'))
      \<or> (\<exists>i due. first = [(i, due)] \<and> low i < due \<and> due \<le> event_time e \<and> times_above (low(i := due)) (dy_agenda y')))"
proof (cases e)
  case (Edits op at)
  then show ?thesis
    using assms edit_above [OF assms(1,2), of at op] ids_distinct_step [OF assms(2), of op at] by auto
next
  case (Fires k fresh clock now r)
  show ?thesis
  proof (cases "sk_next r")
    case None
    then have "first = [] \<and> y' = y" using assms(5) Fires by (simp add: fire_def)
    then show ?thesis using assms(1,2) by simp
  next
    case (Some due)
    obtain res where fired: "fire k fresh clock now r y = (res, y')"
      using assms(5) Fires by (auto split: prod.splits sum.splits option.splits)
    obtain taken a where taken: "take_time (sk_id r) due (next_time k r now due) (dy_agenda y) = (taken, a)" by fastforce
    let ?op = "case next_time k r now due of Inr n \<Rightarrow> TakeTime (sk_id r) due n | Inl _ \<Rightarrow> StallTime (sk_id r) due"
    have step: "agenda_step (?op, millis_of now) (dy_agenda y) = (if taken then [(sk_id r, due)] else [], a)"
      unfolding take_time_step taken by simp
    have time: "in_time (?op, millis_of now)"
      using assms(4) Fires Some next_time_to_come [of k r now due] by (auto split: sum.splits)
    have low: "low i \<le> millis_of now" for i using assms(3) [of i] Fires by simp
    note off = fire_agenda [OF Some fired taken]
    have ids: "distinct (map sk_id (ag_rows (dy_agenda y')))"
      using ids_distinct_step [OF assms(2), of ?op "millis_of now"] switched_off_ids [OF conjunct1 [OF off]] step by simp
    have first: "first = [] \<or> (taken \<and> first = [(sk_id r, due)])"
      using assms(5) Fires fired off by (auto split: sum.splits option.splits)
    show ?thesis
    proof (cases taken)
      case True
      from taken_above [OF assms(1,2) low time, of "sk_id r" due a] step True
      have above: "low (sk_id r) < due" "due \<le> millis_of now" "times_above (low(sk_id r := due)) a" by auto
      have "times_above (low(sk_id r := due)) (dy_agenda y')" using off above(3) switched_off_above by blast
      then show ?thesis using ids first above(1,2) times_above_mono Fires by auto
    next
      case False
      have "times_above low a" using untaken_above [OF assms(1) low time] step False by simp
      then have "times_above low (dy_agenda y')" using off switched_off_above by blast
      then show ?thesis using ids first False by simp
    qed
  qed
qed

lemma event_steps_once:
  assumes "event_steps es y = (all_fired, y')" and "times_above low (dy_agenda y)"
    and "distinct (map sk_id (ag_rows (dy_agenda y)))" and "\<And>i. low i \<le> start"
    and "sorted (start # map event_time es)" and "list_all event_ok es"
  shows "distinct all_fired \<and> list_all (\<lambda>(i, due). low i < due) all_fired"
  using assms
proof (induction es arbitrary: y y' low start all_fired)
  case (Cons e es)
  obtain first y1 where one: "event_step e y = (first, y1)" by fastforce
  obtain later y2 where rest: "event_steps es y1 = (later, y2)" and all: "all_fired = first @ later"
    using Cons.prems(1) one by (auto split: prod.splits)
  have now: "low i \<le> event_time e" for i using Cons.prems(4) [of i] Cons.prems(5) by simp
  have e: "event_ok e" and es: "list_all event_ok es" and sorted: "sorted (event_time e # map event_time es)"
    using Cons.prems(5,6) by auto
  from event_step_above [OF Cons.prems(2,3) now e one]
  consider "first = []" "distinct (map sk_id (ag_rows (dy_agenda y1)))" "times_above low (dy_agenda y1)"
    | i due where "first = [(i, due)]" "low i < due" "due \<le> event_time e" "distinct (map sk_id (ag_rows (dy_agenda y1)))"
      "times_above (low(i := due)) (dy_agenda y1)" by blast
  then show ?case
  proof cases
    case 1
    from Cons.IH [OF rest 1(3,2) now sorted es] show ?thesis by (simp add: all 1(1))
  next
    case (2 i due)
    have low: "(low(i := due)) j \<le> event_time e" for j using now 2(3) by simp
    from Cons.IH [OF rest 2(5,4) low sorted es]
    have later: "distinct later" "list_all (\<lambda>(j, d). (low(i := due)) j < d) later" by auto
    then have "(i, due) \<notin> set later" by (auto simp: list_all_iff)
    moreover have "list_all (\<lambda>(j, d). low j < d) later"
      using later(2) 2(2) by (auto simp: list_all_iff split: if_splits)
    ultimately show ?thesis using later(1) 2(2) by (simp add: all 2(1))
  qed
qed simp

section \<open>A tick leaves nothing due\<close>

lemma taken_row:
  assumes "distinct (map sk_id (ag_rows a))" and "r \<in> set (ag_rows a)" and "sk_enabled r" and "sk_next r = Some due"
    and "take_time (sk_id r) due following a = (taken, a')"
  shows "ag_removed a' = ag_removed a \<and> ag_tables a' = ag_tables a
    \<and> (\<exists>r'. ag_rows a' = map (\<lambda>q. if q = r then r' else q) (ag_rows a)
        \<and> sk_next r' = (case following of Inr n \<Rightarrow> n | Inl _ \<Rightarrow> None) \<and> sk_id r' = sk_id r)"
proof -
  have only: "q = r" if "q \<in> set (ag_rows a)" "sk_id q = sk_id r" for q
    using assms(1,2) that by (auto simp: distinct_map dest: inj_onD)
  have rows: "map (\<lambda>q. if sk_id q = sk_id r \<and> sk_enabled q \<and> sk_next q = Some due then f q else q) (ag_rows a)
      = map (\<lambda>q. if q = r then f r else q) (ag_rows a)" for f
    using only assms(3,4) by (intro map_cong refl) auto
  show ?thesis
  proof (cases following)
    case (Inl why)
    then have a': "a' = a\<lparr>ag_rows := map (\<lambda>q. if q = r then r\<lparr>sk_next := None\<rparr> else q) (ag_rows a)\<rparr>"
      using assms(5) rows by (simp add: take_time_def stall_schedule_def update_rows_def)
    show ?thesis unfolding a' using Inl by (intro conjI exI [of _ "r\<lparr>sk_next := None\<rparr>"]) simp_all
  next
    case (Inr n)
    let ?r = "r\<lparr>sk_next := n, sk_enabled := (if n = None then False else sk_enabled r)\<rparr>"
    have a': "a' = a\<lparr>ag_rows := map (\<lambda>q. if q = r then ?r else q) (ag_rows a)\<rparr>"
      using assms(5) Inr rows by (simp add: take_time_def claim_schedule_def update_rows_def)
    show ?thesis unfolding a' using Inr by (intro conjI exI [of _ ?r]) simp_all
  qed
qed

text \<open>Firing one that is due leaves it not due, and the others as they were.\<close>

lemma fire_due:
  assumes "cron_moves_on (of_calendar k)" and "distinct (map sk_id (ag_rows (dy_agenda y)))"
    and "r \<in> set (ag_rows (dy_agenda y))" and "is_due (millis_of now) (dy_agenda y) r"
    and "fire k fresh clock now r y = (res, y')"
  shows "distinct (map sk_id (ag_rows (dy_agenda y')))
    \<and> (\<forall>q\<in>set (ag_rows (dy_agenda y')). is_due (millis_of now) (dy_agenda y') q \<longrightarrow>
        q \<in> set (ag_rows (dy_agenda y)) \<and> q \<noteq> r \<and> is_due (millis_of now) (dy_agenda y) q)
    \<and> (\<forall>q\<in>set (ag_rows (dy_agenda y)). q \<noteq> r \<longrightarrow> q \<in> set (ag_rows (dy_agenda y')) \<and>
        (is_due (millis_of now) (dy_agenda y) q \<longrightarrow> is_due (millis_of now) (dy_agenda y') q))"
proof -
  let ?a = "dy_agenda y" and ?a' = "dy_agenda y'"
  obtain due where due: "sk_next r = Some due" and on: "sk_enabled r"
    using assms(4) by (auto simp: is_due_def split: option.splits)
  obtain taken a where taken: "take_time (sk_id r) due (next_time k r now due) ?a = (taken, a)" by fastforce
  from taken_row [OF assms(2,3) on due taken] obtain r' where
    same: "ag_removed a = ag_removed ?a" "ag_tables a = ag_tables ?a"
    and rows: "ag_rows a = map (\<lambda>q. if q = r then r' else q) (ag_rows ?a)"
    and r': "sk_next r' = (case next_time k r now due of Inr n \<Rightarrow> n | Inl _ \<Rightarrow> None)" "sk_id r' = sk_id r" by blast
  have off: "switched_off (sk_id r) a ?a'" using fire_agenda [OF due assms(5) taken] by blast
  then obtain f where rows': "ag_rows ?a' = map f (ag_rows a)"
    and same': "ag_removed ?a' = ag_removed a" "tb_projects (ag_tables ?a') = tb_projects (ag_tables a)"
    and f: "\<And>q. f q = q \<or> (sk_id q = sk_id r \<and> (\<exists>at. f q = q\<lparr>sk_enabled := False, sk_updated := at\<rparr>))"
    unfolding switched_off_def by blast
  have live: "is_due (millis_of now) ?a' q \<longleftrightarrow> is_due (millis_of now) ?a q" for q
    using same same' by (simp add: is_due_def live_project_def)
  have ids: "map sk_id (ag_rows ?a') = map sk_id (ag_rows ?a)"
    using switched_off_ids [OF off] r'(2) by (simp add: rows)
  have fr': "\<not> is_due (millis_of now) ?a' (f r')"
  proof -
    have "sk_next (f r') = sk_next r'" using f [of r'] by auto
    moreover have "case sk_next r' of Some n \<Rightarrow> millis_of now < n | None \<Rightarrow> True"
      using next_time_to_come [OF assms(1), of r now due] r'(1) by (auto simp: to_come_def split: sum.splits option.splits)
    ultimately show ?thesis by (auto simp: is_due_def split: option.splits)
  qed
  have others: "f q = q" if "q \<in> set (ag_rows ?a)" "q \<noteq> r" for q
  proof -
    have "sk_id q \<noteq> sk_id r" using assms(2,3) that by (auto simp: distinct_map dest: inj_onD)
    then show ?thesis using f [of q] by simp
  qed
  have set': "set (ag_rows ?a') = insert (f r') (set (ag_rows ?a) - {r})"
  proof -
    have "ag_rows ?a' = map (\<lambda>q. if q = r then f r' else q) (ag_rows ?a)"
      using others by (simp add: rows rows')
    moreover have "(\<lambda>q. if q = r then f r' else q) ` S = insert (f r') (S - {r})" if "r \<in> S" for S
      using that by (auto simp: image_iff)
    ultimately show ?thesis using assms(3) by simp
  qed
  show ?thesis
    using ids assms(2) fr' live by (auto simp: set')
qed

lemma fire_each_due:
  assumes "cron_moves_on (of_calendar k)" and "distinct (map sk_id (ag_rows (dy_agenda y)))" and "distinct rs"
    and "set rs = set (filter (is_due (millis_of now) (dy_agenda y)) (ag_rows (dy_agenda y)))"
    and "fire_each k fresh clock now (\<lambda>_ y. y) n rs y = (Inr fs, y')"
  shows "filter (is_due (millis_of now) (dy_agenda y')) (ag_rows (dy_agenda y')) = []"
  using assms
proof (induction rs arbitrary: n y fs)
  case Nil
  then show ?case by simp
next
  case (Cons r rs)
  obtain res y1 where one: "fire k (fresh n) clock now r y = (res, y1)" by fastforce
  obtain f gs where rest: "res = Inr f" "fire_each k fresh clock now (\<lambda>_ y. y) (Suc n) rs y1 = (Inr gs, y')"
    using Cons.prems(5) one by (auto split: sum.splits prod.splits)
  have "r \<in> set (filter (is_due (millis_of now) (dy_agenda y)) (ag_rows (dy_agenda y)))"
    using Cons.prems(4) by (metis list.set_intros(1))
  then have r: "r \<in> set (ag_rows (dy_agenda y))" "is_due (millis_of now) (dy_agenda y) r" by auto
  note step = fire_due [OF assms(1) Cons.prems(2) r one]
  have "set rs = set (r # rs) - {r}" using Cons.prems(3) by auto
  also have "\<dots> = set (filter (is_due (millis_of now) (dy_agenda y)) (ag_rows (dy_agenda y))) - {r}"
    unfolding Cons.prems(4) ..
  also have "\<dots> = set (filter (is_due (millis_of now) (dy_agenda y1)) (ag_rows (dy_agenda y1)))"
    using step by auto
  finally have left: "set rs = set (filter (is_due (millis_of now) (dy_agenda y1)) (ag_rows (dy_agenda y1)))" .
  have "distinct rs" using Cons.prems(3) by simp
  from Cons.IH [OF assms(1) conjunct1 [OF step] this left rest(2)] show ?case .
qed

section \<open>What the history says\<close>

lemma act_on_time_says:
  assumes "act_on_time k fresh clock now_ms due r following y = ((outcome, run, note), y')"
  shows "case outcome of
      FireStarted \<Rightarrow> run = Some fresh \<and> run_is_there r fresh y'
    | FireMissed \<Rightarrow> y' = y \<and> run = None \<and> LATE_AFTER_MS < now_ms - due \<and> missed_parse (sk_missed r) = Some SkipMissed
    | FireSkipped \<Rightarrow> y' = y \<and> run = None
    | FireRefused \<Rightarrow> run = None \<and> note \<noteq> None \<and> dy_bench y' = dy_bench y \<and> ag_tables (dy_agenda y') = ag_tables (dy_agenda y)"
proof (cases "isl following \<or> (LATE_AFTER_MS < now_ms - due \<and> missed_parse (sk_missed r) = Some SkipMissed)")
  case True
  then show ?thesis using assms by (auto simp: act_on_time_def isl_def split: sum.splits if_splits)
next
  case False
  obtain res y1 where ask: "ask_for_run k fresh clock r False y = (res, y1)" by fastforce
  note cases = ask_for_run_cases [OF ask]
  show ?thesis
  proof (cases res)
    case (Inr i)
    then have "outcome = FireStarted \<and> run = Some i \<and> y' = y1"
      using assms False ask by (auto simp: act_on_time_def split: sum.splits)
    then show ?thesis using cases Inr by auto
  next
    case (Inl err)
    obtain code why where err: "err = IpcError code why" by (cases err) auto
    have "y1 = y" using cases Inl by simp
    then show ?thesis
      using assms False ask Inl err
      by (auto simp: act_on_time_def set_schedule_enabled_def update_rows_def split: sum.splits if_splits)
  qed
qed

section \<open>Properties\<close>


text \<open>
  C17. After a tick that nobody comes in between of, no schedule is due any more, however long the machine
  slept: each has a time that is still to come, or none.
\<close>

theorem a_tick_leaves_nothing_due:
  assumes "cron_moves_on (of_calendar k)" and "distinct (map sk_id (ag_rows (dy_agenda y)))"
    and "schedules_tick k fresh clock now (\<lambda>_ y. y) y = (Inr fs, y')"
  shows "due_schedules (millis_of now) (dy_agenda y') = []"
proof -
  have "distinct (ag_rows (dy_agenda y))" using assms(2) by (simp add: distinct_map)
  then have "distinct (due_schedules (millis_of now) (dy_agenda y))" by (simp add: due_schedules_def)
  moreover have "set (due_schedules (millis_of now) (dy_agenda y))
      = set (filter (is_due (millis_of now) (dy_agenda y)) (ag_rows (dy_agenda y)))"
    by (simp add: due_schedules_def)
  ultimately have "filter (is_due (millis_of now) (dy_agenda y')) (ag_rows (dy_agenda y')) = []"
    using fire_each_due [OF assms(1,2)] assms(3) unfolding schedules_tick_def by blast
  then show ?thesis by (simp add: due_schedules_def)
qed


section \<open>Witnesses\<close>

definition example_event :: "nat \<Rightarrow> schedule_row \<Rightarrow> schedule_event" where
  "example_event n r = Fires example_office (''run'' @ num n, ''line'' @ num n) 10 10000000 r"

definition example_row :: schedule_row where
  "example_row = new_schedule_row ''n'' example_fields ''app'' 1"


definition example_due :: diary where
  "example_due = example_diary\<lparr>dy_agenda := snd (add_schedule ''n'' example_fields ''app'' 1 example_agenda)\<rparr>"

theorem a_tick_leaves_nothing_due_witness:
  "\<exists>fs y'. schedules_tick example_office (\<lambda>n. (''r'', ''l'')) 10 10000000 (\<lambda>_ y. y) example_due = (Inr fs, y')
    \<and> due_schedules 10 (dy_agenda example_due) \<noteq> [] \<and> due_schedules 10 (dy_agenda y') = []"
proof -
  let ?tick = "schedules_tick example_office (\<lambda>n. (''r'', ''l'')) 10 10000000 (\<lambda>_ y. y) example_due"
  have "\<not> isl (fst ?tick)" by code_simp
  then obtain fs y' where tick: "?tick = (Inr fs, y')" by (cases ?tick; cases "fst ?tick") auto
  have "distinct (map sk_id (ag_rows (dy_agenda example_due)))" by code_simp
  moreover have "cron_moves_on (of_calendar example_office)" by (simp add: example_office_def daily_calendar_moves_on)
  ultimately have "due_schedules (millis_of 10000000) (dy_agenda y') = []"
    using a_tick_leaves_nothing_due tick by blast
  then have "due_schedules 10 (dy_agenda y') = []" by (simp add: millis_of_def)
  moreover have "due_schedules 10 (dy_agenda example_due) \<noteq> []" by code_simp
  ultimately show ?thesis using tick by blast
qed


end
