(* ===== verification/Settling.thy ===== *)
theory Settling
  imports Firing
begin

text \<open>
  The other half of \<open>crates/core/src/schedule/fire.rs\<close>: the endings of the runs that schedules started
  are copied onto their lines, and the user is told what the schedule asks for; and times of day are
  worked out again when the machine's zone changes.  The lemmas show that a run's ending is told once.
\<close>

section \<open>A run that has ended\<close>

definition failed_step :: "string \<Rightarrow> string option \<Rightarrow> string" where
  "failed_step i note =
    (case note of Some n \<Rightarrow> ''`'' @ i @ ''`: '' @ n | None \<Rightarrow> ''The step `'' @ i @ ''` failed.'')"

definition ending :: "string \<Rightarrow> string" where
  "ending status =
    (if status = ''succeeded'' then ''finished'' else if status = ''passed'' then ''passed''
     else if status = ''failed'' then ''failed'' else if status = ''errored'' then ''could not finish''
     else if status = ''cancelled'' then ''was cancelled'' else if status = ''refused'' then ''was not approved''
     else if status = ''gone'' then ''is gone'' else status)"

text \<open>A run's status, why it failed and whether it waits for approval, or \<open>None\<close> while it goes on.\<close>

definition workflow_ending :: "string \<Rightarrow> tables \<Rightarrow> (string \<times> string option \<times> bool) option" where
  "workflow_ending i t =
    (case workflow_run i t of
       None \<Rightarrow> Some (''gone'', None, False)
     | Some run \<Rightarrow>
         if run_active run then None
         else Some (rn_status run,
           or_else (rn_error run) (map_option (\<lambda>s. failed_step (row_step s) (row_note s))
             (find (\<lambda>s. row_status s = ''failed'') (workflow_steps i t))), False))"

definition test_ending :: "string \<Rightarrow> bench \<Rightarrow> (string \<times> string option \<times> bool) option" where
  "test_ending i b =
    (case find_test_run i b of
       None \<Rightarrow> Some (''gone'', None, False)
     | Some run \<Rightarrow>
         if tn_status run = ''awaiting_approval'' then Some (tn_status run, None, True)
         else if test_going (tn_status run) then None
         else Some (tn_status run,
           or_else (tn_error run) (map_option (\<lambda>s. failed_step (tp_step s) (tp_note s))
             (find (\<lambda>s. tp_status s = ''failed'') (test_steps i b))), False))"

definition run_ending :: "schedule_row \<Rightarrow> string \<Rightarrow> diary \<Rightarrow> (string \<times> string option \<times> bool) option" where
  "run_ending r i y =
    (case target_parse (sk_target_kind r) of
       Some TargetWorkflow \<Rightarrow> workflow_ending i (ag_tables (dy_agenda y))
     | Some TargetTest \<Rightarrow> test_ending i (dy_bench y)
     | None \<Rightarrow> Some (''gone'', None, False))"

definition notify_of :: "schedule_row \<Rightarrow> schedule_notify" where
  "notify_of r = (case notify_parse (sk_notify r) of Some n \<Rightarrow> n | None \<Rightarrow> NotifyFailure)"

definition waiting_notice :: "schedule_row \<Rightarrow> notice" where
  "waiting_notice r =
    \<lparr>ny_schedule = sk_id r, ny_title = sk_name r @ '' is waiting for your approval'',
      ny_body = ''The smoke test `'' @ sk_target r
        @ ''` is new, or has changed since you approved it. Open Yardsort to look at it and run it.''\<rparr>"

definition has_failed :: "string \<Rightarrow> bool" where
  "has_failed status \<longleftrightarrow> status = ''failed'' \<or> status = ''errored''"

definition tells :: "schedule_row \<Rightarrow> string \<Rightarrow> bool" where
  "tells r status \<longleftrightarrow> status \<noteq> ''gone''
    \<and> (case notify_of r of NotifyAlways \<Rightarrow> True | NotifyFailure \<Rightarrow> has_failed status | NotifyNever \<Rightarrow> False)"

definition ending_notice :: "schedule_row \<Rightarrow> string \<Rightarrow> string option \<Rightarrow> notice" where
  "ending_notice r status reason =
    (let what = (case target_parse (sk_target_kind r) of Some t \<Rightarrow> target_words t | None \<Rightarrow> ''run'');
         place = ''The '' @ what @ '' `'' @ sk_target r @ ''` in `'' @ sk_workspace_name r @ ''`.''
     in \<lparr>ny_schedule = sk_id r, ny_title = sk_name r @ '' '' @ ending status,
       ny_body = (case reason of Some why \<Rightarrow> if has_failed status then why else place | None \<Rightarrow> place)\<rparr>)"

text \<open>One line: whether the history changed, what to tell, and the agenda afterwards.\<close>

definition settle_line :: "int \<Rightarrow> schedule_run_row \<Rightarrow> diary \<Rightarrow> (bool \<times> notice list) \<times> diary" where
  "settle_line clock l y =
    (case find_schedule (sr_schedule l) (dy_agenda y) of
       None \<Rightarrow> ((False, []), y)
     | Some r \<Rightarrow>
         (case sr_run l of
            None \<Rightarrow>
              (case settle_schedule_run (sr_id l) ''gone'' False clock (dy_agenda y) of
                 (settled, a) \<Rightarrow> ((settled, []), y\<lparr>dy_agenda := a\<rparr>))
          | Some i \<Rightarrow>
              (case run_ending r i y of
                 None \<Rightarrow> ((False, []), y)
               | Some (status, reason, True) \<Rightarrow>
                   if sr_told_waiting l then ((False, []), y)
                   else (case mark_told_waiting (sr_id l) (dy_agenda y) of
                       (marked, a) \<Rightarrow>
                         ((marked, if marked \<and> notify_of r \<noteq> NotifyNever then [waiting_notice r] else []),
                          y\<lparr>dy_agenda := a\<rparr>))
               | Some (status, reason, False) \<Rightarrow>
                   (case settle_schedule_run (sr_id l) status (tells r status) clock (dy_agenda y) of
                      (settled, a) \<Rightarrow>
                        ((settled, if settled \<and> tells r status then [ending_notice r status reason] else []),
                         y\<lparr>dy_agenda := a\<rparr>)))))"

fun settle_lines :: "int \<Rightarrow> schedule_run_row list \<Rightarrow> diary \<Rightarrow> (bool \<times> notice list) \<times> diary" where
  "settle_lines clock [] y = ((False, []), y)"
| "settle_lines clock (l # ls) y =
    (case settle_line clock l y of
       ((changed, told), y') \<Rightarrow>
         (case settle_lines clock ls y' of ((later, others), y'') \<Rightarrow> ((changed \<or> later, told @ others), y'')))"

definition settle :: "int \<Rightarrow> diary \<Rightarrow> (bool \<times> notice list) \<times> diary" where
  "settle clock y = settle_lines clock (unsettled_schedule_runs (dy_agenda y)) y"

section \<open>Another zone\<close>

definition rezone_one :: "office \<Rightarrow> int \<Rightarrow> schedule_row \<Rightarrow> bool \<times> agenda \<Rightarrow> bool \<times> agenda" where
  "rezone_one k now r ma =
    (case sk_next r of
       None \<Rightarrow> ma
     | Some at \<Rightarrow>
         if at \<le> millis_of now then ma
         else (case of_read_spec k (sk_spec r) of
             None \<Rightarrow> ma
           | Some spec \<Rightarrow>
               if cron_of spec = None then ma
               else (case next_after (of_calendar k) spec now None of
                   Inr (Some t) \<Rightarrow>
                     if millis_of t = at then ma
                     else (case move_schedule (sk_id r) at (Some (millis_of t)) (snd ma) of
                         (moved, a) \<Rightarrow> (fst ma \<or> moved, a))
                 | _ \<Rightarrow> ma)))"

definition rezone :: "office \<Rightarrow> int \<Rightarrow> agenda \<Rightarrow> bool \<times> agenda" where
  "rezone k now a = fold (rezone_one k now) (waiting_schedules a) (False, a)"

section \<open>What settling does to a line\<close>

definition settled_line :: "int \<Rightarrow> diary \<Rightarrow> schedule_run_row \<Rightarrow> schedule_run_row" where
  "settled_line clock y l =
    (case find_schedule (sr_schedule l) (dy_agenda y) of
       None \<Rightarrow> l
     | Some r \<Rightarrow>
         (case sr_run l of
            None \<Rightarrow> l\<lparr>sr_result := Some ''gone'', sr_notified := None\<rparr>
          | Some i \<Rightarrow>
              (case run_ending r i y of
                 None \<Rightarrow> l
               | Some (status, reason, True) \<Rightarrow> l\<lparr>sr_told_waiting := True\<rparr>
               | Some (status, reason, False) \<Rightarrow>
                   l\<lparr>sr_result := Some status, sr_notified := (if tells r status then Some clock else None)\<rparr>)))"

definition with_lines :: "diary \<Rightarrow> schedule_run_row list \<Rightarrow> diary" where
  "with_lines y ls = y\<lparr>dy_agenda := (dy_agenda y)\<lparr>ag_runs := ls\<rparr>\<rparr>"

lemma with_lines_simps [simp]:
  "ag_runs (dy_agenda (with_lines y ls)) = ls" "ag_rows (dy_agenda (with_lines y ls)) = ag_rows (dy_agenda y)"
  "ag_tables (dy_agenda (with_lines y ls)) = ag_tables (dy_agenda y)" "dy_bench (with_lines y ls) = dy_bench y"
  "with_lines (with_lines y ls) ls' = with_lines y ls'" "with_lines y (ag_runs (dy_agenda y)) = y"
  by (simp_all add: with_lines_def)

lemma ending_with_lines [simp]: "run_ending r i (with_lines y ls) = run_ending r i y"
  unfolding run_ending_def with_lines_simps ..

lemma find_with_lines [simp]: "find_schedule j (dy_agenda (with_lines y ls)) = find_schedule j (dy_agenda y)"
  by (simp add: find_schedule_def)

lemma settled_with_lines [simp]: "settled_line clock (with_lines y ls) l = settled_line clock y l"
  unfolding settled_line_def ending_with_lines find_with_lines ..

lemma settled_line_id [simp]: "sr_id (settled_line clock y l) = sr_id l"
  by (auto simp: settled_line_def split: option.splits bool.splits)

text \<open>An update of the one line that has this id.\<close>

lemma update_one_line:
  assumes "distinct (map sr_id (ag_runs a))" and "l \<in> set (ag_runs a)" and "P l"
  shows "update_lines (sr_id l) P f a = (True, a\<lparr>ag_runs := map (\<lambda>q. if q = l then f l else q) (ag_runs a)\<rparr>)"
proof -
  have only: "q = l" if "q \<in> set (ag_runs a)" "sr_id q = sr_id l" for q
    using assms(1,2) that by (auto simp: distinct_map dest: inj_onD)
  have "map (\<lambda>q. if sr_id q = sr_id l \<and> P q then f q else q) (ag_runs a) = map (\<lambda>q. if q = l then f l else q) (ag_runs a)"
    using only assms(3) by (intro map_cong refl) auto
  moreover have "list_ex (\<lambda>q. sr_id q = sr_id l \<and> P q) (ag_runs a)" using assms(2,3) by (auto simp: list_ex_iff)
  ultimately show ?thesis by (simp add: update_lines_def)
qed

lemma map_same: "map (\<lambda>q. if q = l then l else q) ls = ls"
  by (induction ls) auto

lemma settle_line_effect:
  assumes "distinct (map sr_id (ag_runs (dy_agenda y)))" and "l \<in> set (ag_runs (dy_agenda y))" and "unsettled l"
  shows "snd (settle_line clock l y)
    = with_lines y (map (\<lambda>q. if q = l then settled_line clock y l else q) (ag_runs (dy_agenda y)))"
proof -
  let ?a = "dy_agenda y"
  have none: "sr_result l = None" using assms(3) by (simp add: unsettled_def)
  have settle: "settle_schedule_run (sr_id l) result notified clock ?a
      = (True, ?a\<lparr>ag_runs := map (\<lambda>q. if q = l then l\<lparr>sr_result := Some result,
          sr_notified := (if notified then Some clock else None)\<rparr> else q) (ag_runs ?a)\<rparr>)" for result notified
    unfolding settle_schedule_run_def by (rule update_one_line [OF assms(1,2)]) (rule none)
  have mark: "mark_told_waiting (sr_id l) ?a
      = (True, ?a\<lparr>ag_runs := map (\<lambda>q. if q = l then l\<lparr>sr_told_waiting := True\<rparr> else q) (ag_runs ?a)\<rparr>)"
    if "\<not> sr_told_waiting l"
    unfolding mark_told_waiting_def by (rule update_one_line [OF assms(1,2)]) (rule that)
  have told: "l\<lparr>sr_told_waiting := True\<rparr> = l" if "sr_told_waiting l" using that by (cases l) simp
  show ?thesis
  proof (cases "find_schedule (sr_schedule l) ?a")
    case None
    then have "settled_line clock y l = l" by (simp add: settled_line_def)
    with None show ?thesis by (simp add: settle_line_def map_same cong: if_cong)
  next
    case (Some r)
    note r = Some
    show ?thesis
    proof (cases "sr_run l")
      case None
      then show ?thesis using r settle [of "''gone''" False] by (simp add: settle_line_def settled_line_def with_lines_def)
    next
      case (Some i)
      note i = Some
      show ?thesis
      proof (cases "run_ending r i y")
        case None
        then have "settled_line clock y l = l" using r i by (simp add: settled_line_def)
        then show ?thesis using r i None by (simp add: settle_line_def map_same cong: if_cong)
      next
        case (Some e)
        obtain status reason waiting where e: "e = (status, reason, waiting)" by (metis prod.collapse)
        show ?thesis
        proof (cases waiting)
          case True
          note waiting = True
          show ?thesis
          proof (cases "sr_told_waiting l")
            case True
            then have "settled_line clock y l = l" using r i Some e waiting told by (simp add: settled_line_def)
            then show ?thesis using r i Some e waiting True by (simp add: settle_line_def map_same cong: if_cong)
          next
            case False
            then show ?thesis using r i Some e waiting mark
              by (simp add: settle_line_def settled_line_def with_lines_def)
          qed
        next
          case False
          then show ?thesis using r i Some e settle [of status "tells r status"]
            by (simp add: settle_line_def settled_line_def with_lines_def)
        qed
      qed
    qed
  qed
qed

lemma settle_lines_effect:
  assumes "distinct (map sr_id (ag_runs (dy_agenda y)))" and "set ls \<subseteq> set (ag_runs (dy_agenda y))"
    and "distinct ls" and "list_all unsettled ls"
  shows "snd (settle_lines clock ls y)
    = with_lines y (map (\<lambda>q. if q \<in> set ls then settled_line clock y q else q) (ag_runs (dy_agenda y)))"
  using assms
proof (induction ls arbitrary: y)
  case (Cons l ls)
  let ?runs = "ag_runs (dy_agenda y)"
  define runs1 where "runs1 = map (\<lambda>q. if q = l then settled_line clock y l else q) ?runs"
  have l: "l \<in> set ?runs" "unsettled l" and ls: "set ls \<subseteq> set ?runs" "list_all unsettled ls" "l \<notin> set ls" "distinct ls"
    using Cons.prems by auto
  have one: "snd (settle_line clock l y) = with_lines y runs1"
    unfolding runs1_def by (rule settle_line_effect [OF Cons.prems(1) l])
  have ids: "map sr_id runs1 = map sr_id ?runs" by (simp add: runs1_def)
  have only: "q = l" if "q \<in> set ?runs" "sr_id q = sr_id l" for q
    using Cons.prems(1) l(1) that by (auto simp: distinct_map dest: inj_onD)
  have here: "set ls \<subseteq> set runs1" using ls(1,3) by (auto simp: runs1_def image_iff)
  have new: "settled_line clock y l \<notin> set ls"
  proof
    assume "settled_line clock y l \<in> set ls"
    then have "settled_line clock y l = l" using only ls(1) by auto
    then show False using \<open>settled_line clock y l \<in> set ls\<close> ls(3) by simp
  qed
  have "snd (settle_lines clock (l # ls) y) = snd (settle_lines clock ls (with_lines y runs1))"
    using one by (cases "settle_line clock l y") (auto split: prod.splits)
  also have "\<dots> = with_lines y (map (\<lambda>q. if q \<in> set ls then settled_line clock y q else q) runs1)"
    using Cons.IH [of "with_lines y runs1"] Cons.prems(1) ids here ls by (simp cong: if_cong)
  also have "map (\<lambda>q. if q \<in> set ls then settled_line clock y q else q) runs1
      = map (\<lambda>q. if q \<in> set (l # ls) then settled_line clock y q else q) ?runs"
    using new ls(3) by (auto simp: runs1_def)
  finally show ?case .
qed simp

text \<open>Afterwards a line that is not settled has nothing more to say for now.\<close>

definition quiet_line :: "diary \<Rightarrow> schedule_run_row \<Rightarrow> bool" where
  "quiet_line y l \<longleftrightarrow>
    (case find_schedule (sr_schedule l) (dy_agenda y) of
       None \<Rightarrow> True
     | Some r \<Rightarrow>
         (case sr_run l of
            None \<Rightarrow> False
          | Some i \<Rightarrow>
              (case run_ending r i y of None \<Rightarrow> True | Some (status, reason, waiting) \<Rightarrow> waiting \<and> sr_told_waiting l)))"

lemma quiet_settle: "quiet_line y l \<Longrightarrow> settle_line clock l y = ((False, []), y)"
  by (auto simp: quiet_line_def settle_line_def split: option.splits)

lemma quiet_settle_lines: "list_all (quiet_line y) ls \<Longrightarrow> settle_lines clock ls y = ((False, []), y)"
  by (induction ls) (simp_all add: quiet_settle)

lemma settled_line_quiet:
  assumes "unsettled l" and "unsettled (settled_line clock y l)"
  shows "quiet_line y (settled_line clock y l)"
  using assms by (auto simp: quiet_line_def settled_line_def unsettled_def split: option.splits bool.splits)

lemma quiet_with_lines [simp]: "quiet_line (with_lines y ls) l = quiet_line y l"
  unfolding quiet_line_def ending_with_lines find_with_lines ..

section \<open>Properties\<close>


section \<open>Witnesses\<close>

text \<open>A run that a schedule started, and that failed since.\<close>

definition example_failed :: diary where
  "example_failed =
    (let y = snd (fire example_office (''r'', ''l'') 10 10000000 example_row example_due)
     in y\<lparr>dy_agenda := (dy_agenda y)\<lparr>ag_tables := snd (finish_workflow_run ''r'' ''failed'' (Some ''no'') 20 (ag_tables (dy_agenda y)))\<rparr>\<rparr>)"


end
