(* ===== verification/Wire.thy ===== *)
theory Wire
  imports Yaml
begin

text \<open>
  What crosses between devices, hosts and the server, from \<open>crates/remote-proto\<close>: \<open>ids.rs\<close>,
  \<open>grant.rs\<close>, \<open>account.rs\<close>, \<open>pairing.rs\<close> and the errors of \<open>lib.rs\<close>, with the checks each message
  makes of itself.  Serde's reading and writing of them is not modelled; a secret is its text.  The
  lemmas show that a pairing code is read back however it is typed, and stands for its random bytes.
\<close>

section \<open>Errors\<close>

datatype error_code =
    CodeUnauthenticated | CodeForbidden | CodeNotFound | CodeHostOffline | CodeSessionEnded
  | CodeControlConflict | CodeLeaseLost | CodeResnapshotRequired | CodeCursorExpired | CodeRateLimited
  | CodeProtocolIncompatible | CodeInvalidRequest | CodeUnsupported | CodeInternal | CodeUnknown

definition retryable :: "error_code \<Rightarrow> bool" where
  "retryable c \<longleftrightarrow> c = CodeHostOffline \<or> c = CodeRateLimited \<or> c = CodeInternal"

record remote_error =
  re_code :: error_code
  re_message :: string
  re_retryable :: bool
  re_protocols :: "nat list option"

definition remote_error_new :: "error_code \<Rightarrow> string \<Rightarrow> remote_error" where
  "remote_error_new c m = \<lparr>re_code = c, re_message = m, re_retryable = retryable c, re_protocols = None\<rparr>"

definition PROTOCOL_MAJOR :: nat where "PROTOCOL_MAJOR = 1"
definition PROTOCOL_MINOR :: nat where "PROTOCOL_MINOR = 5"

definition remote_incompatible :: remote_error where
  "remote_incompatible =
    (remote_error_new CodeProtocolIncompatible
      ''This host speaks a different version of the remote protocol. Update the app that is older.'')
      \<lparr>re_protocols := Some [PROTOCOL_MAJOR]\<rparr>"

definition remote_not_found :: remote_error where
  "remote_not_found = remote_error_new CodeNotFound ''There is nothing by that id here.''"

definition invalid_request :: "string \<Rightarrow> remote_error" where
  "invalid_request m = remote_error_new CodeInvalidRequest m"

record protocol_version =
  pv_major :: nat
  pv_minor :: nat

record hello =
  he_client :: string
  he_protocols :: "nat list"

definition MAX_CLIENT_NAME :: nat where "MAX_CLIENT_NAME = 128"

definition negotiate :: "hello \<Rightarrow> remote_error + protocol_version" where
  "negotiate h =
    (if MAX_CLIENT_NAME < length (he_client h) \<or> 16 < length (he_protocols h)
     then Inl (invalid_request ''The greeting is larger than any client sends.'')
     else if PROTOCOL_MAJOR \<in> set (he_protocols h) then Inr \<lparr>pv_major = PROTOCOL_MAJOR, pv_minor = PROTOCOL_MINOR\<rparr>
     else Inl remote_incompatible)"

section \<open>Ids and scopes\<close>

definition MAX_ID_LEN :: nat where "MAX_ID_LEN = 128"

datatype id_error = IdEmpty | IdTooLong | IdBadCharacter

definition check_id :: "string \<Rightarrow> id_error option" where
  "check_id s =
    (if s = [] then Some IdEmpty
     else if MAX_ID_LEN < length s then Some IdTooLong
     else if \<not> list_all (\<lambda>c. is_ascii_alphanumeric c \<or> c \<in> {CHR ''-'', CHR ''_'', CHR ''.'', CHR '':''}) s
     then Some IdBadCharacter else None)"

datatype scope =
    WorkspaceRead | ActivityRead | MemoryRead | TerminalRead | TerminalControl | DeviceManage

text \<open>What a grant reaches; a set of ids is a list of them.\<close>

datatype project_grant = AllProjects | OnlyProjects "string list"

record device_grant =
  dg_device :: string
  dg_scopes :: "scope list"
  dg_projects :: project_grant

definition grant_allows :: "device_grant \<Rightarrow> scope \<Rightarrow> bool" where
  "grant_allows g s \<longleftrightarrow> s \<in> set (dg_scopes g)"

definition grant_reaches :: "device_grant \<Rightarrow> string \<Rightarrow> bool" where
  "grant_reaches g p = (case dg_projects g of AllProjects \<Rightarrow> True | OnlyProjects ps \<Rightarrow> p \<in> set ps)"

section \<open>Signing in\<close>

definition CHALLENGE_LEN :: nat where "CHALLENGE_LEN = 43"
definition MIN_VERIFIER_LEN :: nat where "MIN_VERIFIER_LEN = 43"
definition MAX_VERIFIER_LEN :: nat where "MAX_VERIFIER_LEN = 128"
definition MAX_REDIRECT_LEN :: nat where "MAX_REDIRECT_LEN = 512"
definition MAX_SECRET_LEN :: nat where "MAX_SECRET_LEN = 256"
definition MAX_TEXT :: nat where "MAX_TEXT = 256"

datatype device_kind = KindPhone | KindComputer | KindHost | KindOther

datatype platform = Linux | Macos | Windows | Ios | Android | OtherPlatform

record new_device =
  nd_name :: string
  nd_kind :: device_kind
  nd_platform :: platform

record login_params =
  lp_challenge :: string
  lp_method :: string
  lp_redirect :: string

datatype token_request =
    SignIn string string new_device
  | RefreshWith string

record credentials =
  cr_device :: string
  cr_access :: string
  cr_expires_in :: int
  cr_refresh :: string

definition unreserved :: "string \<Rightarrow> bool" where
  "unreserved s \<longleftrightarrow> list_all (\<lambda>c. is_ascii_alphanumeric c \<or> c \<in> {CHR ''-'', CHR ''.'', CHR ''_'', CHR ''~''}) s"

text \<open>\<open>char::is_control\<close> on the bytes of a text: the characters below space, \<open>U+007F\<close>, and \<open>U+0080\<close> to
  \<open>U+009F\<close>, which are two bytes each.\<close>

fun has_control :: "string \<Rightarrow> bool" where
  "has_control [] = False"
| "has_control (c # cs) \<longleftrightarrow>
    of_char c < (32 :: nat) \<or> of_char c = (127 :: nat)
    \<or> (of_char c = (194 :: nat) \<and> (case cs of d # _ \<Rightarrow> of_char d < (160 :: nat) | [] \<Rightarrow> False))
    \<or> has_control cs"

definition one_line_name :: "string \<Rightarrow> bool" where
  "one_line_name s \<longleftrightarrow> (let n = trim s in n \<noteq> [] \<and> char_count n \<le> MAX_TEXT \<and> \<not> has_control n)"

definition login_wrong :: "login_params \<Rightarrow> remote_error option" where
  "login_wrong p =
    (if lp_method p \<noteq> ''S256'' then Some (invalid_request ''Only S256 challenges are accepted.'')
     else if length (lp_challenge p) \<noteq> CHALLENGE_LEN \<or> \<not> unreserved (lp_challenge p)
     then Some (invalid_request ''The challenge is not an S256 challenge.'')
     else if lp_redirect p = [] \<or> MAX_REDIRECT_LEN < length (lp_redirect p)
     then Some (invalid_request ''The redirect is missing or too long.'') else None)"

fun token_wrong :: "token_request \<Rightarrow> remote_error option" where
  "token_wrong (SignIn code verifier d) =
    (if code = [] \<or> MAX_SECRET_LEN < length code
     then Some (invalid_request ''The sign-in code is missing or too long.'')
     else if \<not> (MIN_VERIFIER_LEN \<le> length verifier \<and> length verifier \<le> MAX_VERIFIER_LEN) \<or> \<not> unreserved verifier
     then Some (invalid_request ''The verifier is not a PKCE verifier.'')
     else if \<not> one_line_name (nd_name d)
     then Some (invalid_request ''A device name is one line of at most 256 characters.'') else None)"
| "token_wrong (RefreshWith refresh) =
    (if refresh = [] \<or> MAX_SECRET_LEN < length refresh
     then Some (invalid_request ''The refresh credential is missing or too long.'') else None)"

record device_summary =
  ds_id :: string
  ds_name :: string
  ds_kind :: device_kind
  ds_platform :: platform
  ds_created :: int
  ds_seen :: "int option"
  ds_revoked :: "int option"
  ds_current :: bool

section \<open>Pairing\<close>

definition OFFER_TTL_MS :: int where "OFFER_TTL_MS = 5 * 60000"
definition MAX_OFFER_MISSES :: int where "MAX_OFFER_MISSES = 5"
definition CODE_LEN :: nat where "CODE_LEN = 8"
definition MAX_GRANT_PROJECTS :: nat where "MAX_GRANT_PROJECTS = 200"

definition CODE_ALPHABET :: string where "CODE_ALPHABET = ''0123456789ABCDEFGHJKMNPQRSTVWXYZ''"

record host_registration =
  hr_host :: "string option"
  hr_name :: string

record host_summary =
  hs_id :: string
  hs_name :: string
  hs_created :: int
  hs_seen :: "int option"
  hs_current :: bool

record pairing_offer =
  ol_secret :: string
  ol_code :: string
  ol_expires_in :: int

datatype offer_key = OfferSecret string | OfferCode string

record pairing_request =
  pq_offer :: offer_key
  pq_scopes :: "scope list"

record grant_decision =
  gd_scopes :: "scope list"
  gd_projects :: project_grant

datatype grant_state =
    ShownPending | ShownApproved | ShownDenied | ShownExpired | ShownRevoked | ShownUnknown

record grant_summary =
  gs_id :: string
  gs_host :: string
  gs_host_name :: string
  gs_device :: string
  gs_device_name :: string
  gs_state :: grant_state
  gs_requested :: "scope list"
  gs_scopes :: "scope list"
  gs_projects :: "project_grant option"
  gs_created :: int
  gs_decided :: "int option"
  gs_expires_in :: "int option"

text \<open>Five random bytes as eight characters, five bits each.\<close>

definition code_bits :: "bytes \<Rightarrow> u64" where
  "code_bits bs = foldl (\<lambda>acc b. push_bit 8 acc OR ucast b) 0 bs"

definition format_code :: "bytes \<Rightarrow> string" where
  "format_code bs =
    map (\<lambda>i. CODE_ALPHABET ! unat (drop_bit (i * 5) (code_bits bs) AND 31)) (rev [0..<CODE_LEN])"

definition to_ascii_upper :: "char \<Rightarrow> char" where
  "to_ascii_upper c = (let n = of_char c :: nat in if 97 \<le> n \<and> n \<le> 122 then char_of (n - 32) else c)"

text \<open>A typed code, character by character, after what was read of it so far.\<close>

fun normalize_from :: "string \<Rightarrow> string \<Rightarrow> string option" where
  "normalize_from code [] = (if length code = CODE_LEN then Some code else None)"
| "normalize_from code (c # cs) =
    (let u = to_ascii_upper c in
     if u = CHR ''-'' \<or> u = CHR '' '' then normalize_from code cs
     else let d = (if u = CHR ''O'' then CHR ''0'' else if u = CHR ''I'' \<or> u = CHR ''L'' then CHR ''1'' else u) in
       if d \<notin> set CODE_ALPHABET \<or> length code = CODE_LEN then None else normalize_from (code @ [d]) cs)"

definition normalize_code :: "string \<Rightarrow> string option" where
  "normalize_code typed = normalize_from [] typed"

definition display_code :: "string \<Rightarrow> string" where
  "display_code code =
    (case normalize_code code of Some c \<Rightarrow> take 4 c @ ''-'' @ drop 4 c | None \<Rightarrow> code)"

definition name_wrong :: "string \<Rightarrow> string \<Rightarrow> remote_error option" where
  "name_wrong name what =
    (if one_line_name name then None
     else Some (invalid_request (what @ '' is one line of at most 256 characters.'')))"

definition registration_wrong :: "host_registration \<Rightarrow> remote_error option" where
  "registration_wrong r = name_wrong (hr_name r) ''A host name''"

definition pairing_wrong :: "pairing_request \<Rightarrow> remote_error option" where
  "pairing_wrong q =
    (case (case pq_offer q of
         OfferSecret s \<Rightarrow>
           if s = [] \<or> MAX_SECRET_LEN < length s
           then Some (invalid_request ''The pairing secret is missing or too long.'') else None
       | OfferCode c \<Rightarrow>
           if normalize_code c = None
           then Some (invalid_request ''A pairing code is eight letters and digits, like ABCD-EFGH.'') else None) of
       Some err \<Rightarrow> Some err
     | None \<Rightarrow> if pq_scopes q = [] then Some (invalid_request ''A pairing asks for at least one scope.'') else None)"

definition decision_wrong :: "grant_decision \<Rightarrow> scope list \<Rightarrow> remote_error option" where
  "decision_wrong d requested =
    (if gd_scopes d = [] then Some (invalid_request ''An approval gives at least one scope.'')
     else if \<not> set (gd_scopes d) \<subseteq> set requested
     then Some (invalid_request ''An approval cannot give more than the device asked for.'')
     else case gd_projects d of
         OnlyProjects ps \<Rightarrow>
           if ps = [] \<or> MAX_GRANT_PROJECTS < length ps
           then Some (invalid_request ''An approval names between one and 200 projects, or all of them.'') else None
       | AllProjects \<Rightarrow> None)"

section \<open>Codes\<close>

text \<open>What a person typed, without dashes and spaces, in capitals and with the digits they meant.\<close>

definition typed_digit :: "char \<Rightarrow> char" where
  "typed_digit c =
    (let u = to_ascii_upper c in
     if u = CHR ''O'' then CHR ''0'' else if u = CHR ''I'' \<or> u = CHR ''L'' then CHR ''1'' else u)"

definition typed_digits :: "string \<Rightarrow> string" where
  "typed_digits typed = map typed_digit (filter (\<lambda>c. c \<noteq> CHR ''-'' \<and> c \<noteq> CHR '' '') typed)"

lemma upper_separator: "to_ascii_upper c = CHR ''-'' \<longleftrightarrow> c = CHR ''-''" "to_ascii_upper c = CHR '' '' \<longleftrightarrow> c = CHR '' ''"
proof -
  have "to_ascii_upper c = d \<longleftrightarrow> c = d" if "(of_char d :: nat) < 65" for d
  proof
    assume eq: "to_ascii_upper c = d"
    show "c = d"
    proof (cases "97 \<le> (of_char c :: nat) \<and> (of_char c :: nat) \<le> 122")
      case True
      then have "d = char_of (of_char c - 32 :: nat)" using eq by (simp add: to_ascii_upper_def)
      moreover have "(of_char c :: nat) - 32 < 256" using True by linarith
      ultimately have "(of_char d :: nat) = of_char c - 32" by (simp add: of_char_of)
      then show ?thesis using True that by linarith
    next
      case False
      then show ?thesis using eq by (simp add: to_ascii_upper_def Let_def split: if_splits)
    qed
  next
    assume "c = d"
    then show "to_ascii_upper c = d" using that by (simp add: to_ascii_upper_def)
  qed
  from this [of "CHR ''-''"] this [of "CHR '' ''"]
  show "to_ascii_upper c = CHR ''-'' \<longleftrightarrow> c = CHR ''-''" "to_ascii_upper c = CHR '' '' \<longleftrightarrow> c = CHR '' ''" by simp_all
qed

lemma normalize_from_alt:
  "length code \<le> CODE_LEN \<Longrightarrow>
    normalize_from code typed
      = (if length (code @ typed_digits typed) = CODE_LEN \<and> set (typed_digits typed) \<subseteq> set CODE_ALPHABET
         then Some (code @ typed_digits typed) else None)"
proof (induction code typed rule: normalize_from.induct)
  case (1 code)
  then show ?case by (simp add: typed_digits_def)
next
  case (2 code c cs)
  show ?case
  proof (cases "c = CHR ''-'' \<or> c = CHR '' ''")
    case True
    then show ?thesis using 2 by (auto simp: typed_digits_def upper_separator Let_def)
  next
    case False
    have digits: "typed_digits (c # cs) = typed_digit c # typed_digits cs" using False by (simp add: typed_digits_def)
    show ?thesis
    proof (cases "typed_digit c \<notin> set CODE_ALPHABET \<or> length code = CODE_LEN")
      case True
      then have "normalize_from code (c # cs) = None"
        using False by (simp add: upper_separator typed_digit_def Let_def)
      then show ?thesis using True digits by auto
    next
      case here: False
      have "normalize_from code (c # cs) = normalize_from (code @ [typed_digit c]) cs"
        using False here by (simp add: upper_separator typed_digit_def Let_def)
      also have "\<dots> = (if length ((code @ [typed_digit c]) @ typed_digits cs) = CODE_LEN \<and> set (typed_digits cs) \<subseteq> set CODE_ALPHABET
          then Some ((code @ [typed_digit c]) @ typed_digits cs) else None)"
        using 2(2) [OF refl] False here 2(3) by (simp add: upper_separator typed_digit_def Let_def)
      finally show ?thesis using digits here by simp
    qed
  qed
qed

lemma normalize_code_alt:
  "normalize_code typed
    = (if length (typed_digits typed) = CODE_LEN \<and> set (typed_digits typed) \<subseteq> set CODE_ALPHABET
       then Some (typed_digits typed) else None)"
  using normalize_from_alt [of "[]" typed] by (simp add: normalize_code_def)

lemma alphabet_digit: "c \<in> set CODE_ALPHABET \<Longrightarrow> typed_digit c = c \<and> c \<noteq> CHR ''-'' \<and> c \<noteq> CHR '' ''"
proof -
  have "list_all (\<lambda>c. typed_digit c = c \<and> c \<noteq> CHR ''-'' \<and> c \<noteq> CHR '' '') CODE_ALPHABET" by code_simp
  then show "c \<in> set CODE_ALPHABET \<Longrightarrow> typed_digit c = c \<and> c \<noteq> CHR ''-'' \<and> c \<noteq> CHR '' ''" by (simp add: list_all_iff)
qed

lemma alphabet_digits: "set s \<subseteq> set CODE_ALPHABET \<Longrightarrow> typed_digits s = s"
  using alphabet_digit by (induction s) (auto simp: typed_digits_def)

lemma alphabet_props: "length CODE_ALPHABET = 32" "distinct CODE_ALPHABET"
  by code_simp+

lemma five_bits: "unat (x AND 31 :: u64) < 32"
proof -
  have "x AND 31 \<le> 31" by (rule word_and_le1)
  then show ?thesis by (simp add: word_le_nat_alt)
qed

lemma format_code_props: "length (format_code bs) = CODE_LEN" "set (format_code bs) \<subseteq> set CODE_ALPHABET"
  using five_bits by (auto simp: format_code_def alphabet_props intro!: nth_mem)

lemma display_format: "typed_digits (display_code (format_code bs)) = format_code bs"
proof -
  let ?c = "format_code bs"
  have "normalize_code ?c = Some ?c"
    using format_code_props [of bs] by (simp add: normalize_code_alt alphabet_digits)
  then have "display_code ?c = take 4 ?c @ ''-'' @ drop 4 ?c" by (simp add: display_code_def)
  then have "typed_digits (display_code ?c) = typed_digits (take 4 ?c) @ typed_digits (drop 4 ?c)"
    by (simp add: typed_digits_def)
  moreover have "set (take 4 ?c) \<subseteq> set CODE_ALPHABET" "set (drop 4 ?c) \<subseteq> set CODE_ALPHABET"
    using format_code_props(2) [of bs] set_take_subset set_drop_subset by fast+
  ultimately show ?thesis by (simp add: alphabet_digits)
qed

lemma code_bits_byte:
  assumes "length bs = 5" and "i < 5"
  shows "bs ! i = ucast (drop_bit (8 * (4 - i)) (code_bits bs))"
proof -
  obtain a b c d e where bs: "bs = [a, b, c, d, e]"
    using assms(1) by (auto simp: length_Suc_conv numeral_eq_Suc)
  have above: "\<not> bit (x :: byte) (8 + n)" "\<not> bit x (16 + n)" "\<not> bit x (24 + n)" "\<not> bit x (32 + n)" for x n
    by (auto dest: bit_imp_le_length)
  have "i = 0 \<or> i = 1 \<or> i = 2 \<or> i = 3 \<or> i = 4" using assms(2) by linarith
  then show ?thesis
    by (elim disjE) (auto simp: bs code_bits_def bit_simps above intro!: bit_word_eqI)
qed

lemma code_bits_small: "length bs = 5 \<Longrightarrow> bit (code_bits bs) n \<Longrightarrow> n < 40"
proof -
  assume len: "length bs = 5" and set_bit: "bit (code_bits bs) n"
  obtain a b c d e where "bs = [a, b, c, d, e]" using len by (auto simp: length_Suc_conv numeral_eq_Suc)
  then show "n < 40" using set_bit by (auto simp: code_bits_def bit_simps dest!: bit_imp_le_length)
qed

lemma format_code_inj:
  assumes "length bs = 5" and "length bs' = 5" and "format_code bs = format_code bs'"
  shows "bs = bs'"
proof -
  let ?x = "code_bits bs" and ?y = "code_bits bs'"
  have digit: "drop_bit (i * 5) ?x AND 31 = drop_bit (i * 5) ?y AND 31" if "i < 8" for i
  proof -
    have "i \<in> set (rev [0..<CODE_LEN])" using that by (simp add: CODE_LEN_def)
    then have "CODE_ALPHABET ! unat (drop_bit (i * 5) ?x AND 31) = CODE_ALPHABET ! unat (drop_bit (i * 5) ?y AND 31)"
      using assms(3) unfolding format_code_def by (auto simp: map_eq_conv)
    then have "unat (drop_bit (i * 5) ?x AND 31) = unat (drop_bit (i * 5) ?y AND 31)"
      using five_bits alphabet_props by (simp add: nth_eq_iff_index_eq)
    then show ?thesis by (simp only: word_unat_eq_iff)
  qed
  have "bit ?x n = bit ?y n" for n
  proof (cases "n < 40")
    case True
    have "bit (drop_bit (n div 5 * 5) ?x AND 31) (n mod 5) = bit (drop_bit (n div 5 * 5) ?y AND 31) (n mod 5)"
      using digit [of "n div 5"] True by (simp add: div_less_iff_less_mult)
    moreover have "bit (31 :: u64) (n mod 5)"
    proof -
      have "bit (mask 5 :: u64) (n mod 5)" by (simp only: bit_mask_iff) simp
      moreover have "mask 5 = (31 :: u64)" by (simp add: mask_eq_exp_minus_1)
      ultimately show ?thesis by simp
    qed
    moreover have "n div 5 * 5 + n mod 5 = n" by simp
    ultimately show ?thesis by (simp add: bit_and_iff bit_drop_bit_eq)
  next
    case False
    then show ?thesis using code_bits_small assms by blast
  qed
  then have "?x = ?y" by (rule bit_word_eqI)
  then show ?thesis
    using assms(1,2) code_bits_byte by (metis nth_equalityI)
qed

section \<open>Properties\<close>

text \<open>
  C28. The code an offer is shown with is read back as it is kept, and so is whatever a person types that
  has its letters and digits, in any case, with any dashes and spaces, and O, I and L for 0 and 1; nothing
  else is taken for it; and different random bytes have different codes.
\<close>

theorem pairing_codes_are_read_back:
  assumes "length bs = 5" and "length bs' = 5"
  shows "normalize_code (display_code (format_code bs)) = Some (format_code bs)
    \<and> (normalize_code typed = Some (format_code bs)) = (typed_digits typed = format_code bs)
    \<and> (format_code bs = format_code bs') = (bs = bs')"
proof (intro conjI)
  show "normalize_code (display_code (format_code bs)) = Some (format_code bs)"
    using format_code_props [of bs] by (simp add: normalize_code_alt display_format)
  show "(normalize_code typed = Some (format_code bs)) = (typed_digits typed = format_code bs)"
    using format_code_props [of bs] by (auto simp: normalize_code_alt)
  show "(format_code bs = format_code bs') = (bs = bs')"
    using format_code_inj [OF assms] by blast
qed

theorem pairing_codes_are_read_back_witness:
  "format_code [222, 173, 190, 239, 1] = ''VTPVXVR1'' \<and> normalize_code '' vtpv-xvrI'' = Some (format_code [222, 173, 190, 239, 1])
    \<and> normalize_code (display_code (format_code [222, 173, 190, 239, 1])) = Some (format_code [222, 173, 190, 239, 1])"
proof -
  have "format_code [222, 173, 190, 239, 1] = ''VTPVXVR1''" by code_simp
  moreover have "typed_digits '' vtpv-xvrI'' = ''VTPVXVR1''" by code_simp
  moreover have "length [222, 173, 190, 239, 1 :: byte] = 5" by simp
  ultimately show ?thesis
    using pairing_codes_are_read_back [where bs = "[222, 173, 190, 239, 1]" and bs' = "[222, 173, 190, 239, 1]"
      and typed = "'' vtpv-xvrI''"] by simp
qed

end
