(* ===== verification/Records.thy ===== *)
theory Records
  imports Wire "HOL-Library.AList"
begin

text \<open>
  \<open>crates/server/src/records.rs\<close>: what the control service keeps, and each method of the trait
  \<open>Records\<close> as \<open>MemoryRecords\<close> has it.  The methods take one lock each, so a method is a function
  from a vault to its result and the vault after it; none of them panics, so the lock is never
  poisoned and none of them fails.  A hash map is an association list, a credential's hash is a
  text, and the ids of new rows are arguments.  The floating point of the rate limits is left out.
  The lemmas show how credentials descend from each other and what is never forgotten.
\<close>

section \<open>What is kept\<close>

type_synonym token_hash = string

record pending_login =
  pl_state :: token_hash
  pl_nonce :: token_hash
  pl_verifier :: string
  pl_challenge :: string
  pl_redirect :: string
  pl_expires :: int

record handoff =
  ha_code :: token_hash
  ha_account :: string
  ha_challenge :: string
  ha_expires :: int

datatype revoke_reason = ByOwner | RefreshReused | ByOperator

record revoked =
  rv_at :: int
  rv_reason :: revoke_reason

record device =
  dv_id :: string
  dv_account :: string
  dv_name :: string
  dv_kind :: device_kind
  dv_platform :: platform
  dv_created :: int
  dv_seen :: "int option"
  dv_revoked :: "revoked option"

record issued =
  iu_access :: token_hash
  iu_access_expires :: int
  iu_refresh :: token_hash
  iu_refresh_expires :: int

datatype rotation =
    Rotated device
  | Retried device
  | Reused string
  | RotationExpired
  | RotationRevoked
  | RotationUnknown

record host_row =
  hw_id :: string
  hw_account :: string
  hw_device :: string
  hw_name :: string
  hw_created :: int
  hw_seen :: "int option"

record host_offer =
  hf_host :: string
  hf_account :: string
  hf_secret :: token_hash
  hf_code :: token_hash
  hf_expires :: int

datatype redemption = Taken host_offer | Missed

datatype grant_status = GrantPending | GrantApproved | GrantDenied | GrantRevoked

record grant_row =
  ga_id :: string
  ga_account :: string
  ga_host :: string
  ga_device :: string
  ga_requested :: "scope list"
  ga_scopes :: "scope list"
  ga_projects :: "project_grant option"
  ga_status :: grant_status
  ga_created :: int
  ga_expires :: int
  ga_decided :: "int option"

record grant_view =
  gv_grant :: grant_row
  gv_host_name :: string
  gv_device_name :: string
  gv_device_revoked :: bool

datatype grant_filter = OneGrant string | OfHost string | ForDevice string

datatype decision = Approve "scope list" project_grant | Deny

definition SEEN_RESOLUTION_MS :: int where "SEEN_RESOLUTION_MS = 60000"

record link_place =
  ln_host :: string
  ln_instance :: string
  ln_link :: string
  ln_seen :: int

section \<open>Signals between instances\<close>

datatype signal = Recheck string | RecheckAll | PairingAsked string string | LinkNoted string

fun signal_encode :: "signal \<Rightarrow> string" where
  "signal_encode (Recheck account) = ''recheck '' @ account"
| "signal_encode RecheckAll = ''recheck-all''"
| "signal_encode (PairingAsked host grant) = ''pairing '' @ host @ '' '' @ grant"
| "signal_encode (LinkNoted host) = ''linked '' @ host"

definition id_of :: "string \<Rightarrow> string option" where
  "id_of s = (if check_id s = None then Some s else None)"

definition signal_decode :: "string \<Rightarrow> signal option" where
  "signal_decode content =
    (case split_char CHR '' '' content of
       [word] \<Rightarrow> if word = ''recheck-all'' then Some RecheckAll else None
     | [word, a] \<Rightarrow>
         if word = ''recheck'' \<and> a \<noteq> [] then Some (Recheck a)
         else if word = ''linked'' then map_option LinkNoted (id_of a) else None
     | [word, h, g] \<Rightarrow>
         if word = ''pairing''
         then (case (id_of h, id_of g) of (Some host, Some grant) \<Rightarrow> Some (PairingAsked host grant) | _ \<Rightarrow> None)
         else None
     | _ \<Rightarrow> None)"

section \<open>The vault\<close>

record access_row =
  ac_device :: string
  ac_expires :: int
  ac_used :: bool

record refresh_row =
  rf_device :: string
  rf_expires :: int
  rf_spent :: "int option"
  rf_successor :: "(token_hash \<times> token_hash) option"
  rf_retried :: bool

record vault =
  va_accounts :: "((string \<times> string) \<times> string) list"
  va_logins :: "pending_login list"
  va_handoffs :: "handoff list"
  va_devices :: "device list"
  va_access :: "(token_hash \<times> access_row) list"
  va_refresh :: "(token_hash \<times> refresh_row) list"
  va_hosts :: "(host_row \<times> int option) list"
  va_offers :: "(host_offer \<times> int) list"
  va_grants :: "grant_row list"
  va_links :: "(string \<times> link_place) list"
  va_signals :: "signal list"

definition empty_vault :: vault where
  "empty_vault = \<lparr>va_accounts = [], va_logins = [], va_handoffs = [], va_devices = [], va_access = [], va_refresh = [],
    va_hosts = [], va_offers = [], va_grants = [], va_links = [], va_signals = []\<rparr>"

text \<open>\<open>Iterator::position\<close>, \<open>Vec::swap_remove\<close>, and a change of the first that \<open>find\<close> would give.\<close>

fun position_of :: "('a \<Rightarrow> bool) \<Rightarrow> 'a list \<Rightarrow> nat option" where
  "position_of p [] = None"
| "position_of p (x # xs) = (if p x then Some 0 else map_option Suc (position_of p xs))"

definition swap_remove :: "nat \<Rightarrow> 'a list \<Rightarrow> 'a list" where
  "swap_remove i xs = (if Suc i = length xs then butlast xs else (butlast xs)[i := last xs])"

fun change_first :: "('a \<Rightarrow> bool) \<Rightarrow> ('a \<Rightarrow> 'a) \<Rightarrow> 'a list \<Rightarrow> 'a list" where
  "change_first p f [] = []"
| "change_first p f (x # xs) = (if p x then f x # xs else x # change_first p f xs)"

text \<open>Take the first match out, in the same step that reads it.\<close>

definition take_out :: "('a \<Rightarrow> bool) \<Rightarrow> 'a list \<Rightarrow> 'a option \<times> 'a list" where
  "take_out p xs =
    (case position_of p xs of Some i \<Rightarrow> (Some (xs ! i), swap_remove i xs) | None \<Rightarrow> (None, xs))"

section \<open>Accounts, sign-ins and devices\<close>

definition vault_account :: "string \<Rightarrow> string \<Rightarrow> string \<Rightarrow> vault \<Rightarrow> string \<times> vault" where
  "vault_account issuer subject fresh v =
    (case map_of (va_accounts v) (issuer, subject) of
       Some a \<Rightarrow> (a, v)
     | None \<Rightarrow> (fresh, v\<lparr>va_accounts := ((issuer, subject), fresh) # va_accounts v\<rparr>))"

definition put_login :: "pending_login \<Rightarrow> int \<Rightarrow> vault \<Rightarrow> vault" where
  "put_login l now v = v\<lparr>va_logins := filter (\<lambda>x. now < pl_expires x) (va_logins v) @ [l]\<rparr>"

definition take_login :: "token_hash \<Rightarrow> vault \<Rightarrow> pending_login option \<times> vault" where
  "take_login h v = (case take_out (\<lambda>l. pl_state l = h) (va_logins v) of (found, ls) \<Rightarrow> (found, v\<lparr>va_logins := ls\<rparr>))"

definition put_handoff :: "handoff \<Rightarrow> int \<Rightarrow> vault \<Rightarrow> vault" where
  "put_handoff h now v = v\<lparr>va_handoffs := filter (\<lambda>x. now < ha_expires x) (va_handoffs v) @ [h]\<rparr>"

definition take_handoff :: "token_hash \<Rightarrow> vault \<Rightarrow> handoff option \<times> vault" where
  "take_handoff c v = (case take_out (\<lambda>h. ha_code h = c) (va_handoffs v) of (found, hs) \<Rightarrow> (found, v\<lparr>va_handoffs := hs\<rparr>))"

definition issue_to :: "string \<Rightarrow> issued \<Rightarrow> vault \<Rightarrow> vault" where
  "issue_to d i v =
    v\<lparr>va_access := AList.update (iu_access i) \<lparr>ac_device = d, ac_expires = iu_access_expires i, ac_used = False\<rparr> (va_access v),
      va_refresh := AList.update (iu_refresh i)
        \<lparr>rf_device = d, rf_expires = iu_refresh_expires i, rf_spent = None, rf_successor = None, rf_retried = False\<rparr>
        (va_refresh v)\<rparr>"

definition add_device :: "device \<Rightarrow> issued \<Rightarrow> vault \<Rightarrow> vault" where
  "add_device d i v = (let v' = issue_to (dv_id d) i v in v'\<lparr>va_devices := va_devices v' @ [d]\<rparr>)"

definition find_device :: "string \<Rightarrow> vault \<Rightarrow> device option" where
  "find_device i v = find (\<lambda>d. dv_id d = i) (va_devices v)"

definition change_device :: "string \<Rightarrow> (device \<Rightarrow> device) \<Rightarrow> vault \<Rightarrow> vault" where
  "change_device i f v = v\<lparr>va_devices := change_first (\<lambda>d. dv_id d = i) f (va_devices v)\<rparr>"

text \<open>Whoever reads an access credential uses it.\<close>

definition read_access :: "token_hash \<Rightarrow> vault \<Rightarrow> (device \<times> int) option \<times> vault" where
  "read_access h v =
    (case map_of (va_access v) h of
       None \<Rightarrow> (None, v)
     | Some a \<Rightarrow>
         (map_option (\<lambda>d. (d, ac_expires a)) (find_device (ac_device a) v),
          v\<lparr>va_access := AList.update h (a\<lparr>ac_used := True\<rparr>) (va_access v)\<rparr>))"

definition REFRESH_RETRY_MS :: int where "REFRESH_RETRY_MS = 30000"

text \<open>Nothing that was issued in its place has been used.\<close>

definition successors_unused :: "refresh_row \<Rightarrow> vault \<Rightarrow> bool" where
  "successors_unused old v \<longleftrightarrow>
    (case rf_successor old of
       None \<Rightarrow> False
     | Some (r, a) \<Rightarrow>
         (case map_of (va_refresh v) r of Some x \<Rightarrow> rf_spent x = None | None \<Rightarrow> False)
         \<and> (case map_of (va_access v) a of Some x \<Rightarrow> \<not> ac_used x | None \<Rightarrow> False))"

definition drop_successors :: "refresh_row \<Rightarrow> vault \<Rightarrow> vault" where
  "drop_successors old v =
    (case rf_successor old of
       None \<Rightarrow> v
     | Some (r, a) \<Rightarrow> v\<lparr>va_refresh := AList.delete r (va_refresh v), va_access := AList.delete a (va_access v)\<rparr>)"

definition change_refresh :: "token_hash \<Rightarrow> (refresh_row \<Rightarrow> refresh_row) \<Rightarrow> vault \<Rightarrow> vault" where
  "change_refresh h f v =
    (case map_of (va_refresh v) h of None \<Rightarrow> v | Some x \<Rightarrow> v\<lparr>va_refresh := AList.update h (f x) (va_refresh v)\<rparr>)"

definition rotate_refresh :: "token_hash \<Rightarrow> issued \<Rightarrow> int \<Rightarrow> vault \<Rightarrow> rotation \<times> vault" where
  "rotate_refresh h i now v =
    (case map_of (va_refresh v) h of
       None \<Rightarrow> (RotationUnknown, v)
     | Some old \<Rightarrow>
     case find_device (rf_device old) v of
       None \<Rightarrow> (RotationUnknown, v)
     | Some d \<Rightarrow>
         if dv_revoked d \<noteq> None then (RotationRevoked, v)
         else case rf_spent old of
           Some spent \<Rightarrow>
             if \<not> rf_retried old \<and> now - spent < REFRESH_RETRY_MS \<and> successors_unused old v
             then (Retried d,
               issue_to (dv_id d) i
                 (change_refresh h (\<lambda>x. x\<lparr>rf_retried := True, rf_successor := Some (iu_refresh i, iu_access i)\<rparr>)
                   (drop_successors old v)))
             else (Reused (dv_account d),
               change_device (rf_device old) (\<lambda>x. x\<lparr>dv_revoked := Some \<lparr>rv_at = now, rv_reason = RefreshReused\<rparr>\<rparr>) v)
         | None \<Rightarrow>
             if rf_expires old \<le> now then (RotationExpired, v)
             else (Rotated d,
               issue_to (dv_id d) i
                 (change_refresh h (\<lambda>x. x\<lparr>rf_spent := Some now, rf_successor := Some (iu_refresh i, iu_access i)\<rparr>) v)))"

definition note_seen :: "string \<Rightarrow> int \<Rightarrow> vault \<Rightarrow> vault" where
  "note_seen i now v =
    change_device i (\<lambda>d.
      if (case dv_seen d of None \<Rightarrow> True | Some at \<Rightarrow> at \<le> now - SEEN_RESOLUTION_MS) then d\<lparr>dv_seen := Some now\<rparr> else d) v"

definition devices_of :: "string \<Rightarrow> vault \<Rightarrow> device list" where
  "devices_of a v = filter (\<lambda>d. dv_account d = a) (va_devices v)"

definition live_refresh :: "string \<Rightarrow> int \<Rightarrow> refresh_row \<Rightarrow> bool" where
  "live_refresh i now r \<longleftrightarrow> rf_device r = i \<and> rf_spent r = None \<and> now < rf_expires r"

definition signed_in_devices :: "string \<Rightarrow> int \<Rightarrow> vault \<Rightarrow> nat" where
  "signed_in_devices a now v =
    length (filter (\<lambda>d. dv_account d = a \<and> dv_revoked d = None
      \<and> list_ex (\<lambda>(_, r). live_refresh (dv_id d) now r) (va_refresh v)) (va_devices v))"

definition revoke_device :: "string \<Rightarrow> string \<Rightarrow> revoked \<Rightarrow> vault \<Rightarrow> bool \<times> vault" where
  "revoke_device a i why v =
    (case find_device i v of
       Some d \<Rightarrow>
         if dv_account d = a
         then (True, change_device i (\<lambda>x. x\<lparr>dv_revoked := (case dv_revoked x of None \<Rightarrow> Some why | was \<Rightarrow> was)\<rparr>) v)
         else (False, v)
     | None \<Rightarrow> (False, v))"

definition revoke_account :: "string \<Rightarrow> string \<Rightarrow> revoked \<Rightarrow> vault \<Rightarrow> nat option \<times> vault" where
  "revoke_account issuer subject why v =
    (case map_of (va_accounts v) (issuer, subject) of
       None \<Rightarrow> (None, v)
     | Some a \<Rightarrow>
         (Some (length (filter (\<lambda>d. dv_account d = a \<and> dv_revoked d = None) (va_devices v))),
          v\<lparr>va_devices := map (\<lambda>d. if dv_account d = a \<and> dv_revoked d = None then d\<lparr>dv_revoked := Some why\<rparr> else d)
            (va_devices v)\<rparr>))"

section \<open>Hosts, offers and grants\<close>

definition add_host :: "host_row \<Rightarrow> vault \<Rightarrow> vault" where
  "add_host h v = v\<lparr>va_hosts := va_hosts v @ [(h, None)]\<rparr>"

definition host_is :: "string \<Rightarrow> string \<Rightarrow> host_row \<times> int option \<Rightarrow> bool" where
  "host_is a i = (\<lambda>(h, removed). hw_id h = i \<and> hw_account h = a \<and> removed = None)"

text \<open>A host was last seen when its device was.\<close>

definition find_host :: "string \<Rightarrow> string \<Rightarrow> vault \<Rightarrow> host_row option" where
  "find_host a i v =
    (case find (host_is a i) (va_hosts v) of
       None \<Rightarrow> None
     | Some (h, _) \<Rightarrow> Some (h\<lparr>hw_seen := (case find_device (hw_device h) v of Some d \<Rightarrow> dv_seen d | None \<Rightarrow> None)\<rparr>))"

definition rebind_host :: "string \<Rightarrow> string \<Rightarrow> string \<Rightarrow> string \<Rightarrow> vault \<Rightarrow> host_row option \<times> vault" where
  "rebind_host a i d name v =
    (case find (host_is a i) (va_hosts v) of
       None \<Rightarrow> (None, v)
     | Some _ \<Rightarrow>
         let v' = v\<lparr>va_hosts := change_first (host_is a i) (\<lambda>(h, removed). (h\<lparr>hw_device := d, hw_name := name\<rparr>, removed))
           (va_hosts v)\<rparr>
         in (find_host a i v', v'))"

definition hosts_of :: "string \<Rightarrow> vault \<Rightarrow> host_row list" where
  "hosts_of a v = List.map_filter (\<lambda>(h, _). find_host a (hw_id h) v) (va_hosts v)"

definition put_offer :: "host_offer \<Rightarrow> int \<Rightarrow> vault \<Rightarrow> vault" where
  "put_offer f now v =
    v\<lparr>va_offers := filter (\<lambda>(x, _). now < hf_expires x \<and> hf_host x \<noteq> hf_host f) (va_offers v) @ [(f, 0)]\<rparr>"

definition offer_open :: "string \<Rightarrow> int \<Rightarrow> host_offer \<times> int \<Rightarrow> bool" where
  "offer_open a now = (\<lambda>(x, misses). hf_account x = a \<and> now < hf_expires x \<and> misses < MAX_OFFER_MISSES)"

definition redeem_offer :: "string \<Rightarrow> token_hash \<Rightarrow> int \<Rightarrow> vault \<Rightarrow> redemption \<times> vault" where
  "redeem_offer a key now v =
    (case take_out (\<lambda>x. offer_open a now x \<and> (hf_secret (fst x) = key \<or> hf_code (fst x) = key)) (va_offers v) of
       (Some (x, _), offers) \<Rightarrow> (Taken x, v\<lparr>va_offers := offers\<rparr>)
     | (None, _) \<Rightarrow>
         (Missed, v\<lparr>va_offers := map (\<lambda>x. if offer_open a now x then (fst x, snd x + 1) else x) (va_offers v)\<rparr>))"

definition add_grant :: "grant_row \<Rightarrow> vault \<Rightarrow> vault" where
  "add_grant g v = v\<lparr>va_grants := va_grants v @ [g]\<rparr>"

definition view_grant :: "vault \<Rightarrow> grant_row \<Rightarrow> grant_view" where
  "view_grant v g =
    (let d = find_device (ga_device g) v in
     \<lparr>gv_grant = g,
      gv_host_name = (case find (\<lambda>(h, _). hw_id h = ga_host g) (va_hosts v) of Some (h, _) \<Rightarrow> hw_name h | None \<Rightarrow> []),
      gv_device_name = (case d of Some x \<Rightarrow> dv_name x | None \<Rightarrow> []),
      gv_device_revoked = (case d of Some x \<Rightarrow> dv_revoked x \<noteq> None | None \<Rightarrow> True)\<rparr>)"

fun grant_matches :: "grant_filter \<Rightarrow> grant_row \<Rightarrow> bool" where
  "grant_matches (OneGrant i) g = (ga_id g = i)"
| "grant_matches (OfHost h) g = (ga_host g = h)"
| "grant_matches (ForDevice d) g = (ga_device g = d)"

definition grants_of :: "string \<Rightarrow> grant_filter \<Rightarrow> vault \<Rightarrow> grant_view list" where
  "grants_of a f v =
    sort_key (\<lambda>w. - ga_created (gv_grant w))
      (map (view_grant v) (filter (grant_matches f) (filter (\<lambda>g. ga_account g = a) (va_grants v))))"

definition answered :: "decision \<Rightarrow> int \<Rightarrow> grant_row \<Rightarrow> grant_row" where
  "answered d now g =
    (case d of
       Approve scopes projects \<Rightarrow>
         g\<lparr>ga_status := GrantApproved, ga_scopes := scopes, ga_projects := Some projects, ga_decided := Some now\<rparr>
     | Deny \<Rightarrow> g\<lparr>ga_status := GrantDenied, ga_decided := Some now\<rparr>)"

definition superseded :: "grant_row \<Rightarrow> int \<Rightarrow> grant_row \<Rightarrow> grant_row" where
  "superseded by now g =
    (if ga_host g = ga_host by \<and> ga_device g = ga_device by \<and> ga_status g = GrantApproved
     then g\<lparr>ga_status := GrantRevoked, ga_decided := Some now\<rparr> else g)"

definition decide_grant :: "string \<Rightarrow> string \<Rightarrow> decision \<Rightarrow> int \<Rightarrow> vault \<Rightarrow> grant_row option \<times> vault" where
  "decide_grant a i d now v =
    (case position_of (\<lambda>g. ga_id g = i \<and> ga_account g = a \<and> ga_status g = GrantPending \<and> now < ga_expires g) (va_grants v) of
       None \<Rightarrow> (None, v)
     | Some at \<Rightarrow>
         let by = va_grants v ! at;
             others = (if d = Deny then va_grants v else map (superseded by now) (va_grants v));
             row = answered d now (others ! at)
         in (Some row, v\<lparr>va_grants := others[at := row]\<rparr>))"

definition in_force_or_waiting :: "grant_row \<Rightarrow> bool" where
  "in_force_or_waiting g \<longleftrightarrow> ga_status g = GrantPending \<or> ga_status g = GrantApproved"

definition withdrawn :: "int \<Rightarrow> grant_row \<Rightarrow> grant_row" where
  "withdrawn now g = (if in_force_or_waiting g then g\<lparr>ga_status := GrantRevoked, ga_decided := Some now\<rparr> else g)"

definition revoke_grant_row :: "string \<Rightarrow> string \<Rightarrow> int \<Rightarrow> vault \<Rightarrow> bool \<times> vault" where
  "revoke_grant_row a i now v =
    (if list_ex (\<lambda>g. ga_id g = i \<and> ga_account g = a) (va_grants v)
     then (True, v\<lparr>va_grants := change_first (\<lambda>g. ga_id g = i \<and> ga_account g = a) (withdrawn now) (va_grants v)\<rparr>)
     else (False, v))"

definition remove_host_row :: "string \<Rightarrow> string \<Rightarrow> int \<Rightarrow> vault \<Rightarrow> bool \<times> vault" where
  "remove_host_row a i now v =
    (case find (host_is a i) (va_hosts v) of
       None \<Rightarrow> (False, v)
     | Some _ \<Rightarrow>
         (True, v\<lparr>va_hosts := change_first (host_is a i) (\<lambda>(h, _). (h, Some now)) (va_hosts v),
           va_offers := filter (\<lambda>(x, _). hf_host x \<noteq> i) (va_offers v),
           va_grants := map (\<lambda>g. if ga_host g = i then withdrawn now g else g) (va_grants v)\<rparr>))"

section \<open>Links and signals\<close>

definition put_link :: "link_place \<Rightarrow> vault \<Rightarrow> vault" where
  "put_link p v = v\<lparr>va_links := AList.update (ln_host p) p (va_links v)\<rparr>"

definition link_place_of :: "string \<Rightarrow> vault \<Rightarrow> link_place option" where
  "link_place_of h v = map_of (va_links v) h"

definition keep_links :: "string \<Rightarrow> int \<Rightarrow> vault \<Rightarrow> link_place list \<times> vault" where
  "keep_links instance_name now v =
    (let kept = map (\<lambda>(h, p). (h, if ln_instance p = instance_name then p\<lparr>ln_seen := now\<rparr> else p)) (va_links v)
     in (filter (\<lambda>p. ln_instance p = instance_name) (map snd kept), v\<lparr>va_links := kept\<rparr>))"

definition drop_link :: "string \<Rightarrow> string \<Rightarrow> vault \<Rightarrow> vault" where
  "drop_link h link v =
    (case map_of (va_links v) h of
       Some p \<Rightarrow> if ln_link p = link then v\<lparr>va_links := AList.delete h (va_links v)\<rparr> else v
     | None \<Rightarrow> v)"

definition send_signal :: "signal \<Rightarrow> vault \<Rightarrow> vault" where
  "send_signal s v = v\<lparr>va_signals := va_signals v @ [s]\<rparr>"

definition pending_on_links :: "string \<Rightarrow> int \<Rightarrow> vault \<Rightarrow> (string \<times> string) list" where
  "pending_on_links instance_name now v =
    map (\<lambda>g. (ga_host g, ga_id g))
      (filter (\<lambda>g. case map_of (va_links v) (ga_host g) of Some p \<Rightarrow> ln_instance p = instance_name | None \<Rightarrow> False)
        (filter (\<lambda>g. ga_status g = GrantPending \<and> now < ga_expires g) (va_grants v)))"

end
