(* ===== verification/Service.thy ===== *)
theory Service
  imports Records
begin

text \<open>
  The control service of \<open>crates/server\<close>: \<open>tokens.rs\<close>, \<open>service.rs\<close> and \<open>pairing.rs\<close>, over the vault of
  \<open>Records\<close>, and the routes of \<open>http.rs\<close> that put a caller's credential before each request.  SHA-256,
  the \<open>url\<close> crate and what the identity provider answers are the record \<open>keeper\<close>; the random values
  and ids of a call are its argument \<open>draws\<close>.  What is sent to the other instances is in the vault,
  what the relay of this one is told is in the server's state.
\<close>

section \<open>Credentials\<close>

datatype token_kind = AccessToken | RefreshToken | HandoffToken | OfferToken | TicketToken

fun token_prefix :: "token_kind \<Rightarrow> string" where
  "token_prefix AccessToken = ''ys1.at.''"
| "token_prefix RefreshToken = ''ys1.rt.''"
| "token_prefix HandoffToken = ''ys1.hc.''"
| "token_prefix OfferToken = ''ys1.po.''"
| "token_prefix TicketToken = ''ys1.rl.''"

datatype url_host = HostDomain string | HostV4 "byte list" | HostV6 "u16 list"

record url =
  ul_scheme :: string
  ul_host :: "url_host option"
  ul_path :: string
  ul_query :: "string option"
  ul_fragment :: "string option"
  ul_username :: string
  ul_password :: "string option"
  ul_text :: string

text \<open>What the service is set up with: its redirects, where the provider answers, and what is not in
  the repository: hashes, addresses, the provider, and how a text is quoted in a log.\<close>

record keeper =
  se_redirects :: "url list"
  se_callback :: url
  se_parse :: "string \<Rightarrow> url option"
  se_append :: "url \<Rightarrow> string \<Rightarrow> string \<Rightarrow> url"
  se_hash :: "string \<Rightarrow> token_hash"
  se_s256 :: "string \<Rightarrow> string"
  se_authorize :: "url \<Rightarrow> string \<Rightarrow> string \<Rightarrow> string \<Rightarrow> int \<Rightarrow> url option"
  se_sign_in :: "string \<Rightarrow> url \<Rightarrow> string \<Rightarrow> token_hash \<Rightarrow> int \<Rightarrow> string + string \<times> string"
  se_quote :: "string \<Rightarrow> string"

record draws =
  dr_random :: "nat \<Rightarrow> string"
  dr_bytes :: bytes
  dr_uuid :: string

definition mint :: "keeper \<Rightarrow> token_kind \<Rightarrow> string \<Rightarrow> string \<times> token_hash" where
  "mint se k r = (let s = token_prefix k @ r in (s, se_hash se s))"

definition presented :: "keeper \<Rightarrow> token_kind \<Rightarrow> string \<Rightarrow> token_hash option" where
  "presented se k s = (if prefix (token_prefix k) s then Some (se_hash se s) else None)"

definition code_hash :: "keeper \<Rightarrow> string \<Rightarrow> token_hash" where
  "code_hash se code = se_hash se (''ys1.pc.'' @ code)"

definition short_code :: "keeper \<Rightarrow> bytes \<Rightarrow> string \<times> token_hash" where
  "short_code se bs = (let code = format_code bs in (display_code code, code_hash se code))"

definition verifies :: "keeper \<Rightarrow> string \<Rightarrow> string \<Rightarrow> bool" where
  "verifies se challenge verifier \<longleftrightarrow> se_s256 se verifier = challenge"

section \<open>The service\<close>

definition LOGIN_TTL_MS :: int where "LOGIN_TTL_MS = 10 * 60000"
definition HANDOFF_TTL_MS :: int where "HANDOFF_TTL_MS = 60000"
definition ACCESS_TTL_MS :: int where "ACCESS_TTL_MS = 15 * 60000"
definition REFRESH_TTL_MS :: int where "REFRESH_TTL_MS = 90 * 24 * 60 * 60000"
definition MAX_DEVICES_PER_ACCOUNT :: nat where "MAX_DEVICES_PER_ACCOUNT = 50"
definition MAX_LISTED_GRANTS :: nat where "MAX_LISTED_GRANTS = 100"

record caller =
  ca_account :: string
  ca_device :: string
  ca_kind :: device_kind

text \<open>The vault, the accounts whose sockets this instance was asked to check, and the pairings it told
  its hosts of.\<close>

record server =
  sv_vault :: vault
  sv_nudged :: "string list"
  sv_pairings :: "(string \<times> string) list"

definition in_vault :: "(vault \<Rightarrow> 'a \<times> vault) \<Rightarrow> server \<Rightarrow> 'a \<times> server" where
  "in_vault f s = (case f (sv_vault s) of (x, v) \<Rightarrow> (x, s\<lparr>sv_vault := v\<rparr>))"

definition tell_revoked :: "string \<Rightarrow> server \<Rightarrow> server" where
  "tell_revoked a s =
    s\<lparr>sv_nudged := sv_nudged s @ [a], sv_vault := send_signal (Recheck a) (sv_vault s)\<rparr>"

definition unauthenticated :: "string \<Rightarrow> remote_error" where
  "unauthenticated m = remote_error_new CodeUnauthenticated m"

definition provider_unavailable :: remote_error where
  "provider_unavailable = remote_error_new CodeInternal
    ''The server could not reach its identity provider. Try again in a moment.''"

definition unreadable :: remote_error where
  "unreadable = remote_error_new CodeInternal
    ''The server could not read its own records. Try again in a moment.''"

section \<open>Signing in\<close>

fun loopback_host :: "url_host \<Rightarrow> bool" where
  "loopback_host (HostV4 (b # _)) \<longleftrightarrow> b = 127"
| "loopback_host (HostV6 ws) \<longleftrightarrow> ws = [0, 0, 0, 0, 0, 0, 0, 1]"
| "loopback_host _ \<longleftrightarrow> False"

definition loopback :: "url \<Rightarrow> bool" where
  "loopback u \<longleftrightarrow> ul_scheme u = ''http'' \<and> (case ul_host u of Some h \<Rightarrow> loopback_host h | None \<Rightarrow> False)"

definition redirect_matches :: "url \<Rightarrow> url \<Rightarrow> bool" where
  "redirect_matches rule asked \<longleftrightarrow>
    (if loopback rule \<and> loopback asked
     then ul_host rule = ul_host asked \<and> ul_path rule = ul_path asked \<and> ul_query rule = ul_query asked
     else ul_text rule = ul_text asked)"

definition allowed_redirect :: "keeper \<Rightarrow> string \<Rightarrow> url option" where
  "allowed_redirect se asked =
    (case se_parse se asked of
       None \<Rightarrow> None
     | Some u \<Rightarrow>
         if ul_fragment u \<noteq> None \<or> ul_username u \<noteq> [] \<or> ul_password u \<noteq> None then None
         else if list_ex (\<lambda>rule. redirect_matches rule u) (se_redirects se) then Some u else None)"

definition begin_login :: "keeper \<Rightarrow> draws \<Rightarrow> login_params \<Rightarrow> int \<Rightarrow> server \<Rightarrow> (remote_error + url) \<times> server" where
  "begin_login se dr p now s =
    (case login_wrong p of
       Some err \<Rightarrow> (Inl err, s)
     | None \<Rightarrow>
     case allowed_redirect se (lp_redirect p) of
       None \<Rightarrow> (Inl (invalid_request ''This server does not send sign-ins back to that address.''), s)
     | Some redirect \<Rightarrow>
         let state = dr_random dr 0; nonce = dr_random dr 1; verifier = dr_random dr 2 in
         (case se_authorize se (se_callback se) state nonce (se_s256 se verifier) now of
            None \<Rightarrow> (Inl provider_unavailable, s)
          | Some u \<Rightarrow>
              (Inr u, s\<lparr>sv_vault := put_login
                \<lparr>pl_state = se_hash se state, pl_nonce = se_hash se nonce, pl_verifier = verifier,
                  pl_challenge = lp_challenge p, pl_redirect = ul_text redirect, pl_expires = now + LOGIN_TTL_MS\<rparr>
                now (sv_vault s)\<rparr>)))"

datatype login_finish =
    SignedIn url
  | LoginRefused url string
  | LoginUnknown remote_error

definition error_word :: "error_code \<Rightarrow> string" where
  "error_word c =
    (if c = CodeUnauthenticated then ''unauthenticated''
     else if c = CodeInvalidRequest then ''invalid_request'' else ''internal'')"

definition sign_in_unknown :: login_finish where
  "sign_in_unknown = LoginUnknown (unauthenticated
    ''This sign-in has expired or was already finished. Start again from the app.'')"

definition first_chars :: "nat \<Rightarrow> string \<Rightarrow> string" where
  "first_chars n s = (case nth_opt (char_starts s) n of Some i \<Rightarrow> take i s | None \<Rightarrow> s)"

definition finish_login :: "keeper \<Rightarrow> draws \<Rightarrow> string option \<Rightarrow> string option \<Rightarrow> string option \<Rightarrow> int \<Rightarrow> server \<Rightarrow>
    login_finish \<times> server" where
  "finish_login se dr code state err now s =
    (case state of
       None \<Rightarrow> (sign_in_unknown, s)
     | Some st \<Rightarrow>
     case in_vault (take_login (se_hash se st)) s of
       (None, s) \<Rightarrow> (sign_in_unknown, s)
     | (Some login, s) \<Rightarrow>
     case se_parse se (pl_redirect login) of
       None \<Rightarrow> (LoginUnknown unreadable, s)
     | Some back \<Rightarrow>
         let refuse = (\<lambda>c why. LoginRefused (se_append se back ''error'' (error_word c)) why) in
         if pl_expires login \<le> now then (refuse CodeUnauthenticated ''the sign-in took too long'', s)
         else case err of
           Some e \<Rightarrow> (refuse CodeUnauthenticated (''the provider answered '' @ se_quote se (first_chars 64 e)), s)
         | None \<Rightarrow>
         case code of
           None \<Rightarrow> (refuse CodeInvalidRequest ''no code and no error'', s)
         | Some c \<Rightarrow>
         case se_sign_in se c (se_callback se) (pl_verifier login) (pl_nonce login) now of
           Inl why \<Rightarrow> (refuse CodeUnauthenticated why, s)
         | Inr (issuer, subject) \<Rightarrow>
         case in_vault (vault_account issuer subject (dr_uuid dr)) s of
           (account, s) \<Rightarrow>
             let (secret, h) = mint se HandoffToken (dr_random dr 0) in
             (SignedIn (se_append se back ''code'' secret),
              s\<lparr>sv_vault := put_handoff
                \<lparr>ha_code = h, ha_account = account, ha_challenge = pl_challenge login, ha_expires = now + HANDOFF_TTL_MS\<rparr>
                now (sv_vault s)\<rparr>))"

text \<open>New credentials: the hashes to keep, and the pair to hand out.\<close>

definition issue :: "keeper \<Rightarrow> draws \<Rightarrow> int \<Rightarrow> issued" where
  "issue se dr now =
    \<lparr>iu_access = snd (mint se AccessToken (dr_random dr 0)), iu_access_expires = now + ACCESS_TTL_MS,
      iu_refresh = snd (mint se RefreshToken (dr_random dr 1)), iu_refresh_expires = now + REFRESH_TTL_MS\<rparr>"

definition pair_for :: "draws \<Rightarrow> string \<Rightarrow> credentials" where
  "pair_for dr d =
    \<lparr>cr_device = d, cr_access = token_prefix AccessToken @ dr_random dr 0, cr_expires_in = ACCESS_TTL_MS,
      cr_refresh = token_prefix RefreshToken @ dr_random dr 1\<rparr>"

definition code_refused :: remote_error where
  "code_refused = unauthenticated ''That sign-in code has expired or was already used. Sign in again.''"

definition device_signed_out :: remote_error where
  "device_signed_out = unauthenticated ''This device is signed out. Sign in again.''"

definition redeem_code :: "keeper \<Rightarrow> draws \<Rightarrow> string \<Rightarrow> string \<Rightarrow> new_device \<Rightarrow> int \<Rightarrow> server \<Rightarrow>
    (remote_error + credentials) \<times> server" where
  "redeem_code se dr code verifier d now s =
    (case presented se HandoffToken code of
       None \<Rightarrow> (Inl code_refused, s)
     | Some h \<Rightarrow>
     case in_vault (take_handoff h) s of
       (None, s) \<Rightarrow> (Inl code_refused, s)
     | (Some handoff, s) \<Rightarrow>
         if ha_expires handoff \<le> now \<or> \<not> verifies se (ha_challenge handoff) verifier then (Inl code_refused, s)
         else if MAX_DEVICES_PER_ACCOUNT \<le> signed_in_devices (ha_account handoff) now (sv_vault s)
         then (Inl (remote_error_new CodeForbidden (''This account already has '' @ num MAX_DEVICES_PER_ACCOUNT
           @ '' devices signed in. Sign one out from another device, then sign in again.'')), s)
         else if check_id (dr_uuid dr) \<noteq> None then (Inl unreadable, s)
         else (Inr (pair_for dr (dr_uuid dr)),
           s\<lparr>sv_vault := add_device
             \<lparr>dv_id = dr_uuid dr, dv_account = ha_account handoff, dv_name = trim (nd_name d), dv_kind = nd_kind d,
               dv_platform = nd_platform d, dv_created = now, dv_seen = None, dv_revoked = None\<rparr>
             (issue se dr now) (sv_vault s)\<rparr>))"

definition refresh_with :: "keeper \<Rightarrow> draws \<Rightarrow> string \<Rightarrow> int \<Rightarrow> server \<Rightarrow> (remote_error + credentials) \<times> server" where
  "refresh_with se dr refresh now s =
    (case presented se RefreshToken refresh of
       None \<Rightarrow> (Inl device_signed_out, s)
     | Some h \<Rightarrow>
     case in_vault (rotate_refresh h (issue se dr now) now) s of
       (Rotated d, s) \<Rightarrow> (Inr (pair_for dr (dv_id d)), s)
     | (Retried d, s) \<Rightarrow> (Inr (pair_for dr (dv_id d)), s)
     | (Reused a, s) \<Rightarrow>
         (Inl (unauthenticated
           ''This device's sign-in was used from somewhere else, so the device was signed out. Sign in again.''),
          tell_revoked a s)
     | (_, s) \<Rightarrow> (Inl device_signed_out, s))"

definition token_call :: "keeper \<Rightarrow> draws \<Rightarrow> token_request \<Rightarrow> int \<Rightarrow> server \<Rightarrow> (remote_error + credentials) \<times> server" where
  "token_call se dr rq now s =
    (case token_wrong rq of
       Some err \<Rightarrow> (Inl err, s)
     | None \<Rightarrow>
         (case rq of
            SignIn code verifier d \<Rightarrow> redeem_code se dr code verifier d now s
          | RefreshWith refresh \<Rightarrow> refresh_with se dr refresh now s))"

definition authenticate :: "keeper \<Rightarrow> string \<Rightarrow> int \<Rightarrow> server \<Rightarrow> (remote_error + caller) \<times> server" where
  "authenticate se access now s =
    (case presented se AccessToken access of
       None \<Rightarrow> (Inl (unauthenticated ''Sign in again.''), s)
     | Some h \<Rightarrow>
     case in_vault (read_access h) s of
       (None, s) \<Rightarrow> (Inl (unauthenticated ''Sign in again.''), s)
     | (Some (d, expires), s) \<Rightarrow>
         if expires \<le> now \<or> dv_revoked d \<noteq> None then (Inl (unauthenticated ''Sign in again.''), s)
         else (Inr \<lparr>ca_account = dv_account d, ca_device = dv_id d, ca_kind = dv_kind d\<rparr>,
           s\<lparr>sv_vault := note_seen (dv_id d) now (sv_vault s)\<rparr>))"

section \<open>An account's devices\<close>

definition summary_of :: "caller \<Rightarrow> device \<Rightarrow> device_summary" where
  "summary_of c d =
    \<lparr>ds_id = dv_id d, ds_name = dv_name d, ds_kind = dv_kind d, ds_platform = dv_platform d, ds_created = dv_created d,
      ds_seen = dv_seen d, ds_revoked = map_option rv_at (dv_revoked d), ds_current = (dv_id d = ca_device c)\<rparr>"

definition list_devices :: "caller \<Rightarrow> vault \<Rightarrow> device_summary list" where
  "list_devices c v = map (summary_of c) (sort_key (\<lambda>d. - dv_created d) (devices_of (ca_account c) v))"

definition revoke_call :: "caller \<Rightarrow> string \<Rightarrow> int \<Rightarrow> server \<Rightarrow> (remote_error + unit) \<times> server" where
  "revoke_call c i now s =
    (case in_vault (revoke_device (ca_account c) i \<lparr>rv_at = now, rv_reason = ByOwner\<rparr>) s of
       (True, s) \<Rightarrow> (Inr (), tell_revoked (ca_account c) s)
     | (False, s) \<Rightarrow> (Inl remote_not_found, s))"

section \<open>Hosts and grants\<close>

definition host_summary_of :: "caller \<Rightarrow> host_row \<Rightarrow> host_summary" where
  "host_summary_of c h =
    \<lparr>hs_id = hw_id h, hs_name = hw_name h, hs_created = hw_created h, hs_seen = hw_seen h,
      hs_current = (hw_device h = ca_device c)\<rparr>"

definition register_host :: "draws \<Rightarrow> caller \<Rightarrow> host_registration \<Rightarrow> int \<Rightarrow> server \<Rightarrow>
    (remote_error + host_summary) \<times> server" where
  "register_host dr c r now s =
    (case registration_wrong r of
       Some err \<Rightarrow> (Inl err, s)
     | None \<Rightarrow>
     if ca_kind c \<noteq> KindHost
     then (Inl (remote_error_new CodeForbidden ''Only a device signed in as a host can register as one.''), s)
     else case hr_host r of
       Some i \<Rightarrow>
         (case in_vault (rebind_host (ca_account c) i (ca_device c) (trim (hr_name r))) s of
            (Some h, s) \<Rightarrow> (Inr (host_summary_of c h), s)
          | (None, s) \<Rightarrow> (Inl remote_not_found, s))
     | None \<Rightarrow>
         if check_id (dr_uuid dr) \<noteq> None then (Inl unreadable, s)
         else let h = \<lparr>hw_id = dr_uuid dr, hw_account = ca_account c, hw_device = ca_device c, hw_name = trim (hr_name r),
             hw_created = now, hw_seen = None\<rparr>
           in (Inr (host_summary_of c h), s\<lparr>sv_vault := add_host h (sv_vault s)\<rparr>))"

definition list_hosts :: "caller \<Rightarrow> vault \<Rightarrow> host_summary list" where
  "list_hosts c v = map (host_summary_of c) (sort_key (\<lambda>h. - hw_created h) (hosts_of (ca_account c) v))"

text \<open>The account's host, if the caller is the device it is signed in as now.\<close>

definition own_host :: "caller \<Rightarrow> string \<Rightarrow> vault \<Rightarrow> remote_error + host_row" where
  "own_host c i v =
    (case find_host (ca_account c) i v of
       Some h \<Rightarrow> if hw_device h = ca_device c then Inr h else Inl remote_not_found
     | None \<Rightarrow> Inl remote_not_found)"

definition make_offer :: "keeper \<Rightarrow> draws \<Rightarrow> caller \<Rightarrow> string \<Rightarrow> int \<Rightarrow> server \<Rightarrow> (remote_error + pairing_offer) \<times> server" where
  "make_offer se dr c i now s =
    (case own_host c i (sv_vault s) of
       Inl err \<Rightarrow> (Inl err, s)
     | Inr h \<Rightarrow>
         let (secret, secret_hash) = mint se OfferToken (dr_random dr 0); (code, kept) = short_code se (dr_bytes dr) in
         (Inr \<lparr>ol_secret = secret, ol_code = code, ol_expires_in = OFFER_TTL_MS\<rparr>,
          s\<lparr>sv_vault := put_offer
            \<lparr>hf_host = hw_id h, hf_account = ca_account c, hf_secret = secret_hash, hf_code = kept,
              hf_expires = now + OFFER_TTL_MS\<rparr> now (sv_vault s)\<rparr>))"

text \<open>A grant as the wire shows it: that it lapsed, or that its device is signed out, is worked out.\<close>

definition shown_state :: "grant_view \<Rightarrow> int \<Rightarrow> grant_state" where
  "shown_state w now =
    (case ga_status (gv_grant w) of
       GrantPending \<Rightarrow>
         if gv_device_revoked w then ShownRevoked
         else if ga_expires (gv_grant w) \<le> now then ShownExpired else ShownPending
     | GrantApproved \<Rightarrow> if gv_device_revoked w then ShownRevoked else ShownApproved
     | GrantDenied \<Rightarrow> ShownDenied
     | GrantRevoked \<Rightarrow> ShownRevoked)"

definition grant_summary_of :: "grant_view \<Rightarrow> int \<Rightarrow> grant_summary" where
  "grant_summary_of w now =
    (let g = gv_grant w; st = shown_state w now in
     \<lparr>gs_id = ga_id g, gs_host = ga_host g, gs_host_name = gv_host_name w, gs_device = ga_device g,
       gs_device_name = gv_device_name w, gs_state = st, gs_requested = ga_requested g, gs_scopes = ga_scopes g,
       gs_projects = ga_projects g, gs_created = ga_created g, gs_decided = ga_decided g,
       gs_expires_in = (if st = ShownPending then Some (if ga_expires g < now then 0 else ga_expires g - now) else None)\<rparr>)"

text \<open>A grant the caller may see: its own, or one on a host it is.\<close>

definition seen_grant :: "caller \<Rightarrow> string \<Rightarrow> vault \<Rightarrow> remote_error + grant_view" where
  "seen_grant c i v =
    (case grants_of (ca_account c) (OneGrant i) v of
       [] \<Rightarrow> Inl remote_not_found
     | w # _ \<Rightarrow>
         if ga_device (gv_grant w) = ca_device c then Inr w
         else case find_host (ca_account c) (ga_host (gv_grant w)) v of
             Some h \<Rightarrow> if hw_device h = ca_device c then Inr w else Inl remote_not_found
           | None \<Rightarrow> Inl remote_not_found)"

definition show_grant :: "caller \<Rightarrow> string \<Rightarrow> int \<Rightarrow> vault \<Rightarrow> remote_error + grant_summary" where
  "show_grant c i now v = map_sum id (\<lambda>w. grant_summary_of w now) (seen_grant c i v)"

definition wrong_code :: remote_error where
  "wrong_code = remote_error_new CodeNotFound ''That pairing code is wrong or has expired. Ask the host for a new one.''"

definition offer_hash :: "keeper \<Rightarrow> offer_key \<Rightarrow> token_hash option" where
  "offer_hash se k =
    (case k of
       OfferSecret s \<Rightarrow> presented se OfferToken s
     | OfferCode code \<Rightarrow> map_option (code_hash se) (normalize_code code))"

definition pair_call :: "keeper \<Rightarrow> draws \<Rightarrow> caller \<Rightarrow> pairing_request \<Rightarrow> int \<Rightarrow> server \<Rightarrow>
    (remote_error + grant_summary) \<times> server" where
  "pair_call se dr c q now s =
    (case pairing_wrong q of
       Some err \<Rightarrow> (Inl err, s)
     | None \<Rightarrow>
     case offer_hash se (pq_offer q) of
       None \<Rightarrow> (Inl wrong_code, s)
     | Some key \<Rightarrow>
     case in_vault (redeem_offer (ca_account c) key now) s of
       (Missed, s) \<Rightarrow> (Inl wrong_code, s)
     | (Taken f, s) \<Rightarrow>
     case find_host (ca_account c) (hf_host f) (sv_vault s) of
       None \<Rightarrow> (Inl wrong_code, s)
     | Some h \<Rightarrow>
         if hw_device h = ca_device c
         then (Inl (invalid_request ''A host cannot pair with itself. Use the code on another device.''), s)
         else if check_id (dr_uuid dr) \<noteq> None then (Inl unreadable, s)
         else
           let g = \<lparr>ga_id = dr_uuid dr, ga_account = ca_account c, ga_host = hw_id h, ga_device = ca_device c,
                 ga_requested = pq_scopes q, ga_scopes = [], ga_projects = None, ga_status = GrantPending,
                 ga_created = now, ga_expires = now + OFFER_TTL_MS, ga_decided = None\<rparr>;
               s = s\<lparr>sv_vault := send_signal (PairingAsked (ga_host g) (ga_id g)) (add_grant g (sv_vault s)),
                 sv_pairings := sv_pairings s @ [(ga_host g, ga_id g)]\<rparr>
           in (show_grant c (ga_id g) now (sv_vault s), s))"

definition host_grants :: "caller \<Rightarrow> string \<Rightarrow> int \<Rightarrow> vault \<Rightarrow> remote_error + grant_summary list" where
  "host_grants c i now v =
    map_sum id (\<lambda>h. take MAX_LISTED_GRANTS
      (filter (\<lambda>g. gs_state g = ShownPending \<or> gs_state g = ShownApproved)
        (map (\<lambda>w. grant_summary_of w now) (grants_of (ca_account c) (OfHost (hw_id h)) v)))) (own_host c i v)"

definition device_grants :: "caller \<Rightarrow> int \<Rightarrow> vault \<Rightarrow> grant_summary list" where
  "device_grants c now v =
    map (\<lambda>w. grant_summary_of w now) (take MAX_LISTED_GRANTS (grants_of (ca_account c) (ForDevice (ca_device c)) v))"

definition not_waiting :: remote_error where
  "not_waiting = invalid_request ''This request is no longer waiting for an answer.''"

text \<open>An approval with a decision, or a denial without one.\<close>

definition decision_given :: "grant_view \<Rightarrow> grant_decision option \<Rightarrow> remote_error + decision" where
  "decision_given w d =
    (case d of
       Some x \<Rightarrow>
         (case decision_wrong x (ga_requested (gv_grant w)) of
            Some err \<Rightarrow> Inl err
          | None \<Rightarrow> Inr (Approve (gd_scopes x) (gd_projects x)))
     | None \<Rightarrow> Inr Deny)"

definition decide_call :: "caller \<Rightarrow> string \<Rightarrow> grant_decision option \<Rightarrow> int \<Rightarrow> server \<Rightarrow>
    (remote_error + grant_summary) \<times> server" where
  "decide_call c i d now s =
    (case seen_grant c i (sv_vault s) of
       Inl err \<Rightarrow> (Inl err, s)
     | Inr w \<Rightarrow>
     case own_host c (ga_host (gv_grant w)) (sv_vault s) of
       Inl err \<Rightarrow> (Inl err, s)
     | Inr _ \<Rightarrow>
     if shown_state w now \<noteq> ShownPending then (Inl not_waiting, s)
     else case decision_given w d of
       Inl err \<Rightarrow> (Inl err, s)
     | Inr answer_given \<Rightarrow>
     case in_vault (decide_grant (ca_account c) i answer_given now) s of
       (None, s) \<Rightarrow> (Inl not_waiting, s)
     | (Some _, s) \<Rightarrow>
         let s = tell_revoked (ca_account c) s in (show_grant c i now (sv_vault s), s))"

definition revoke_grant_call :: "caller \<Rightarrow> string \<Rightarrow> int \<Rightarrow> server \<Rightarrow> (remote_error + unit) \<times> server" where
  "revoke_grant_call c i now s =
    (case seen_grant c i (sv_vault s) of
       Inl err \<Rightarrow> (Inl err, s)
     | Inr _ \<Rightarrow> (Inr (), tell_revoked (ca_account c) (snd (in_vault (revoke_grant_row (ca_account c) i now) s))))"

definition remove_host_call :: "caller \<Rightarrow> string \<Rightarrow> int \<Rightarrow> server \<Rightarrow> (remote_error + unit) \<times> server" where
  "remove_host_call c i now s =
    (case own_host c i (sv_vault s) of
       Inl err \<Rightarrow> (Inl err, s)
     | Inr h \<Rightarrow> (Inr (), tell_revoked (ca_account c) (snd (in_vault (remove_host_row (ca_account c) (hw_id h) now) s))))"

section \<open>The routes\<close>

datatype request_body =
    ListDevices
  | RevokeDevice string
  | ListHosts
  | RegisterHost host_registration
  | MakeOffer string
  | AskPairing pairing_request
  | HostGrants string
  | MyGrants
  | ShowGrant string
  | DecideGrant string "grant_decision option"
  | WithdrawGrant string
  | RemoveHost string

datatype reply =
    RefusedWith remote_error
  | NoContent
  | DevicesAre "device_summary list"
  | HostsAre "host_summary list"
  | HostIs host_summary
  | OfferIs pairing_offer
  | GrantIs grant_summary
  | GrantsAre "grant_summary list"

definition replied :: "('a \<Rightarrow> reply) \<Rightarrow> remote_error + 'a \<Rightarrow> reply" where
  "replied f r = (case r of Inl err \<Rightarrow> RefusedWith err | Inr x \<Rightarrow> f x)"

definition with_id :: "string \<Rightarrow> (string \<Rightarrow> server \<Rightarrow> reply \<times> server) \<Rightarrow> server \<Rightarrow> reply \<times> server" where
  "with_id i f s = (case id_of i of None \<Rightarrow> (RefusedWith remote_not_found, s) | Some j \<Rightarrow> f j s)"

fun caller_request :: "keeper \<Rightarrow> draws \<Rightarrow> caller \<Rightarrow> request_body \<Rightarrow> int \<Rightarrow> server \<Rightarrow> reply \<times> server" where
  "caller_request se dr c ListDevices now s = (DevicesAre (list_devices c (sv_vault s)), s)"
| "caller_request se dr c (RevokeDevice i) now s =
    with_id i (\<lambda>j s. map_prod (replied (\<lambda>_. NoContent)) id (revoke_call c j now s)) s"
| "caller_request se dr c ListHosts now s = (HostsAre (list_hosts c (sv_vault s)), s)"
| "caller_request se dr c (RegisterHost r) now s = map_prod (replied HostIs) id (register_host dr c r now s)"
| "caller_request se dr c (MakeOffer i) now s =
    with_id i (\<lambda>j s. map_prod (replied OfferIs) id (make_offer se dr c j now s)) s"
| "caller_request se dr c (AskPairing q) now s = map_prod (replied GrantIs) id (pair_call se dr c q now s)"
| "caller_request se dr c (HostGrants i) now s =
    with_id i (\<lambda>j s. (replied GrantsAre (host_grants c j now (sv_vault s)), s)) s"
| "caller_request se dr c MyGrants now s = (GrantsAre (device_grants c now (sv_vault s)), s)"
| "caller_request se dr c (ShowGrant i) now s =
    with_id i (\<lambda>j s. (replied GrantIs (show_grant c j now (sv_vault s)), s)) s"
| "caller_request se dr c (DecideGrant i d) now s =
    with_id i (\<lambda>j s. map_prod (replied GrantIs) id (decide_call c j d now s)) s"
| "caller_request se dr c (WithdrawGrant i) now s =
    with_id i (\<lambda>j s. map_prod (replied (\<lambda>_. NoContent)) id (revoke_grant_call c j now s)) s"
| "caller_request se dr c (RemoveHost i) now s =
    with_id i (\<lambda>j s. map_prod (replied (\<lambda>_. NoContent)) id (remove_host_call c j now s)) s"

text \<open>Each request carries an access credential, which is looked at first.\<close>

definition request_call :: "keeper \<Rightarrow> draws \<Rightarrow> string \<Rightarrow> request_body \<Rightarrow> int \<Rightarrow> server \<Rightarrow> reply \<times> server" where
  "request_call se dr access body now s =
    (case authenticate se access now s of
       (Inl err, s) \<Rightarrow> (RefusedWith err, s)
     | (Inr c, s) \<Rightarrow> caller_request se dr c body now s)"

end
