(* ===== verification/Serving.thy ===== *)
theory Serving
  imports Service
begin

text \<open>
  One step of the server for each thing that can arrive (\<open>service.rs\<close>, \<open>pairing.rs\<close>, and the operator's
  command of \<open>main.rs\<close>), and the interface its invariants share: what every method of the vault keeps,
  under what the service makes sure of before it calls it, holds after every history.  That random values
  never come up twice is a condition on the history.  A request is one step; the code locks its store
  once for each call, so that what could come in between two calls of one request is not looked at.
\<close>

section \<open>What the server does, step by step\<close>

text \<open>What arrives, with what was drawn for it and the time.  The operator's command tells every instance.\<close>

datatype server_event =
    Begins login_params
  | Finishes "string option" "string option" "string option"
  | Redeems token_request
  | Requests string request_body
  | OperatorRevokes string string

definition operator_revokes :: "string \<Rightarrow> string \<Rightarrow> int \<Rightarrow> server \<Rightarrow> server" where
  "operator_revokes issuer subject now s =
    (case in_vault (revoke_account issuer subject \<lparr>rv_at = now, rv_reason = ByOperator\<rparr>) s of
       (Some _, s) \<Rightarrow> s\<lparr>sv_vault := send_signal RecheckAll (sv_vault s)\<rparr>
     | (None, s) \<Rightarrow> s)"

type_synonym arrival = "server_event \<times> draws \<times> int"

fun server_step :: "keeper \<Rightarrow> arrival \<Rightarrow> server \<Rightarrow> server" where
  "server_step se (Begins p, dr, now) s = snd (begin_login se dr p now s)"
| "server_step se (Finishes code state err, dr, now) s = snd (finish_login se dr code state err now s)"
| "server_step se (Redeems rq, dr, now) s = snd (token_call se dr rq now s)"
| "server_step se (Requests access body, dr, now) s = snd (request_call se dr access body now s)"
| "server_step se (OperatorRevokes issuer subject, dr, now) s = operator_revokes issuer subject now s"

definition empty_server :: server where
  "empty_server = \<lparr>sv_vault = empty_vault, sv_nudged = [], sv_pairings = []\<rparr>"

text \<open>256 random bits never come up twice: neither as an id nor as a credential.\<close>

definition issued_fresh :: "issued \<Rightarrow> vault \<Rightarrow> bool" where
  "issued_fresh i v \<longleftrightarrow>
    map_of (va_refresh v) (iu_refresh i) = None \<and> map_of (va_access v) (iu_access i) = None
    \<and> list_all (\<lambda>(_, r). case rf_successor r of Some (x, a) \<Rightarrow> x \<noteq> iu_refresh i \<and> a \<noteq> iu_access i | None \<Rightarrow> True) (va_refresh v)"

definition id_fresh :: "string \<Rightarrow> vault \<Rightarrow> bool" where
  "id_fresh i v \<longleftrightarrow>
    i \<notin> dv_id ` set (va_devices v) \<and> i \<notin> hw_id ` fst ` set (va_hosts v) \<and> i \<notin> ga_id ` set (va_grants v)
    \<and> i \<notin> snd ` set (va_accounts v)"

definition draws_fresh :: "keeper \<Rightarrow> draws \<Rightarrow> vault \<Rightarrow> bool" where
  "draws_fresh se dr v \<longleftrightarrow> id_fresh (dr_uuid dr) v \<and> issued_fresh (issue se dr 0) v"

fun fresh_history :: "keeper \<Rightarrow> arrival list \<Rightarrow> server \<Rightarrow> bool" where
  "fresh_history se [] s \<longleftrightarrow> True"
| "fresh_history se (e # es) s \<longleftrightarrow> draws_fresh se (fst (snd e)) (sv_vault s) \<and> fresh_history se es (server_step se e s)"

definition serve_all :: "keeper \<Rightarrow> arrival list \<Rightarrow> server \<Rightarrow> server" where
  "serve_all se es s = fold (server_step se) es s"


lemma issued_fresh_issue: "issued_fresh (issue se dr now) v \<longleftrightarrow> issued_fresh (issue se dr 0) v"
proof -
  have same: "iu_refresh (issue se dr now) = iu_refresh (issue se dr 0)" "iu_access (issue se dr now) = iu_access (issue se dr 0)"
    by (simp_all add: issue_def)
  show ?thesis unfolding issued_fresh_def same ..
qed

lemma redeem_offer_changes: "\<exists>fs. snd (redeem_offer a key now v) = v\<lparr>va_offers := fs\<rparr>"
proof (cases "take_out (\<lambda>x. offer_open a now x \<and> (hf_secret (fst x) = key \<or> hf_code (fst x) = key)) (va_offers v)")
  case (Pair found fs)
  show ?thesis
  proof (cases found)
    case None
    then show ?thesis using Pair by (auto simp: redeem_offer_def)
  next
    case (Some x)
    then show ?thesis using Pair by (cases x) (auto simp: redeem_offer_def)
  qed
qed

lemma find_host_Some: "find_host a i v = Some h \<Longrightarrow> hw_id h = i \<and> hw_account h = a"
proof -
  assume found: "find_host a i v = Some h"
  then obtain row removed where row: "find (host_is a i) (va_hosts v) = Some (row, removed)"
    by (auto simp: find_host_def split: option.splits)
  then have "host_is a i (row, removed)" by (metis find_Some_iff)
  then show ?thesis using found row by (auto simp: find_host_def host_is_def)
qed

lemma find_host_again: "find_host a i v = Some h \<Longrightarrow> find_host a (hw_id h) v = Some h"
  using find_host_Some by fastforce

lemma decision_given_within:
  "decision_given w d = Inr (Approve scopes projects) \<Longrightarrow> scopes \<noteq> [] \<and> set scopes \<subseteq> set (ga_requested (gv_grant w))"
  by (auto simp: decision_given_def decision_wrong_def split: option.splits if_splits project_grant.splits)

lemma change_first_map: "(\<And>x. f (g x) = f x) \<Longrightarrow> map f (change_first p g xs) = map f xs"
  by (induction xs) auto

lemma authenticate_cases:
  assumes "authenticate se access now s = (r, s1)"
  obtains (refused) err where "r = Inl err" "s1 = s"
    | (unknown) err h where "r = Inl err" "presented se AccessToken access = Some h"
        "s1 = s\<lparr>sv_vault := snd (read_access h (sv_vault s))\<rparr>"
    | (caller) h d expires where "presented se AccessToken access = Some h" "fst (read_access h (sv_vault s)) = Some (d, expires)"
        "now < expires" "dv_revoked d = None"
        "r = Inr \<lparr>ca_account = dv_account d, ca_device = dv_id d, ca_kind = dv_kind d\<rparr>"
        "s1 = s\<lparr>sv_vault := note_seen (dv_id d) now (snd (read_access h (sv_vault s)))\<rparr>"
proof (cases "presented se AccessToken access")
  case None
  then show thesis using assms by (intro refused) (auto simp: authenticate_def)
next
  case (Some h)
  obtain found v where read: "read_access h (sv_vault s) = (found, v)" by fastforce
  show thesis
  proof (cases found)
    case None
    then show thesis using assms Some read by (intro unknown) (auto simp: authenticate_def in_vault_def)
  next
    case (Some x)
    obtain d expires where x: "x = (d, expires)" by fastforce
    show thesis
    proof (cases "expires \<le> now \<or> dv_revoked d \<noteq> None")
      case True
      then show thesis using assms \<open>presented se AccessToken access = Some h\<close> read Some x unknown
        by (auto simp: authenticate_def in_vault_def)
    next
      case False
      then show thesis
        using assms \<open>presented se AccessToken access = Some h\<close> read Some x caller [of h d expires]
        by (simp add: authenticate_def in_vault_def)
    qed
  qed
qed

lemma authenticate_same_ids:
  assumes "authenticate se access now s = (r, s1)"
  shows "dv_id ` set (va_devices (sv_vault s1)) = dv_id ` set (va_devices (sv_vault s))"
    "va_hosts (sv_vault s1) = va_hosts (sv_vault s)" "va_grants (sv_vault s1) = va_grants (sv_vault s)"
    "va_accounts (sv_vault s1) = va_accounts (sv_vault s)"
proof -
  have seen: "map dv_id (va_devices (note_seen j now v)) = map dv_id (va_devices v)" for j v
    unfolding note_seen_def change_device_def by (auto intro: change_first_map)
  have "dv_id ` set (va_devices (note_seen j now v)) = dv_id ` set (va_devices v)" for j v
    using arg_cong [OF seen, of set] by simp
  moreover have "va_hosts (note_seen j now v) = va_hosts v" "va_grants (note_seen j now v) = va_grants v"
    "va_accounts (note_seen j now v) = va_accounts v" for j v
    by (simp_all add: note_seen_def change_device_def)
  moreover have "va_devices (snd (read_access h v)) = va_devices v" "va_hosts (snd (read_access h v)) = va_hosts v"
    "va_grants (snd (read_access h v)) = va_grants v" "va_accounts (snd (read_access h v)) = va_accounts v" for h v
    by (simp_all add: read_access_def split: option.splits)
  ultimately show "dv_id ` set (va_devices (sv_vault s1)) = dv_id ` set (va_devices (sv_vault s))"
    "va_hosts (sv_vault s1) = va_hosts (sv_vault s)" "va_grants (sv_vault s1) = va_grants (sv_vault s)"
    "va_accounts (sv_vault s1) = va_accounts (sv_vault s)"
    by (cases rule: authenticate_cases [OF assms]; simp)+
qed

text \<open>What the vault's methods keep, the service's calls keep.\<close>

locale vault_invariant =
  fixes inv :: "vault \<Rightarrow> bool"
  assumes unique: "inv v \<Longrightarrow> distinct (map ga_id (va_grants v))"
    and logins: "inv v \<Longrightarrow> inv (v\<lparr>va_logins := ls\<rparr>)"
    and handoffs: "inv v \<Longrightarrow> inv (v\<lparr>va_handoffs := hs\<rparr>)"
    and offers: "inv v \<Longrightarrow> inv (v\<lparr>va_offers := fs\<rparr>)"
    and signals: "inv v \<Longrightarrow> inv (v\<lparr>va_signals := ss\<rparr>)"
    and account: "inv v \<Longrightarrow> inv (snd (vault_account issuer subject fresh v))"
    and enrolled: "inv v \<Longrightarrow> id_fresh (dv_id d) v \<Longrightarrow> issued_fresh i v \<Longrightarrow> dv_revoked d = None \<Longrightarrow> inv (add_device d i v)"
    and accessed: "inv v \<Longrightarrow> inv (snd (read_access h v))"
    and rotated: "inv v \<Longrightarrow> issued_fresh i v \<Longrightarrow> inv (snd (rotate_refresh h i now v))"
    and seen: "inv v \<Longrightarrow> inv (note_seen j now v)"
    and device_revoked: "inv v \<Longrightarrow> inv (snd (revoke_device a j why v))"
    and account_revoked: "inv v \<Longrightarrow> inv (snd (revoke_account issuer subject why v))"
    and registered: "inv v \<Longrightarrow> id_fresh (hw_id hr) v \<Longrightarrow> inv (add_host hr v)"
    and rebound: "inv v \<Longrightarrow> inv (snd (rebind_host a j e name v))"
    and asked: "inv v \<Longrightarrow> id_fresh (ga_id g) v \<Longrightarrow> ga_status g = GrantPending \<Longrightarrow>
        find_host (ga_account g) (ga_host g) v \<noteq> None \<Longrightarrow> inv (add_grant g v)"
    and decided: "inv v \<Longrightarrow>
        (\<And>g scopes projects. g \<in> set (va_grants v) \<Longrightarrow> ga_id g = j \<Longrightarrow> x = Approve scopes projects \<Longrightarrow>
          scopes \<noteq> [] \<and> set scopes \<subseteq> set (ga_requested g)) \<Longrightarrow> inv (snd (decide_grant a j x now v))"
    and withdrawn: "inv v \<Longrightarrow> inv (snd (revoke_grant_row a j now v))"
    and removed: "inv v \<Longrightarrow> inv (snd (remove_host_row a j now v))"
begin

lemma told: "inv (sv_vault s) \<Longrightarrow> inv (sv_vault (tell_revoked a s))"
  by (simp add: tell_revoked_def send_signal_def signals)

lemma begin_keeps: "inv (sv_vault s) \<Longrightarrow> inv (sv_vault (snd (begin_login se dr p now s)))"
  by (auto simp: begin_login_def put_login_def logins Let_def split: option.splits)

lemma taken_login: "inv v \<Longrightarrow> inv (snd (take_login h v))"
  by (auto simp: take_login_def logins split: prod.splits)

lemma taken_handoff: "inv v \<Longrightarrow> inv (snd (take_handoff h v))"
  by (auto simp: take_handoff_def handoffs split: prod.splits)

lemma redeemed: "inv v \<Longrightarrow> inv (snd (redeem_offer a key now v))"
  by (auto simp: redeem_offer_def offers split: prod.splits option.splits)

lemma in_vault_keeps: "in_vault f s = (x, s') \<Longrightarrow> inv (snd (f (sv_vault s))) \<Longrightarrow> inv (sv_vault s')"
  by (auto simp: in_vault_def split: prod.splits)

lemma finish_keeps:
  assumes "inv (sv_vault s)"
  shows "inv (sv_vault (snd (finish_login se dr code state err now s)))"
proof -
  have login: "inv (sv_vault s1)" if "in_vault (take_login h) s = (l, s1)" for h l s1
    using in_vault_keeps [OF that taken_login [OF assms]] .
  have owner: "inv (sv_vault s2)" if "in_vault (take_login h) s = (l, s1)" "in_vault (vault_account i j k) s1 = (a, s2)" for h l s1 i j k a s2
    using in_vault_keeps [OF that(2) account [OF login [OF that(1)]]] .
  show ?thesis
    using assms login owner
    by (auto simp: finish_login_def Let_def put_handoff_def mint_def handoffs split: option.splits prod.splits sum.splits)
qed


lemma token_keeps:
  assumes "inv (sv_vault s)" and "draws_fresh se dr (sv_vault s)"
  shows "inv (sv_vault (snd (token_call se dr rq now s)))"
proof -
  have fresh: "id_fresh (dr_uuid dr) (sv_vault s)" "issued_fresh (issue se dr now) (sv_vault s)"
    using assms(2) by (auto simp: draws_fresh_def issued_fresh_issue [of se dr now])
  have code: "inv (sv_vault (snd (redeem_code se dr code verifier d now s)))" for code verifier d
  proof (cases "presented se HandoffToken code")
    case None
    then show ?thesis using assms(1) by (simp add: redeem_code_def)
  next
    case (Some h)
    obtain found s1 where take: "in_vault (take_handoff h) s = (found, s1)" by fastforce
    have s1: "inv (sv_vault s1)" using in_vault_keeps [OF take taken_handoff [OF assms(1)]] .
    have same: "va_devices (sv_vault s1) = va_devices (sv_vault s)" "va_hosts (sv_vault s1) = va_hosts (sv_vault s)"
      "va_grants (sv_vault s1) = va_grants (sv_vault s)" "va_accounts (sv_vault s1) = va_accounts (sv_vault s)"
      "va_refresh (sv_vault s1) = va_refresh (sv_vault s)" "va_access (sv_vault s1) = va_access (sv_vault s)"
      using take by (auto simp: in_vault_def take_handoff_def split: prod.splits)
    have fresh1: "id_fresh (dr_uuid dr) (sv_vault s1)" "issued_fresh (issue se dr now) (sv_vault s1)"
      using fresh by (simp_all add: id_fresh_def issued_fresh_def same)
    show ?thesis
      using s1 fresh1 by (auto simp: redeem_code_def Some take intro!: enrolled split: option.splits)
  qed
  have refresh: "inv (sv_vault (snd (refresh_with se dr refresh now s)))" for refresh
  proof -
    have "inv (sv_vault s')" if "in_vault (rotate_refresh h (issue se dr now) now) s = (r, s')" for h r s'
      using in_vault_keeps [OF that rotated [OF assms(1) fresh(2)]] .
    then show ?thesis using assms(1) by (auto simp: refresh_with_def told split: option.splits prod.splits rotation.splits)
  qed
  show ?thesis using assms(1) code refresh by (simp add: token_call_def split: option.splits token_request.splits)
qed

lemma authenticate_keeps:
  assumes "inv (sv_vault s)"
  shows "inv (sv_vault (snd (authenticate se access now s)))"
proof -
  have "inv (sv_vault s')" if "in_vault (read_access h) s = (r, s')" for h r s'
    using in_vault_keeps [OF that accessed [OF assms]] .
  then show ?thesis using assms by (auto simp: authenticate_def seen split: option.splits prod.splits)
qed

lemma register_keeps:
  assumes "inv (sv_vault s)" and "id_fresh (dr_uuid dr) (sv_vault s)"
  shows "inv (sv_vault (snd (register_host dr c r now s)))"
proof -
  have "inv (sv_vault s')" if "in_vault (rebind_host a j e name) s = (x, s')" for a j e name x s'
    using in_vault_keeps [OF that rebound [OF assms(1)]] .
  then show ?thesis using assms by (auto simp: register_host_def Let_def registered split: option.splits prod.splits)
qed

lemma offer_keeps: "inv (sv_vault s) \<Longrightarrow> inv (sv_vault (snd (make_offer se dr c i now s)))"
  by (auto simp: make_offer_def Let_def mint_def short_code_def put_offer_def offers split: sum.splits)

lemma pair_keeps:
  assumes "inv (sv_vault s)" and "id_fresh (dr_uuid dr) (sv_vault s)"
  shows "inv (sv_vault (snd (pair_call se dr c q now s)))"
proof -
  have took: "inv (sv_vault s1) \<and> id_fresh (dr_uuid dr) (sv_vault s1)"
    if "in_vault (redeem_offer a key now) s = (x, s1)" for a key x s1
  proof
    show "inv (sv_vault s1)" using in_vault_keeps [OF that redeemed [OF assms(1)]] .
    obtain fs where "snd (redeem_offer a key now (sv_vault s)) = sv_vault s\<lparr>va_offers := fs\<rparr>"
      using redeem_offer_changes by blast
    then have "sv_vault s1 = sv_vault s\<lparr>va_offers := fs\<rparr>" using that by (auto simp: in_vault_def split: prod.splits)
    then show "id_fresh (dr_uuid dr) (sv_vault s1)" using assms(2) by (simp add: id_fresh_def)
  qed
  show ?thesis
    using assms(1) took
    by (auto simp: pair_call_def Let_def send_signal_def split: option.splits prod.splits redemption.splits
        intro!: signals asked dest: find_host_again)
qed

lemma decide_keeps:
  assumes "inv (sv_vault s)"
  shows "inv (sv_vault (snd (decide_call c i d now s)))"
proof -
  note ids = unique [OF assms]
  have shown: "ga_requested (gv_grant w) = ga_requested g"
    if "seen_grant c i (sv_vault s) = Inr w" "g \<in> set (va_grants (sv_vault s))" "ga_id g = i" for w g
  proof -
    have "w \<in> set (grants_of (ca_account c) (OneGrant i) (sv_vault s))"
      using that(1) by (auto simp: seen_grant_def split: list.splits option.splits if_splits)
    then have "gv_grant w \<in> set (va_grants (sv_vault s))" "ga_id (gv_grant w) = i"
      by (auto simp: grants_of_def view_grant_def Let_def)
    then have "gv_grant w = g" using that(2,3) ids by (auto simp: distinct_map dest: inj_onD)
    then show ?thesis by simp
  qed
  have decide: "inv (sv_vault s')" if "seen_grant c i (sv_vault s) = Inr w" "decision_given w d = Inr x"
    "in_vault (decide_grant (ca_account c) i x now) s = (r, s')" for w x r s'
  proof (rule in_vault_keeps [OF that(3)], rule decided [OF assms])
    fix g scopes projects
    assume "g \<in> set (va_grants (sv_vault s))" "ga_id g = i" "x = Approve scopes projects"
    then show "scopes \<noteq> [] \<and> set scopes \<subseteq> set (ga_requested g)"
      using shown [OF that(1)] decision_given_within [of w d scopes projects] that(2) by simp
  qed
  show ?thesis
    using assms decide
    by (auto simp: decide_call_def Let_def told split: sum.splits option.splits prod.splits)
qed

lemma withdraw_keeps: "inv (sv_vault s) \<Longrightarrow> inv (sv_vault (snd (revoke_grant_call c i now s)))"
  using withdrawn [of "sv_vault s" "ca_account c" i now]
  by (auto simp: revoke_grant_call_def in_vault_def tell_revoked_def send_signal_def
      intro!: signals split: sum.splits prod.splits)

lemma remove_keeps:
  assumes "inv (sv_vault s)"
  shows "inv (sv_vault (snd (remove_host_call c i now s)))"
proof -
  have "inv (sv_vault (snd (in_vault (remove_host_row a j now) s)))" for a j
    using removed [OF assms, of a j now] by (auto simp: in_vault_def split: prod.splits)
  then show ?thesis using assms by (auto simp: remove_host_call_def told split: sum.splits)
qed

lemma revoke_call_keeps: "inv (sv_vault s) \<Longrightarrow> inv (sv_vault (snd (revoke_call c i now s)))"
  using device_revoked [of "sv_vault s" "ca_account c" i "\<lparr>rv_at = now, rv_reason = ByOwner\<rparr>"]
  by (auto simp: revoke_call_def in_vault_def tell_revoked_def send_signal_def
      intro!: signals split: bool.splits prod.splits)

lemma with_id_keeps:
  "(\<And>j s. inv (sv_vault s) \<Longrightarrow> inv (sv_vault (snd (f j s)))) \<Longrightarrow> inv (sv_vault s) \<Longrightarrow> inv (sv_vault (snd (with_id i f s)))"
  by (simp add: with_id_def split: option.splits)

lemma caller_request_keeps:
  assumes "inv (sv_vault s)" and "id_fresh (dr_uuid dr) (sv_vault s)"
  shows "inv (sv_vault (snd (caller_request se dr c body now s)))"
  using assms
  by (cases body) (simp_all add: map_prod_def split_def register_keeps pair_keeps with_id_keeps revoke_call_keeps
      offer_keeps decide_keeps withdraw_keeps remove_keeps)

lemma request_keeps:
  assumes "inv (sv_vault s)" and "id_fresh (dr_uuid dr) (sv_vault s)"
  shows "inv (sv_vault (snd (request_call se dr access body now s)))"
proof -
  have "id_fresh (dr_uuid dr) (sv_vault s1) \<and> inv (sv_vault s1)" if "authenticate se access now s = (r, s1)" for r s1
    using authenticate_same_ids [OF that] authenticate_keeps [OF assms(1), of se access now] that assms(2)
    by (simp add: id_fresh_def)
  then show ?thesis by (auto simp: request_call_def caller_request_keeps split: prod.splits sum.splits)
qed

lemma operator_keeps: "inv (sv_vault s) \<Longrightarrow> inv (sv_vault (operator_revokes issuer subject now s))"
  using account_revoked [of "sv_vault s" issuer subject "\<lparr>rv_at = now, rv_reason = ByOperator\<rparr>"]
  by (auto simp: operator_revokes_def in_vault_def send_signal_def intro!: signals split: prod.splits option.splits)

lemma server_step_keeps:
  assumes "inv (sv_vault s)" and "draws_fresh se (fst (snd e)) (sv_vault s)"
  shows "inv (sv_vault (server_step se e s))"
proof -
  obtain ev dr now where e: "e = (ev, dr, now)" by (metis prod.collapse)
  show ?thesis
    using assms
    by (cases ev) (simp_all add: e begin_keeps finish_keeps token_keeps request_keeps operator_keeps draws_fresh_def)
qed

lemma history_keeps:
  "inv (sv_vault s) \<Longrightarrow> fresh_history se es s \<Longrightarrow> inv (sv_vault (serve_all se es s))"
  by (induction es arbitrary: s) (simp_all add: serve_all_def server_step_keeps)

end

end
