(* ===== verification/Lineage.thy ===== *)
theory Lineage
  imports Serving
begin

text \<open>
  What becomes of a device's credentials over any history of the server: each device descends from one
  refresh credential at a time, one that is presented again when it should not be revokes the device,
  and a revoked device never acts again.
\<close>

section \<open>Rows that calls leave alone\<close>

lemma grant_ids_changed [simp]:
  "map ga_id (va_grants (snd (decide_grant a j x now v))) = map ga_id (va_grants v)"
  "map ga_id (va_grants (snd (revoke_grant_row a j now v))) = map ga_id (va_grants v)"
  "map ga_id (va_grants (snd (remove_host_row a j now v))) = map ga_id (va_grants v)"
proof -
  have answered: "ga_id (answered x now g) = ga_id g" for g by (simp add: answered_def split: decision.splits)
  have superseded: "map ga_id (map (superseded by now) gs) = map ga_id gs" for "by" gs by (simp add: superseded_def)
  have list_update_same: "map ga_id (gs[k := g]) = map ga_id gs" if "k < length gs" "ga_id g = ga_id (gs ! k)" for gs k g
    using that by (metis list_update_id map_update nth_map)
  have position: "k < length gs" if "position_of p gs = Some k" for p k and gs :: "grant_row list"
    using that by (induction gs arbitrary: k) (auto split: if_splits)
  show "map ga_id (va_grants (snd (decide_grant a j x now v))) = map ga_id (va_grants v)"
    using answered superseded position
    by (auto simp: decide_grant_def Let_def list_update_same split: option.splits)
  have "ga_id (withdrawn now g) = ga_id g" for g by (simp add: withdrawn_def)
  then show "map ga_id (va_grants (snd (revoke_grant_row a j now v))) = map ga_id (va_grants v)"
    "map ga_id (va_grants (snd (remove_host_row a j now v))) = map ga_id (va_grants v)"
    by (auto simp: revoke_grant_row_def remove_host_row_def change_first_map split: option.splits)
qed

lemma device_ids_changed [simp]:
  "(\<And>d. dv_id (f d) = dv_id d) \<Longrightarrow> map dv_id (va_devices (change_device j f v)) = map dv_id (va_devices v)"
  by (simp add: change_device_def change_first_map)

text \<open>Nothing that is not about devices touches them, their credentials or the grants.\<close>

definition same_devices :: "vault \<Rightarrow> vault \<Rightarrow> bool" where
  "same_devices v v' \<longleftrightarrow> map dv_id (va_devices v') = map dv_id (va_devices v) \<and> va_refresh v' = va_refresh v"

lemma same_devices_calls:
  "same_devices v (snd (read_access h v))" "same_devices v (note_seen j now v)" "same_devices v (snd (revoke_device a j why v))"
  "same_devices v (snd (revoke_account issuer subject why v))" "same_devices v (add_host hr v)"
  "same_devices v (snd (rebind_host a j e name v))" "same_devices v (add_grant g v)"
  "same_devices v (snd (decide_grant a j x now v))" "same_devices v (snd (revoke_grant_row a j now v))"
  "same_devices v (snd (remove_host_row a j now v))" "same_devices v (snd (vault_account issuer subject fresh v))"
  "same_devices v (v\<lparr>va_logins := ls\<rparr>)" "same_devices v (v\<lparr>va_handoffs := hs\<rparr>)"
  "same_devices v (v\<lparr>va_offers := fs\<rparr>)" "same_devices v (v\<lparr>va_signals := ss\<rparr>)"
  by (auto simp: same_devices_def read_access_def note_seen_def revoke_device_def revoke_account_def add_host_def
      rebind_host_def add_grant_def decide_grant_def revoke_grant_row_def remove_host_row_def vault_account_def
      change_device_def change_first_map Let_def split: option.splits)

definition same_grants :: "vault \<Rightarrow> vault \<Rightarrow> bool" where
  "same_grants v v' \<longleftrightarrow> va_grants v' = va_grants v \<and> va_hosts v' = va_hosts v"

lemma same_grants_calls:
  "same_grants v (snd (read_access h v))" "same_grants v (note_seen j now v)" "same_grants v (snd (revoke_device a j why v))"
  "same_grants v (snd (revoke_account issuer subject why v))" "same_grants v (snd (rotate_refresh h i now v))"
  "same_grants v (add_device d i v)" "same_grants v (snd (vault_account issuer subject fresh v))"
  "same_grants v (v\<lparr>va_logins := ls\<rparr>)" "same_grants v (v\<lparr>va_handoffs := hs\<rparr>)"
  "same_grants v (v\<lparr>va_offers := fs\<rparr>)" "same_grants v (v\<lparr>va_signals := ss\<rparr>)"
  by (auto simp: same_grants_def read_access_def note_seen_def revoke_device_def revoke_account_def rotate_refresh_def
      vault_account_def add_device_def issue_to_def change_device_def change_refresh_def drop_successors_def Let_def
      split: option.splits)

section \<open>Trading a refresh credential in\<close>

lemma find_device_Some: "find_device j v = Some d \<Longrightarrow> dv_id d = j \<and> d \<in> set (va_devices v)"
  by (auto simp: find_device_def find_Some_iff)

lemma rotate_cases:
  assumes "rotate_refresh h i now v = (r, v')"
  obtains (left_alone) why where "v' = v \<and> (r = why \<and> why \<in> {RotationUnknown, RotationRevoked, RotationExpired})"
    | (reused) old d at where "map_of (va_refresh v) h = Some old" "find_device (rf_device old) v = Some d"
        "rf_spent old = Some at" "rf_retried old \<or> REFRESH_RETRY_MS \<le> now - at \<or> \<not> successors_unused old v"
        "r = Reused (dv_account d)"
        "v' = change_device (rf_device old) (\<lambda>x. x\<lparr>dv_revoked := Some \<lparr>rv_at = now, rv_reason = RefreshReused\<rparr>\<rparr>) v"
    | (retried) old d at x a where "map_of (va_refresh v) h = Some old" "find_device (rf_device old) v = Some d"
        "dv_revoked d = None" "rf_spent old = Some at" "\<not> rf_retried old" "rf_successor old = Some (x, a)"
        "successors_unused old v" "r = Retried d"
        "map_of (va_refresh v') = ((map_of (va_refresh v))(x := None))
          (h \<mapsto> old\<lparr>rf_retried := True, rf_successor := Some (iu_refresh i, iu_access i)\<rparr>,
           iu_refresh i \<mapsto> \<lparr>rf_device = dv_id d, rf_expires = iu_refresh_expires i, rf_spent = None, rf_successor = None,
             rf_retried = False\<rparr>)"
        "va_devices v' = va_devices v"
    | (rotated) old d where "map_of (va_refresh v) h = Some old" "find_device (rf_device old) v = Some d"
        "dv_revoked d = None" "rf_spent old = None" "now < rf_expires old" "r = Rotated d"
        "map_of (va_refresh v') = (map_of (va_refresh v))
          (h \<mapsto> old\<lparr>rf_spent := Some now, rf_successor := Some (iu_refresh i, iu_access i)\<rparr>,
           iu_refresh i \<mapsto> \<lparr>rf_device = dv_id d, rf_expires = iu_refresh_expires i, rf_spent = None, rf_successor = None,
             rf_retried = False\<rparr>)"
        "va_devices v' = va_devices v"
proof -
  consider "map_of (va_refresh v) h = None" | old where "map_of (va_refresh v) h = Some old" "find_device (rf_device old) v = None"
    | old d where "map_of (va_refresh v) h = Some old" "find_device (rf_device old) v = Some d"
    by fastforce
  then show thesis
  proof cases
    case (3 old d)
    note row = 3
    show thesis
    proof (cases "dv_revoked d")
      case None
      note live = None
      show thesis
      proof (cases "rf_spent old")
        case None
        show thesis
        proof (cases "rf_expires old \<le> now")
          case True
          have one: "v' = v" and two: "r = RotationExpired"
            using True assms row live None by (auto simp: rotate_refresh_def)
          show thesis by (rule left_alone [of RotationExpired]) (simp add: one two)
        next
          case False
          then show thesis using assms row live None
            by (intro rotated [of old d])
              (auto simp: rotate_refresh_def issue_to_def change_refresh_def update_conv')
        qed
      next
        case (Some at)
        note spent = Some
        show thesis
        proof (cases "\<not> rf_retried old \<and> now - at < REFRESH_RETRY_MS \<and> successors_unused old v")
          case True
          obtain x a where succ: "rf_successor old = Some (x, a)"
            using True by (auto simp: successors_unused_def split: option.splits)
          have "h \<noteq> x" using True succ row spent by (auto simp: successors_unused_def)
          then show thesis using assms row live spent True succ
            by (intro retried [of old d at x a])
              (auto simp: rotate_refresh_def issue_to_def change_refresh_def drop_successors_def update_conv' delete_conv')
        next
          case False
          then show thesis using assms row live spent by (intro reused [of old d at]) (auto simp: rotate_refresh_def)
        qed
      qed
    next
      case (Some w)
      then have "v' = v \<and> (r = r \<and> r \<in> {RotationUnknown, RotationRevoked, RotationExpired})"
        using assms row by (auto simp: rotate_refresh_def)
      then show thesis by (rule left_alone)
    qed
  next
    case 1
    then have "v' = v \<and> (r = r \<and> r \<in> {RotationUnknown, RotationRevoked, RotationExpired})"
      using assms by (auto simp: rotate_refresh_def)
    then show thesis by (rule left_alone)
  next
    case (2 old)
    then have "v' = v \<and> (r = r \<and> r \<in> {RotationUnknown, RotationRevoked, RotationExpired})"
      using assms by (auto simp: rotate_refresh_def)
    then show thesis by (rule left_alone)
  qed
qed

section \<open>One line of credentials for each device\<close>

definition holds_refresh :: "vault \<Rightarrow> string \<Rightarrow> token_hash \<Rightarrow> bool" where
  "holds_refresh v j h \<longleftrightarrow> (\<exists>r. map_of (va_refresh v) h = Some r \<and> rf_device r = j \<and> rf_spent r = None)"

definition lineage :: "vault \<Rightarrow> bool" where
  "lineage v \<longleftrightarrow>
    distinct (map dv_id (va_devices v))
    \<and> (\<forall>h r. map_of (va_refresh v) h = Some r \<longrightarrow> rf_device r \<in> dv_id ` set (va_devices v))
    \<and> (\<forall>h r x a y. map_of (va_refresh v) h = Some r \<longrightarrow> rf_successor r = Some (x, a) \<longrightarrow>
        map_of (va_refresh v) x = Some y \<longrightarrow> rf_device y = rf_device r)
    \<and> (\<forall>j \<in> dv_id ` set (va_devices v). \<exists>!h. holds_refresh v j h)"

lemma lineageI:
  assumes "distinct (map dv_id (va_devices v))"
    and "\<And>h r. map_of (va_refresh v) h = Some r \<Longrightarrow> rf_device r \<in> dv_id ` set (va_devices v)"
    and "\<And>h r x a y. map_of (va_refresh v) h = Some r \<Longrightarrow> rf_successor r = Some (x, a) \<Longrightarrow>
      map_of (va_refresh v) x = Some y \<Longrightarrow> rf_device y = rf_device r"
    and "\<And>j. j \<in> dv_id ` set (va_devices v) \<Longrightarrow> \<exists>!h. holds_refresh v j h"
  shows "lineage v"
  unfolding lineage_def using assms by blast

lemma lineageD:
  assumes "lineage v"
  shows "distinct (map dv_id (va_devices v))"
    and "\<And>h r. map_of (va_refresh v) h = Some r \<Longrightarrow> rf_device r \<in> dv_id ` set (va_devices v)"
    and "\<And>h r x a y. map_of (va_refresh v) h = Some r \<Longrightarrow> rf_successor r = Some (x, a) \<Longrightarrow>
      map_of (va_refresh v) x = Some y \<Longrightarrow> rf_device y = rf_device r"
    and "\<And>j. j \<in> dv_id ` set (va_devices v) \<Longrightarrow> \<exists>!h. holds_refresh v j h"
  using assms unfolding lineage_def by blast+

lemma lineage_same: "same_devices v v' \<Longrightarrow> lineage v \<Longrightarrow> lineage v'"
proof -
  assume same: "same_devices v v'" and "lineage v"
  have "dv_id ` set (va_devices v') = dv_id ` set (va_devices v)"
    using same unfolding same_devices_def by (metis list.set_map)
  moreover have "map dv_id (va_devices v') = map dv_id (va_devices v)" "va_refresh v' = va_refresh v"
    using same by (simp_all add: same_devices_def)
  ultimately show ?thesis using \<open>lineage v\<close> unfolding lineage_def holds_refresh_def by presburger
qed

lemma lineage_enrolled:
  assumes "lineage v" and "id_fresh (dv_id d) v" and "issued_fresh i v"
  shows "lineage (add_device d i v)"
proof -
  let ?v = "add_device d i v"
  let ?new = "\<lparr>rf_device = dv_id d, rf_expires = iu_refresh_expires i, rf_spent = None, rf_successor = None, rf_retried = False\<rparr>"
  have rows: "map_of (va_refresh ?v) = (map_of (va_refresh v))(iu_refresh i \<mapsto> ?new)"
    and devices: "va_devices ?v = va_devices v @ [d]"
    by (simp_all add: add_device_def issue_to_def update_conv' Let_def)
  have fresh: "map_of (va_refresh v) (iu_refresh i) = None" using assms(3) by (simp add: issued_fresh_def)
  have newid: "dv_id d \<notin> dv_id ` set (va_devices v)" using assms(2) by (simp add: id_fresh_def)
  have unnamed: "x \<noteq> iu_refresh i" if "map_of (va_refresh v) h = Some r" "rf_successor r = Some (x, a)" for h r x a
    using assms(3) map_of_SomeD [OF that(1)] that(2) by (auto simp: issued_fresh_def list_all_iff)
  have old: "holds_refresh ?v j h \<longleftrightarrow> holds_refresh v j h" if "j \<noteq> dv_id d" for j h
    using that fresh by (auto simp: holds_refresh_def rows)
  have own: "holds_refresh ?v (dv_id d) h \<longleftrightarrow> h = iu_refresh i" for h
  proof -
    have "rf_device r \<noteq> dv_id d" if "map_of (va_refresh v) h = Some r" for r
      using assms(1) newid that unfolding lineage_def by metis
    then show ?thesis by (auto simp: holds_refresh_def rows)
  qed
  have one: "\<exists>!h. holds_refresh ?v j h" if "j \<in> dv_id ` set (va_devices ?v)" for j
  proof (cases "j = dv_id d")
    case True
    then show ?thesis using own by simp
  next
    case False
    then have "j \<in> dv_id ` set (va_devices v)" using that by (auto simp: devices)
    then have "\<exists>!h. holds_refresh v j h" using assms(1) by (simp only: lineage_def)
    then show ?thesis using old [OF False] by simp
  qed
  have owners: "rf_device r \<in> dv_id ` set (va_devices ?v)" if "map_of (va_refresh ?v) h = Some r" for h r
    using that assms(1) by (auto simp: rows devices lineage_def split: if_splits)
  have heirs: "rf_device y = rf_device r"
    if "map_of (va_refresh ?v) h = Some r" "rf_successor r = Some (x, a)" "map_of (va_refresh ?v) x = Some y" for h r x a y
  proof (cases "h = iu_refresh i")
    case True
    then have "r = ?new" using that(1) by (simp add: rows)
    then show ?thesis using that(2) by simp
  next
    case False
    then have row: "map_of (va_refresh v) h = Some r" using that(1) by (simp add: rows)
    then have "map_of (va_refresh v) x = Some y" using unnamed that(2,3) by (simp add: rows)
    then show ?thesis by (rule lineageD(3) [OF assms(1) row that(2)])
  qed
  have "distinct (map dv_id (va_devices ?v))" using lineageD(1) [OF assms(1)] newid by (simp add: devices)
  then show ?thesis
  proof (rule lineageI)
    show "rf_device r \<in> dv_id ` set (va_devices ?v)" if "map_of (va_refresh ?v) h = Some r" for h r
      by (rule owners [OF that])
    show "rf_device y = rf_device r"
      if "map_of (va_refresh ?v) h = Some r" "rf_successor r = Some (x, a)" "map_of (va_refresh ?v) x = Some y" for h r x a y
      by (rule heirs [OF that])
    show "\<exists>!h. holds_refresh ?v j h" if "j \<in> dv_id ` set (va_devices ?v)" for j
      by (rule one [OF that])
  qed
qed

lemma lineage_fresh:
  assumes "lineage v" and "issued_fresh i v"
  shows "map_of (va_refresh v) (iu_refresh i) = None"
    and "\<And>h r x a. map_of (va_refresh v) h = Some r \<Longrightarrow> rf_successor r = Some (x, a) \<Longrightarrow> x \<noteq> iu_refresh i"
proof -
  show "map_of (va_refresh v) (iu_refresh i) = None" using assms(2) by (simp add: issued_fresh_def)
  show "x \<noteq> iu_refresh i" if "map_of (va_refresh v) h = Some r" "rf_successor r = Some (x, a)" for h r x a
    using assms(2) map_of_SomeD [OF that(1)] that(2) by (auto simp: issued_fresh_def list_all_iff)
qed

lemma heir_kept:
  assumes line: "lineage v" "issued_fresh i v" and old: "map_of (va_refresh v) h = Some old"
    and rows: "m' = m (h \<mapsto> old', iu_refresh i \<mapsto> new)"
    and sub: "\<And>g s. m g = Some s \<Longrightarrow> map_of (va_refresh v) g = Some s"
    and old': "rf_device old' = rf_device old" "rf_successor old' = Some (iu_refresh i, b)"
    and new: "rf_device new = rf_device old" "rf_successor new = None"
    and s: "m' g = Some s" "rf_successor s = Some (x, a)" "m' x = Some y"
  shows "rf_device y = rf_device s"
proof -
  consider "g = iu_refresh i" | "g \<noteq> iu_refresh i" "g = h" | "g \<noteq> iu_refresh i" "g \<noteq> h" by blast
  then show ?thesis
  proof cases
    case 1
    then have "s = new" using s(1) rows by simp
    then show ?thesis using new s(2) by simp
  next
    case 2
    then have "s = old'" using s(1) rows by simp
    then show ?thesis using old' new s rows by simp
  next
    case 3
    then have row: "map_of (va_refresh v) g = Some s" using s(1) rows sub by simp
    then have x: "x \<noteq> iu_refresh i" using lineage_fresh(2) [OF line] s(2) by blast
    show ?thesis
    proof (cases "x = h")
      case True
      then have "y = old'" using s(3) x rows by simp
      moreover have "rf_device old = rf_device s" using lineageD(3) [OF line(1) row s(2)] True old by blast
      ultimately show ?thesis using old' by simp
    next
      case False
      then have "map_of (va_refresh v) x = Some y" using s(3) x rows sub by simp
      then show ?thesis by (rule lineageD(3) [OF line(1) row s(2)])
    qed
  qed
qed

lemma lineage_rotated:
  assumes "lineage v" and "issued_fresh i v" and "rotate_refresh h i now v = (r, v')"
  shows "lineage v'"
  using assms(3)
proof (cases rule: rotate_cases)
  case (left_alone why)
  then show ?thesis using assms(1) by simp
next
  case (reused old d at)
  then have "same_devices v v'" by (simp add: same_devices_def change_device_def change_first_map)
  then show ?thesis using assms(1) by (rule lineage_same)
next
  case (rotated old d)
  note rows = rotated(7)
  have j: "dv_id d = rf_device old" using find_device_Some [OF rotated(2)] by simp
  note fresh = lineage_fresh [OF assms(1,2)]
  have hi: "h \<noteq> iu_refresh i" using rotated(1) fresh(1) by auto
  show ?thesis
  proof (rule lineageI)
    show "distinct (map dv_id (va_devices v'))" using lineageD(1) [OF assms(1)] rotated(8) by simp
    show "rf_device s \<in> dv_id ` set (va_devices v')" if "map_of (va_refresh v') g = Some s" for g s
      using that lineageD(2) [OF assms(1)] rotated(1) j by (auto simp: rows rotated(8) split: if_splits)
    show "rf_device y = rf_device s"
      if s: "map_of (va_refresh v') g = Some s" "rf_successor s = Some (x, a)" "map_of (va_refresh v') x = Some y" for g s x a y
      using heir_kept [OF assms(1,2) rotated(1) rows _ _ _ _ _ s] j by simp
    show "\<exists>!g. holds_refresh v' k g" if "k \<in> dv_id ` set (va_devices v')" for k
    proof (cases "k = dv_id d")
      case True
      have "holds_refresh v' k g \<longleftrightarrow> g = iu_refresh i" for g
      proof -
        have "g = h" if "map_of (va_refresh v) g = Some s" "rf_device s = k" "rf_spent s = None" for s
          using lineageD(4) [OF assms(1), of k] that rotated(1,4,8) True j \<open>k \<in> _\<close> unfolding holds_refresh_def by metis
        then show ?thesis using True j by (auto simp: holds_refresh_def rows)
      qed
      then show ?thesis by simp
    next
      case False
      then have "holds_refresh v' k g \<longleftrightarrow> holds_refresh v k g" for g
        using j rotated(1) fresh(1) by (auto simp: holds_refresh_def rows)
      then show ?thesis using lineageD(4) [OF assms(1), of k] that rotated(8) by simp
    qed
  qed
next
  case (retried old d at x a)
  note rows = retried(9)
  have j: "dv_id d = rf_device old" using find_device_Some [OF retried(2)] by simp
  note fresh = lineage_fresh [OF assms(1,2)]
  obtain y where y: "map_of (va_refresh v) x = Some y" "rf_spent y = None"
    using retried(6,7) by (auto simp: successors_unused_def split: option.splits)
  have y_device: "rf_device y = rf_device old" using lineageD(3) [OF assms(1) retried(1,6) y(1)] .
  have hx: "h \<noteq> x" using y retried(1,4) by auto
  show ?thesis
  proof (rule lineageI)
    show "distinct (map dv_id (va_devices v'))" using lineageD(1) [OF assms(1)] retried(10) by simp
    show "rf_device s \<in> dv_id ` set (va_devices v')" if "map_of (va_refresh v') g = Some s" for g s
      using that lineageD(2) [OF assms(1)] retried(1) j by (auto simp: rows retried(10) split: if_splits)
    show "rf_device z = rf_device s"
      if s: "map_of (va_refresh v') g = Some s" "rf_successor s = Some (w, b)" "map_of (va_refresh v') w = Some z" for g s w b z
    proof -
      have sub: "map_of (va_refresh v) k = Some t" if "((map_of (va_refresh v))(x := None)) k = Some t" for k t
        using that by (auto split: if_splits)
      show ?thesis using heir_kept [OF assms(1,2) retried(1) rows sub _ _ _ _ s] j by simp
    qed
    show "\<exists>!g. holds_refresh v' k g" if "k \<in> dv_id ` set (va_devices v')" for k
    proof (cases "k = dv_id d")
      case True
      have "holds_refresh v' k g \<longleftrightarrow> g = iu_refresh i" for g
      proof -
        have "g = x" if "map_of (va_refresh v) g = Some s" "rf_device s = k" "rf_spent s = None" for s
          using lineageD(4) [OF assms(1), of k] that y y_device retried(10) True j \<open>k \<in> _\<close> unfolding holds_refresh_def by metis
        then show ?thesis using True j retried(4) by (auto simp: holds_refresh_def rows)
      qed
      then show ?thesis by simp
    next
      case False
      then have "holds_refresh v' k g \<longleftrightarrow> holds_refresh v k g" for g
        using j y_device y(1) retried(1) fresh(1) hx by (auto simp: holds_refresh_def rows)
      then show ?thesis using lineageD(4) [OF assms(1), of k] that retried(10) by simp
    qed
  qed
qed

lemma grant_ids_asked: "distinct (map ga_id (va_grants v)) \<Longrightarrow> id_fresh (ga_id g) v \<Longrightarrow> distinct (map ga_id (va_grants (add_grant g v)))"
  by (auto simp: add_grant_def id_fresh_def)

lemma grant_ids_same: "same_grants v v' \<Longrightarrow> distinct (map ga_id (va_grants v)) \<Longrightarrow> distinct (map ga_id (va_grants v'))"
  by (simp add: same_grants_def)

lemmas lineage_calls = same_devices_calls [THEN lineage_same]
lemmas grant_ids_calls = same_grants_calls [THEN grant_ids_same]

lemma host_calls_keep_grants [simp]:
  "va_grants (add_host hr v) = va_grants v" "va_grants (snd (rebind_host a j e name v)) = va_grants v"
  by (simp_all add: add_host_def rebind_host_def Let_def split: option.splits)

interpretation line: vault_invariant "\<lambda>v. lineage v \<and> distinct (map ga_id (va_grants v))"
proof unfold_locales
  fix v d i h now
  assume inv: "lineage v \<and> distinct (map ga_id (va_grants v))"
  show "lineage (add_device d i v) \<and> distinct (map ga_id (va_grants (add_device d i v)))"
    if "id_fresh (dv_id d) v" "issued_fresh i v"
    using inv that lineage_enrolled grant_ids_same [OF same_grants_calls(6)] by blast
  show "lineage (snd (rotate_refresh h i now v)) \<and> distinct (map ga_id (va_grants (snd (rotate_refresh h i now v))))"
    if "issued_fresh i v"
    using inv that lineage_rotated grant_ids_same [OF same_grants_calls(5)] by (metis prod.collapse)
qed (simp_all add: lineage_calls grant_ids_calls grant_ids_asked)

section \<open>Revoked devices\<close>

lemma find_change_first:
  assumes "\<And>d. dv_id (f d) = dv_id d"
  shows "find (\<lambda>d. dv_id d = j) (change_first (\<lambda>d. dv_id d = k) f ds)
    = (if k = j then map_option f (find (\<lambda>d. dv_id d = j) ds) else find (\<lambda>d. dv_id d = j) ds)"
  using assms by (induction ds) auto

lemma find_change_device:
  "(\<And>d. dv_id (f d) = dv_id d) \<Longrightarrow>
    find_device j (change_device k f v) = (if k = j then map_option f (find_device j v) else find_device j v)"
  by (simp add: find_device_def change_device_def find_change_first)

definition is_out :: "string \<Rightarrow> vault \<Rightarrow> bool" where
  "is_out j v \<longleftrightarrow> (\<exists>d. find_device j v = Some d \<and> dv_revoked d \<noteq> None)"

lemma is_out_change:
  assumes "\<And>d. dv_id (f d) = dv_id d" and "\<And>d. dv_revoked d \<noteq> None \<Longrightarrow> dv_revoked (f d) \<noteq> None"
  shows "is_out j v \<Longrightarrow> is_out j (change_device k f v)"
  using assms by (auto simp: is_out_def find_change_device)

lemma is_out_same: "va_devices v' = va_devices v \<Longrightarrow> is_out j v \<Longrightarrow> is_out j v'"
  by (simp add: is_out_def find_device_def)

lemma same_devices_rows [simp]:
  "va_devices (add_host hr v) = va_devices v" "va_devices (snd (rebind_host a i e name v)) = va_devices v"
  "va_devices (add_grant g v) = va_devices v" "va_devices (snd (decide_grant a i x now v)) = va_devices v"
  "va_devices (snd (revoke_grant_row a i now v)) = va_devices v" "va_devices (snd (remove_host_row a i now v)) = va_devices v"
  "va_devices (snd (vault_account issuer subject fresh v)) = va_devices v" "va_devices (snd (read_access h v)) = va_devices v"
  by (auto simp: add_host_def rebind_host_def add_grant_def decide_grant_def revoke_grant_row_def remove_host_row_def
      vault_account_def read_access_def Let_def split: option.splits)

lemma is_out_enrolled: "is_out j v \<Longrightarrow> is_out j (add_device d i v)"
proof -
  have "find p ds = Some x \<Longrightarrow> find p (ds @ es) = Some x" for p x and ds es :: "device list"
    by (induction ds) auto
  then show "is_out j v \<Longrightarrow> is_out j (add_device d i v)"
    by (auto simp: is_out_def find_device_def add_device_def issue_to_def Let_def)
qed

lemma is_out_rotated: "is_out j v \<Longrightarrow> is_out j (snd (rotate_refresh h i now v))"
proof -
  assume out: "is_out j v"
  obtain r v' where rotate: "rotate_refresh h i now v = (r, v')" by fastforce
  have "is_out j v'"
    using rotate
  proof (cases rule: rotate_cases)
    case (reused old d at)
    show ?thesis unfolding reused(6) by (rule is_out_change [OF _ _ out]) simp_all
  qed (use out is_out_same in auto)
  then show ?thesis by (simp add: rotate)
qed

lemma is_out_account:
  assumes "is_out j v"
  shows "is_out j (snd (revoke_account issuer subject why v))"
proof -
  have "find (\<lambda>d. dv_id d = j) (map (\<lambda>d. if dv_account d = a \<and> dv_revoked d = None then d\<lparr>dv_revoked := Some why\<rparr> else d) ds)
    = map_option (\<lambda>d. if dv_account d = a \<and> dv_revoked d = None then d\<lparr>dv_revoked := Some why\<rparr> else d)
        (find (\<lambda>d. dv_id d = j) ds)" for a and ds :: "device list"
    by (induction ds) auto
  moreover obtain d where "find (\<lambda>d. dv_id d = j) (va_devices v) = Some d" "dv_revoked d \<noteq> None"
    using assms by (auto simp: is_out_def find_device_def)
  ultimately show ?thesis
    by (auto simp: is_out_def revoke_account_def find_device_def intro!: exI [of _ d] split: option.splits)
qed

interpretation outs: vault_invariant "\<lambda>v. is_out j v \<and> distinct (map ga_id (va_grants v))" for j
proof unfold_locales
  fix v k why now a
  assume inv: "is_out j v \<and> distinct (map ga_id (va_grants v))"
  show "is_out j (note_seen k now v) \<and> distinct (map ga_id (va_grants (note_seen k now v)))"
    using inv is_out_change [of "\<lambda>d. if (case dv_seen d of None \<Rightarrow> True | Some at \<Rightarrow> at \<le> now - SEEN_RESOLUTION_MS)
      then d\<lparr>dv_seen := Some now\<rparr> else d" j v k] grant_ids_calls(2)
    by (auto simp: note_seen_def)
  show "is_out j (snd (revoke_device a k why v)) \<and> distinct (map ga_id (va_grants (snd (revoke_device a k why v))))"
    using inv is_out_change [of "\<lambda>x. x\<lparr>dv_revoked := (case dv_revoked x of None \<Rightarrow> Some why | was \<Rightarrow> was)\<rparr>" j v k]
      grant_ids_calls(3)
    by (auto simp: revoke_device_def split: option.splits)
qed (simp_all add: is_out_enrolled is_out_rotated is_out_account grant_ids_calls grant_ids_asked is_out_same)

lemma read_access_device:
  assumes "fst (read_access h v) = Some (d, expires)"
  shows "find_device (dv_id d) v = Some d"
proof (cases "map_of (va_access v) h")
  case None
  then show ?thesis using assms by (simp add: read_access_def)
next
  case (Some a)
  then have found: "find_device (ac_device a) v = Some d" using assms by (auto simp: read_access_def)
  then have "dv_id d = ac_device a" using find_device_Some by blast
  then show ?thesis using found by simp
qed

text \<open>Whoever acts as a device, the device is not revoked.\<close>

lemma authenticated_in:
  assumes "authenticate se access now s = (Inr c, s')"
  shows "\<not> is_out (ca_device c) (sv_vault s)"
  using assms
proof (cases rule: authenticate_cases)
  case (caller h d expires)
  then show ?thesis using read_access_device [OF caller(2)] by (simp add: is_out_def)
qed auto

lemma refreshed_in:
  assumes "refresh_with se dr refresh now s = (Inr cr, s')"
  shows "\<not> is_out (cr_device cr) (sv_vault s)"
proof -
  obtain h where h: "presented se RefreshToken refresh = Some h"
    using assms by (auto simp: refresh_with_def split: option.splits)
  obtain r v' where rotate: "rotate_refresh h (issue se dr now) now (sv_vault s) = (r, v')" by fastforce
  show ?thesis
    using rotate
  proof (cases rule: rotate_cases)
    case (retried old d at x a)
    then have "cr_device cr = dv_id d" using assms h rotate by (auto simp: refresh_with_def in_vault_def pair_for_def Let_def)
    moreover have "find_device (dv_id d) (sv_vault s) = Some d" using retried(2) find_device_Some [OF retried(2)] by simp
    ultimately show ?thesis using retried(3) by (simp add: is_out_def)
  next
    case (rotated old d)
    then have "cr_device cr = dv_id d" using assms h rotate by (auto simp: refresh_with_def in_vault_def pair_for_def Let_def)
    moreover have "find_device (dv_id d) (sv_vault s) = Some d" using rotated(2) find_device_Some [OF rotated(2)] by simp
    ultimately show ?thesis using rotated(3) by (simp add: is_out_def)
  qed (use assms h rotate in \<open>auto simp: refresh_with_def in_vault_def\<close>)
qed

lemma token_refresh: "token_wrong (RefreshWith refresh) = None \<Longrightarrow> token_call se dr (RefreshWith refresh) now s = refresh_with se dr refresh now s"
  by (simp add: token_call_def)

lemma fresh_history_append:
  "fresh_history se (es @ es') s \<longleftrightarrow> fresh_history se es s \<and> fresh_history se es' (serve_all se es s)"
  by (induction es arbitrary: s) (simp_all add: serve_all_def)

lemma serve_all_append [simp]: "serve_all se (es @ es') s = serve_all se es' (serve_all se es s)"
  by (simp add: serve_all_def)

lemma serve_all_simps [simp]: "serve_all se [] s = s" "serve_all se (e # es) s = serve_all se es (server_step se e s)"
  by (simp_all add: serve_all_def)

lemma empty_line: "lineage (sv_vault empty_server) \<and> distinct (map ga_id (va_grants (sv_vault empty_server)))"
  by (simp add: empty_server_def empty_vault_def lineage_def)

section \<open>An example server\<close>

text \<open>One redirect, hashes that change nothing, and a provider that knows one person.\<close>

definition example_url :: url where
  "example_url = \<lparr>ul_scheme = ''https'', ul_host = Some (HostDomain ''a''), ul_path = ''/'', ul_query = None,
    ul_fragment = None, ul_username = [], ul_password = None, ul_text = ''https://a/''\<rparr>"

definition example_keeper :: keeper where
  "example_keeper = \<lparr>se_redirects = [example_url], se_callback = example_url, se_parse = (\<lambda>_. Some example_url),
    se_append = (\<lambda>u _ _. u), se_hash = (\<lambda>s. s), se_s256 = (\<lambda>s. s), se_authorize = (\<lambda>u _ _ _ _. Some u),
    se_sign_in = (\<lambda>_ _ _ _ _. Inr (''issuer'', ''someone'')), se_quote = (\<lambda>s. s)\<rparr>"

definition example_draws :: "char \<Rightarrow> draws" where
  "example_draws c = \<lparr>dr_random = (\<lambda>n. c # (case n of 0 \<Rightarrow> ''0'' | Suc 0 \<Rightarrow> ''1'' | _ \<Rightarrow> ''2'')), dr_bytes = [0, 0, 0, 0, of_char c], dr_uuid = [c]\<rparr>"

definition example_challenge :: string where
  "example_challenge = replicate 43 CHR ''v''"

definition example_sign_in :: "char \<Rightarrow> char \<Rightarrow> char \<Rightarrow> device_kind \<Rightarrow> int \<Rightarrow> arrival list" where
  "example_sign_in a b c k now =
    [(Begins \<lparr>lp_challenge = example_challenge, lp_method = ''S256'', lp_redirect = ''https://a/''\<rparr>, example_draws a, now),
     (Finishes (Some ''code'') (Some [a, CHR ''0'']) None, example_draws b, now + 1),
     (Redeems (SignIn (''ys1.hc.'' @ [b, CHR ''0'']) example_challenge \<lparr>nd_name = ''device'', nd_kind = k, nd_platform = Linux\<rparr>),
       example_draws c, now + 2)]"

definition example_signed_in :: "arrival list" where
  "example_signed_in = example_sign_in CHR ''a'' CHR ''b'' CHR ''c'' KindPhone 0"

text \<open>The refresh credential of the sign-in is traded in, and what it was traded for is used.\<close>

definition example_traded :: "arrival list" where
  "example_traded = example_signed_in @
    [(Redeems (RefreshWith ''ys1.rt.c1''), example_draws CHR ''d'', 10),
     (Requests ''ys1.at.d0'' ListDevices, example_draws CHR ''e'', 20)]"

section \<open>Properties\<close>

text \<open>
  C10. Whatever arrives at the server, in whatever order: each device has exactly one refresh credential that
  was not traded in, so that of two holders of its credentials one is left with nothing.
\<close>

theorem one_refresh_credential_works:
  assumes "fresh_history se es empty_server" and "s = serve_all se es empty_server" and "d \<in> set (va_devices (sv_vault s))"
  shows "\<exists>!h. holds_refresh (sv_vault s) (dv_id d) h"
  using line.history_keeps [OF empty_line assms(1)] lineageD(4) assms(2,3) by blast

theorem one_refresh_credential_works_witness:
  "\<exists>!h. holds_refresh (sv_vault (serve_all example_keeper example_traded empty_server)) ''c'' h"
proof -
  let ?s = "serve_all example_keeper example_traded empty_server"
  let ?d = "\<lparr>dv_id = ''c'', dv_account = ''b'', dv_name = ''device'', dv_kind = KindPhone, dv_platform = Linux, dv_created = 2,
    dv_seen = Some 20, dv_revoked = None\<rparr>"
  have "fresh_history example_keeper example_traded empty_server" by code_simp
  moreover have "?d \<in> set (va_devices (sv_vault ?s))" by code_simp
  ultimately have "\<exists>!h. holds_refresh (sv_vault ?s) (dv_id ?d) h" using one_refresh_credential_works [OF _ refl] by blast
  then show ?thesis by simp
qed

text \<open>
  C7. A refresh credential that was traded in, and is presented again when it is not the one retry of an
  answer that was lost, is refused and signs its device out: whatever arrives from then on, no access
  credential acts as that device and no refresh credential of it is taken.
\<close>

theorem reused_credentials_sign_out:
  assumes "fresh_history se (es @ (Redeems (RefreshWith refresh), dr, now) # later) empty_server"
    and "s = serve_all se es empty_server"
    and "token_wrong (RefreshWith refresh) = None" and "presented se RefreshToken refresh = Some h"
    and "map_of (va_refresh (sv_vault s)) h = Some old" and "rf_spent old = Some at"
    and "find_device (rf_device old) (sv_vault s) = Some d" and "dv_revoked d = None"
    and "rf_retried old \<or> REFRESH_RETRY_MS \<le> now - at \<or> \<not> successors_unused old (sv_vault s)"
    and "t = serve_all se ((Redeems (RefreshWith refresh), dr, now) # later) s"
  shows "isl (fst (token_call se dr (RefreshWith refresh) now s))
    \<and> (\<forall>access at c t'. authenticate se access at t = (Inr c, t') \<longrightarrow> ca_device c \<noteq> dv_id d)
    \<and> (\<forall>r dr at cr t'. token_call se dr (RefreshWith r) at t = (Inr cr, t') \<longrightarrow> cr_device cr \<noteq> dv_id d)"
proof -
  let ?s = "server_step se (Redeems (RefreshWith refresh), dr, now) s"
  have j: "dv_id d = rf_device old" using find_device_Some [OF assms(7)] by simp
  have rotate: "rotate_refresh h (issue se dr now) now (sv_vault s)
      = (Reused (dv_account d),
         change_device (rf_device old) (\<lambda>x. x\<lparr>dv_revoked := Some \<lparr>rv_at = now, rv_reason = RefreshReused\<rparr>\<rparr>) (sv_vault s))"
    using assms(5-9) by (auto simp: rotate_refresh_def)
  have refused: "isl (fst (token_call se dr (RefreshWith refresh) now s))"
    by (simp add: token_refresh [OF assms(3)] refresh_with_def assms(4) in_vault_def rotate)
  have fresh: "fresh_history se es empty_server" "fresh_history se later ?s" "draws_fresh se dr (sv_vault s)"
    using assms(1,2) by (simp_all add: fresh_history_append)
  have "distinct (map ga_id (va_grants (sv_vault s)))" using line.history_keeps [OF empty_line fresh(1)] assms(2) by simp
  moreover have "is_out (dv_id d) (sv_vault ?s)"
    using assms(7) j
    by (simp add: token_refresh [OF assms(3)] refresh_with_def assms(4) in_vault_def rotate tell_revoked_def send_signal_def
        is_out_def find_device_def change_device_def find_change_first)
  moreover have "va_grants (sv_vault ?s) = va_grants (sv_vault s)"
    by (simp add: token_refresh [OF assms(3)] refresh_with_def assms(4) in_vault_def rotate tell_revoked_def send_signal_def
        change_device_def)
  ultimately have out: "is_out (dv_id d) (sv_vault t)"
    using outs.history_keeps [of "dv_id d" ?s se later] fresh(2) assms(10) by simp
  have "ca_device c \<noteq> dv_id d" if "authenticate se access at t = (Inr c, t')" for access at c t'
    using authenticated_in [OF that] out by auto
  moreover have "cr_device cr \<noteq> dv_id d" if "token_call se dr (RefreshWith r) at t = (Inr cr, t')" for r dr at cr t'
  proof -
    have "refresh_with se dr r at t = (Inr cr, t')"
      using that by (simp add: token_call_def split: option.splits)
    then show ?thesis using refreshed_in out by fastforce
  qed
  ultimately show ?thesis using refused by blast
qed

theorem reused_credentials_sign_out_witness:
  "\<nexists>access at c t. authenticate example_keeper access at (serve_all example_keeper
      [(Redeems (RefreshWith ''ys1.rt.c1''), example_draws CHR ''f'', 30)] (serve_all example_keeper example_traded empty_server))
    = (Inr c, t) \<and> ca_device c = ''c''"
proof -
  let ?s = "serve_all example_keeper example_traded empty_server"
  let ?old = "\<lparr>rf_device = ''c'', rf_expires = 7776000002, rf_spent = Some 10, rf_successor = Some (''ys1.rt.d1'', ''ys1.at.d0''),
    rf_retried = False\<rparr>"
  let ?d = "\<lparr>dv_id = ''c'', dv_account = ''b'', dv_name = ''device'', dv_kind = KindPhone, dv_platform = Linux, dv_created = 2,
    dv_seen = Some 20, dv_revoked = None\<rparr>"
  have fresh: "fresh_history example_keeper (example_traded @
      (Redeems (RefreshWith ''ys1.rt.c1''), example_draws CHR ''f'', 30) # []) empty_server" by code_simp
  have asked: "token_wrong (RefreshWith ''ys1.rt.c1'') = None"
    "presented example_keeper RefreshToken ''ys1.rt.c1'' = Some ''ys1.rt.c1''" by code_simp+
  have row: "map_of (va_refresh (sv_vault ?s)) ''ys1.rt.c1'' = Some ?old" by code_simp
  have spent: "rf_spent ?old = Some 10" by simp
  have found: "find_device (rf_device ?old) (sv_vault ?s) = Some ?d" by code_simp
  have live: "dv_revoked ?d = None" by simp
  have used: "rf_retried ?old \<or> REFRESH_RETRY_MS \<le> 30 - 10 \<or> \<not> successors_unused ?old (sv_vault ?s)" by code_simp
  show ?thesis
    using reused_credentials_sign_out [OF fresh refl asked row spent found live used refl] by auto
qed

end
