(* ===== verification/Grants.thy ===== *)
theory Grants
  imports Lineage
begin

text \<open>
  The grants of \<open>pairing.rs\<close> over any history of the server: what the owner of a host allowed is all that
  is in force, one grant for each device on each host, and none on a host that was removed; and who can
  bring one into force.  The account of a caller bounds what its request changes.
\<close>

section \<open>Grants that only lose\<close>

definition approved_grant :: "grant_row \<Rightarrow> bool" where
  "approved_grant g \<longleftrightarrow> ga_status g = GrantApproved"

abbreviation grant_pair :: "grant_row \<Rightarrow> string \<times> string" where
  "grant_pair g \<equiv> (ga_host g, ga_device g)"

text \<open>The same request, in force afterwards only when it is the row it was.\<close>

definition no_stronger :: "grant_row \<Rightarrow> grant_row \<Rightarrow> bool" where
  "no_stronger g g' \<longleftrightarrow>
    ga_id g' = ga_id g \<and> ga_account g' = ga_account g \<and> ga_host g' = ga_host g \<and> ga_device g' = ga_device g
    \<and> (in_force_or_waiting g' \<longrightarrow> g' = g)"

abbreviation grants_lose :: "grant_row list \<Rightarrow> grant_row list \<Rightarrow> bool" where
  "grants_lose \<equiv> list_all2 no_stronger"

lemma no_stronger_refl [simp]: "no_stronger g g"
  by (simp add: no_stronger_def)

lemma no_stronger_withdrawn [simp]: "no_stronger g (withdrawn now g)"
  by (simp add: no_stronger_def withdrawn_def in_force_or_waiting_def)

lemma no_stronger_superseded [simp]: "no_stronger g (superseded by now g)"
  by (simp add: no_stronger_def superseded_def in_force_or_waiting_def)

lemma grants_lose_refl [simp]: "grants_lose gs gs"
  by (simp add: list_all2_same)

lemma grants_lose_map: "(\<And>g. no_stronger g (f g)) \<Longrightarrow> grants_lose gs (map f gs)"
  by (simp add: list_all2_map2 list_all2_same)

lemma grants_lose_change_first: "(\<And>g. no_stronger g (f g)) \<Longrightarrow> grants_lose gs (change_first p f gs)"
  by (induction gs) simp_all

lemma grants_lose_from: "grants_lose gs gs' \<Longrightarrow> g' \<in> set gs' \<Longrightarrow> \<exists>g \<in> set gs. no_stronger g g'"
  by (induction rule: list_all2_induct) auto

lemma approved_waits: "approved_grant g \<Longrightarrow> in_force_or_waiting g"
  by (simp add: approved_grant_def in_force_or_waiting_def)

lemma grants_lose_approved:
  assumes "grants_lose gs gs'"
  shows "set (filter approved_grant gs') \<subseteq> set (filter approved_grant gs)"
    and "distinct (map grant_pair (filter approved_grant gs)) \<Longrightarrow> distinct (map grant_pair (filter approved_grant gs'))"
proof -
  have one: "g' = g" if "no_stronger g g'" "approved_grant g'" for g g'
    using that approved_waits by (auto simp: no_stronger_def)
  show "set (filter approved_grant gs') \<subseteq> set (filter approved_grant gs)"
    using assms by (induction rule: list_all2_induct) (use one in auto)
  show "distinct (map grant_pair (filter approved_grant gs'))" if "distinct (map grant_pair (filter approved_grant gs))"
    using assms that
  proof (induction rule: list_all2_induct)
    case (Cons g gs g' gs')
    have sub: "set (filter approved_grant gs') \<subseteq> set (filter approved_grant gs)"
      using Cons(2) by (induction rule: list_all2_induct) (use one in auto)
    show ?case
    proof (cases "approved_grant g'")
      case True
      then have "g' = g" using one Cons(1) by simp
      then show ?thesis using Cons(3,4) sub True by auto
    qed (use Cons(3,4) in \<open>auto split: if_splits\<close>)
  qed simp
qed

lemma position_of_Some: "position_of p xs = Some k \<Longrightarrow> k < length xs \<and> p (xs ! k)"
  by (induction xs arbitrary: k) (auto split: if_splits)

section \<open>What is in force\<close>

definition host_keys :: "vault \<Rightarrow> (string \<times> string \<times> int option) list" where
  "host_keys v = map (\<lambda>(h, removed). (hw_id h, hw_account h, removed)) (va_hosts v)"

text \<open>A grant names a host of its account, one that was not removed while it is in force or waits.\<close>

definition on_its_host :: "vault \<Rightarrow> grant_row \<Rightarrow> bool" where
  "on_its_host v g \<longleftrightarrow>
    (\<exists>removed. (ga_host g, ga_account g, removed) \<in> set (host_keys v) \<and> (in_force_or_waiting g \<longrightarrow> removed = None))"

text \<open>No more than was asked for, and some of it.\<close>

definition narrow :: "grant_row \<Rightarrow> bool" where
  "narrow g \<longleftrightarrow> (approved_grant g \<longrightarrow> ga_scopes g \<noteq> [] \<and> set (ga_scopes g) \<subseteq> set (ga_requested g) \<and> ga_projects g \<noteq> None)"

definition grants_sound :: "vault \<Rightarrow> bool" where
  "grants_sound v \<longleftrightarrow>
    distinct (map ga_id (va_grants v)) \<and> distinct (map fst (host_keys v))
    \<and> (\<forall>g \<in> set (va_grants v). on_its_host v g \<and> narrow g)
    \<and> distinct (map grant_pair (filter approved_grant (va_grants v)))"

lemma grants_soundI:
  assumes "distinct (map ga_id (va_grants v))" and "distinct (map fst (host_keys v))"
    and "\<And>g. g \<in> set (va_grants v) \<Longrightarrow> on_its_host v g" and "\<And>g. g \<in> set (va_grants v) \<Longrightarrow> narrow g"
    and "distinct (map grant_pair (filter approved_grant (va_grants v)))"
  shows "grants_sound v"
  using assms by (simp add: grants_sound_def)

lemma grants_soundD:
  assumes "grants_sound v"
  shows "distinct (map ga_id (va_grants v))" and "distinct (map fst (host_keys v))"
    and "\<And>g. g \<in> set (va_grants v) \<Longrightarrow> on_its_host v g" and "\<And>g. g \<in> set (va_grants v) \<Longrightarrow> narrow g"
    and "distinct (map grant_pair (filter approved_grant (va_grants v)))"
  using assms by (simp_all add: grants_sound_def)

lemma grants_sound_same: "va_grants v' = va_grants v \<Longrightarrow> host_keys v' = host_keys v \<Longrightarrow> grants_sound v \<Longrightarrow> grants_sound v'"
  by (simp add: grants_sound_def on_its_host_def)

lemma grants_sound_calls: "same_grants v v' \<Longrightarrow> grants_sound v \<Longrightarrow> grants_sound v'"
  by (rule grants_sound_same) (simp_all add: same_grants_def host_keys_def)

text \<open>Grants that lose, over hosts that keep what those in force need.\<close>

lemma grants_sound_lose:
  assumes sound: "grants_sound v" and lose: "grants_lose (va_grants v) (va_grants v')"
    and hosts: "map fst (host_keys v') = map fst (host_keys v)"
    and kept: "\<And>g. g \<in> set (va_grants v') \<Longrightarrow>
      \<exists>g0 \<in> set (va_grants v). no_stronger g0 g \<and> (on_its_host v g0 \<longrightarrow> on_its_host v' g)"
  shows "grants_sound v'"
proof (rule grants_soundI)
  have "map ga_id (va_grants v') = map ga_id (va_grants v)"
    using lose by (induction rule: list_all2_induct) (simp_all add: no_stronger_def)
  then show "distinct (map ga_id (va_grants v'))" using grants_soundD(1) [OF sound] by simp
  show "distinct (map fst (host_keys v'))" using grants_soundD(2) [OF sound] hosts by simp
  show "distinct (map grant_pair (filter approved_grant (va_grants v')))"
    by (rule grants_lose_approved(2) [OF lose grants_soundD(5) [OF sound]])
  fix g assume g: "g \<in> set (va_grants v')"
  show "on_its_host v' g" using kept [OF g] grants_soundD(3) [OF sound] by blast
  show "narrow g"
  proof (cases "approved_grant g")
    case True
    then have "g \<in> set (va_grants v)" using grants_lose_approved(1) [OF lose] g by auto
    then show ?thesis by (rule grants_soundD(4) [OF sound])
  qed (simp add: narrow_def)
qed

lemma on_its_host_lose: "no_stronger g0 g \<Longrightarrow> on_its_host v g0 \<Longrightarrow> on_its_host v g"
  by (auto simp: no_stronger_def on_its_host_def)

section \<open>The methods of the vault\<close>

lemma grants_sound_registered: "grants_sound v \<Longrightarrow> id_fresh (hw_id hr) v \<Longrightarrow> grants_sound (add_host hr v)"
proof -
  assume sound: "grants_sound v" and fresh: "id_fresh (hw_id hr) v"
  have keys: "host_keys (add_host hr v) = host_keys v @ [(hw_id hr, hw_account hr, None)]"
    by (simp add: host_keys_def add_host_def)
  have "hw_id hr \<notin> fst ` set (host_keys v)" using fresh by (force simp: host_keys_def id_fresh_def)
  then show ?thesis using sound by (auto simp: grants_sound_def keys on_its_host_def)
qed

lemma grants_sound_rebound: "grants_sound v \<Longrightarrow> grants_sound (snd (rebind_host a j e name v))"
proof (rule grants_sound_same [of _ v])
  show "va_grants (snd (rebind_host a j e name v)) = va_grants v" by simp
  have "map (\<lambda>(h, removed). (hw_id h, hw_account h, removed))
      (change_first (host_is a j) (\<lambda>(h, removed). (h\<lparr>hw_device := e, hw_name := name\<rparr>, removed)) hs)
    = map (\<lambda>(h, removed). (hw_id h, hw_account h, removed)) hs" for hs
    by (rule change_first_map) (simp add: split_def)
  then show "host_keys (snd (rebind_host a j e name v)) = host_keys v"
    by (simp add: rebind_host_def Let_def host_keys_def split: option.splits)
qed

lemma find_host_key: "find_host a j v \<noteq> None \<Longrightarrow> (j, a, None) \<in> set (host_keys v)"
proof -
  assume "find_host a j v \<noteq> None"
  then obtain h r where found: "find (host_is a j) (va_hosts v) = Some (h, r)"
    by (auto simp: find_host_def split: option.splits)
  then have "host_is a j (h, r)" "(h, r) \<in> set (va_hosts v)" by (auto simp: find_Some_iff)
  then show ?thesis by (force simp: host_is_def host_keys_def)
qed

lemma grants_sound_asked:
  assumes "grants_sound v" and "id_fresh (ga_id g) v" and "ga_status g = GrantPending"
    and "find_host (ga_account g) (ga_host g) v \<noteq> None"
  shows "grants_sound (add_grant g v)"
proof -
  have new: "\<not> approved_grant g" "narrow g" using assms(3) by (simp_all add: approved_grant_def narrow_def)
  have keys: "host_keys (add_grant g v) = host_keys v" and rows: "va_grants (add_grant g v) = va_grants v @ [g]"
    by (simp_all add: host_keys_def add_grant_def)
  show ?thesis
    using assms(1,2) new find_host_key [OF assms(4)]
    by (auto simp: grants_sound_def on_its_host_def keys rows id_fresh_def)
qed

lemma grants_sound_withdrawn: "grants_sound v \<Longrightarrow> grants_sound (snd (revoke_grant_row a j now v))"
proof (rule grants_sound_lose [of v])
  let ?v = "snd (revoke_grant_row a j now v)"
  show lose: "grants_lose (va_grants v) (va_grants ?v)"
    by (simp add: revoke_grant_row_def grants_lose_change_first)
  have keys: "host_keys ?v = host_keys v" by (simp add: revoke_grant_row_def host_keys_def)
  show "map fst (host_keys ?v) = map fst (host_keys v)" by (simp add: keys)
  show "\<exists>g0 \<in> set (va_grants v). no_stronger g0 g \<and> (on_its_host v g0 \<longrightarrow> on_its_host ?v g)" if g: "g \<in> set (va_grants ?v)" for g
  proof -
    obtain g0 where "g0 \<in> set (va_grants v)" "no_stronger g0 g" using grants_lose_from [OF lose g] by blast
    moreover have "on_its_host ?v g = on_its_host v g" by (simp add: on_its_host_def keys)
    ultimately show ?thesis using on_its_host_lose by blast
  qed
qed

lemma change_first_keeps: "x \<in> set xs \<Longrightarrow> \<not> p x \<Longrightarrow> x \<in> set (change_first p f xs)"
  by (induction xs) auto

lemma grants_sound_removed: "grants_sound v \<Longrightarrow> grants_sound (snd (remove_host_row a j now v))"
proof -
  assume sound: "grants_sound v"
  let ?v = "snd (remove_host_row a j now v)"
  show ?thesis
  proof (cases "find (host_is a j) (va_hosts v)")
    case None
    then show ?thesis using sound by (simp add: remove_host_row_def)
  next
    case (Some row)
    have grants: "va_grants ?v = map (\<lambda>g. if ga_host g = j then withdrawn now g else g) (va_grants v)"
      and hosts: "va_hosts ?v = change_first (host_is a j) (\<lambda>(h, _). (h, Some now)) (va_hosts v)"
      using Some by (simp_all add: remove_host_row_def)
    have key: "map (\<lambda>(h, r). (hw_id h, hw_account h)) (va_hosts ?v) = map (\<lambda>(h, r). (hw_id h, hw_account h)) (va_hosts v)"
      unfolding hosts by (rule change_first_map) (simp add: split_def)
    have other: "(i, b, r) \<in> set (host_keys ?v)" if key_there: "(i, b, r) \<in> set (host_keys v)" "i \<noteq> j" for i b r
    proof -
      obtain h where h: "(h, r) \<in> set (va_hosts v)" "hw_id h = i" "hw_account h = b" using key_there(1) by (auto simp: host_keys_def)
      then have "(h, r) \<in> set (va_hosts ?v)" unfolding hosts by (intro change_first_keeps) (simp_all add: host_is_def key_there(2))
      then show ?thesis using h by (force simp: host_keys_def)
    qed
    have there: "\<exists>r. (i, b, r) \<in> set (host_keys ?v)" if "(i, b, r) \<in> set (host_keys v)" for i b r
    proof -
      have "(i, b) \<in> set (map (\<lambda>(h, r). (hw_id h, hw_account h)) (va_hosts ?v))"
        unfolding key using that by (force simp: host_keys_def)
      then show ?thesis by (force simp: host_keys_def)
    qed
    have lose: "grants_lose (va_grants v) (va_grants ?v)" unfolding grants by (rule grants_lose_map) simp
    have on: "on_its_host ?v (if ga_host g = j then withdrawn now g else g)" if "on_its_host v g" for g
    proof (cases "ga_host g = j")
      case True
      have "\<not> in_force_or_waiting (withdrawn now g)" "ga_host (withdrawn now g) = ga_host g" "ga_account (withdrawn now g) = ga_account g"
        by (simp_all add: withdrawn_def in_force_or_waiting_def)
      then show ?thesis using that there True by (auto simp: on_its_host_def)
    next
      case False
      then show ?thesis using that other by (auto simp: on_its_host_def)
    qed
    show ?thesis
    proof (rule grants_sound_lose [OF sound lose])
      have "map fst (host_keys w) = map fst (map (\<lambda>(h, r). (hw_id h, hw_account h)) (va_hosts w))" for w
        by (simp add: host_keys_def split_def)
      then show "map fst (host_keys ?v) = map fst (host_keys v)" by (simp only: key)
      show "\<exists>g0 \<in> set (va_grants v). no_stronger g0 g \<and> (on_its_host v g0 \<longrightarrow> on_its_host ?v g)" if g: "g \<in> set (va_grants ?v)" for g
      proof -
        obtain g0 where "g0 \<in> set (va_grants v)" "g = (if ga_host g0 = j then withdrawn now g0 else g0)"
          using g by (auto simp: grants)
        then show ?thesis using on [of g0] by (intro bexI [of _ g0]) simp_all
      qed
    qed
  qed
qed

lemma distinct_replaced:
  assumes "distinct (map f (filter p (xs @ x # ys)))" and "\<not> p x"
    and "\<And>z. p y \<Longrightarrow> z \<in> set xs \<union> set ys \<Longrightarrow> p z \<Longrightarrow> f z \<noteq> f y"
  shows "distinct (map f (filter p (xs @ y # ys)))"
proof (cases "p y")
  case True
  then have "f y \<notin> f ` {z \<in> set xs. p z}" "f y \<notin> f ` {z \<in> set ys. p z}" using assms(3) by fastforce+
  then show ?thesis using assms(1,2) True by simp
qed (use assms(1,2) in simp)

text \<open>An approval takes the place of what the device held on the host.\<close>

lemma grants_sound_decided:
  assumes sound: "grants_sound v"
    and given: "\<And>g scopes projects. g \<in> set (va_grants v) \<Longrightarrow> ga_id g = j \<Longrightarrow> x = Approve scopes projects \<Longrightarrow>
      scopes \<noteq> [] \<and> set scopes \<subseteq> set (ga_requested g)"
  shows "grants_sound (snd (decide_grant a j x now v))"
proof (cases "position_of (\<lambda>g. ga_id g = j \<and> ga_account g = a \<and> ga_status g = GrantPending \<and> now < ga_expires g) (va_grants v)")
  case None
  then show ?thesis using sound by (simp add: decide_grant_def)
next
  case (Some k)
  let ?g = "va_grants v ! k"
  let ?others = "if x = Deny then va_grants v else map (superseded ?g now) (va_grants v)"
  let ?row = "answered x now (?others ! k)"
  let ?v = "snd (decide_grant a j x now v)"
  have k: "k < length (va_grants v)" "ga_id ?g = j" "ga_status ?g = GrantPending" using position_of_Some [OF Some] by simp_all
  have grants: "va_grants ?v = ?others[k := ?row]" and keys: "host_keys ?v = host_keys v"
    using Some by (simp_all add: decide_grant_def Let_def host_keys_def)
  have at: "?others ! k = ?g" using k by (simp add: superseded_def)
  have lose: "grants_lose (va_grants v) ?others" by (simp add: grants_lose_map)
  have own: "on_its_host v ?g" using grants_soundD(3) [OF sound] k(1) by simp
  have others_on: "on_its_host v g" if "g \<in> set ?others" for g
    using grants_lose_from [OF lose that] on_its_host_lose grants_soundD(3) [OF sound] by blast
  have row_on: "on_its_host v ?row"
    using own k(3) unfolding at by (cases x) (auto simp: answered_def on_its_host_def in_force_or_waiting_def)
  have row_narrow: "narrow ?row"
    using given [of ?g] k unfolding at by (cases x) (auto simp: answered_def narrow_def approved_grant_def)
  have others_narrow: "narrow g" if "g \<in> set ?others" for g
  proof (cases "approved_grant g")
    case True
    then have "g \<in> set (va_grants v)" using grants_lose_approved(1) [OF lose] that by auto
    then show ?thesis by (rule grants_soundD(4) [OF sound])
  qed (simp add: narrow_def)
  have among: "g \<in> set ?others \<or> g = ?row" if "g \<in> set (va_grants ?v)" for g
    using that set_update_subset_insert [of ?others k ?row] unfolding grants by blast
  have pairs: "distinct (map grant_pair (filter approved_grant ?others))"
    by (rule grants_lose_approved(2) [OF lose grants_soundD(5) [OF sound]])
  have split: "?others = take k ?others @ ?g # drop (Suc k) ?others" "?others[k := ?row] = take k ?others @ ?row # drop (Suc k) ?others"
  proof -
    have len: "k < length ?others" using k(1) by simp
    show "?others = take k ?others @ ?g # drop (Suc k) ?others" using id_take_nth_drop [OF len] unfolding at .
    show "?others[k := ?row] = take k ?others @ ?row # drop (Suc k) ?others" by (rule upd_conv_take_nth_drop [OF len])
  qed
  have around: "distinct (map grant_pair (filter approved_grant (take k ?others @ ?g # drop (Suc k) ?others)))"
    using arg_cong [OF split(1), of "\<lambda>os. distinct (map grant_pair (filter approved_grant os))"] pairs by (rule iffD1)
  show ?thesis
  proof (rule grants_soundI)
    show "distinct (map ga_id (va_grants ?v))" "distinct (map fst (host_keys ?v))"
      using grants_soundD(1,2) [OF sound] by (simp_all add: keys)
    show "on_its_host ?v g" if "g \<in> set (va_grants ?v)" for g
      using among [OF that] others_on row_on by (auto simp: on_its_host_def keys)
    show "narrow g" if "g \<in> set (va_grants ?v)" for g
      using among [OF that] others_narrow row_narrow by blast
    show "distinct (map grant_pair (filter approved_grant (va_grants ?v)))"
      unfolding grants split(2)
    proof (rule distinct_replaced [OF around])
      show "\<not> approved_grant ?g" using k(3) by (simp add: approved_grant_def)
      fix g
      assume row: "approved_grant ?row" and g: "g \<in> set (take k ?others) \<union> set (drop (Suc k) ?others)" "approved_grant g"
      have "x \<noteq> Deny" using row unfolding at by (auto simp: approved_grant_def answered_def)
      moreover have "g \<in> set ?others" using g(1) in_set_takeD [of g k ?others] in_set_dropD [of g "Suc k" ?others] by blast
      ultimately obtain g0 where "g = superseded ?g now g0" by auto
      moreover have "grant_pair ?row = grant_pair ?g" unfolding at by (simp add: answered_def split: decision.splits)
      ultimately show "grant_pair g \<noteq> grant_pair ?row"
        using g(2) by (auto simp: superseded_def approved_grant_def split: if_splits)
    qed
  qed
qed

interpretation held: vault_invariant grants_sound
proof unfold_locales
  show "distinct (map ga_id (va_grants v))" if "grants_sound v" for v using that by (rule grants_soundD(1))
qed (simp_all add: grants_sound_calls [OF same_grants_calls(1)] grants_sound_calls [OF same_grants_calls(2)]
    grants_sound_calls [OF same_grants_calls(3)] grants_sound_calls [OF same_grants_calls(4)]
    grants_sound_calls [OF same_grants_calls(5)] grants_sound_calls [OF same_grants_calls(6)]
    grants_sound_calls [OF same_grants_calls(7)] grants_sound_calls [OF same_grants_calls(8)]
    grants_sound_calls [OF same_grants_calls(9)] grants_sound_calls [OF same_grants_calls(10)]
    grants_sound_calls [OF same_grants_calls(11)]
    grants_sound_registered grants_sound_rebound grants_sound_asked grants_sound_withdrawn grants_sound_removed grants_sound_decided)

lemma empty_sound: "grants_sound (sv_vault empty_server)"
  by (simp add: grants_sound_def empty_server_def empty_vault_def host_keys_def)

section \<open>Who brings a grant into force\<close>

definition approves_nothing :: "vault \<Rightarrow> vault \<Rightarrow> bool" where
  "approves_nothing v v' \<longleftrightarrow> set (filter approved_grant (va_grants v')) \<subseteq> set (filter approved_grant (va_grants v))"

lemma approves_same: "va_grants v' = va_grants v \<Longrightarrow> approves_nothing v v'"
  by (simp add: approves_nothing_def)

lemma in_vault_grants: "in_vault f s = (x, s') \<Longrightarrow> va_grants (snd (f (sv_vault s))) = va_grants (sv_vault s) \<Longrightarrow>
    va_grants (sv_vault s') = va_grants (sv_vault s)"
  by (auto simp: in_vault_def split: prod.splits)

lemma taken_grants [simp]:
  "va_grants (snd (take_login h v)) = va_grants v" "va_grants (snd (take_handoff h v)) = va_grants v"
  "va_grants (snd (redeem_offer a key now v)) = va_grants v"
  using redeem_offer_changes [of a key now v] by (auto simp: take_login_def take_handoff_def split: prod.splits)

lemma method_grants [simp]:
  "va_grants (snd (read_access h v)) = va_grants v" "va_grants (note_seen j now v) = va_grants v"
  "va_grants (snd (revoke_device a j why v)) = va_grants v" "va_grants (snd (revoke_account issuer subject why v)) = va_grants v"
  "va_grants (snd (rotate_refresh h i now v)) = va_grants v" "va_grants (add_device d i v) = va_grants v"
  "va_grants (snd (vault_account issuer subject fresh v)) = va_grants v"
  using same_grants_calls(1-7) by (simp_all add: same_grants_def)

lemma told_grants [simp]: "va_grants (sv_vault (tell_revoked a s)) = va_grants (sv_vault s)"
  by (simp add: tell_revoked_def send_signal_def)

lemma call_grants:
  "va_grants (sv_vault (snd (begin_login se dr p now s))) = va_grants (sv_vault s)"
  "va_grants (sv_vault (snd (finish_login se dr code state err now s))) = va_grants (sv_vault s)"
  "va_grants (sv_vault (snd (token_call se dr rq now s))) = va_grants (sv_vault s)"
  "va_grants (sv_vault (snd (authenticate se access now s))) = va_grants (sv_vault s)"
  "va_grants (sv_vault (snd (register_host dr c r now s))) = va_grants (sv_vault s)"
  "va_grants (sv_vault (snd (revoke_call c i now s))) = va_grants (sv_vault s)"
  "va_grants (sv_vault (snd (make_offer se dr c i now s))) = va_grants (sv_vault s)"
  "va_grants (sv_vault (operator_revokes issuer subject now s)) = va_grants (sv_vault s)"
  subgoal by (simp add: begin_login_def put_login_def Let_def split: option.splits)
  subgoal by (auto simp: finish_login_def Let_def put_handoff_def mint_def split: option.splits prod.splits sum.splits
      dest!: in_vault_grants)
  subgoal by (auto simp: token_call_def redeem_code_def refresh_with_def split: option.splits token_request.splits
      prod.splits rotation.splits dest!: in_vault_grants)
  subgoal by (auto simp: authenticate_def split: option.splits prod.splits dest!: in_vault_grants)
  subgoal by (auto simp: register_host_def Let_def split: option.splits prod.splits dest!: in_vault_grants)
  subgoal by (auto simp: revoke_call_def split: prod.splits bool.splits dest!: in_vault_grants)
  subgoal by (auto simp: make_offer_def Let_def mint_def short_code_def put_offer_def split: sum.splits)
  subgoal by (auto simp: operator_revokes_def send_signal_def split: prod.splits option.splits dest!: in_vault_grants)
  done

lemma pair_approves_nothing: "approves_nothing (sv_vault s) (sv_vault (snd (pair_call se dr c q now s)))"
  by (auto simp: pair_call_def Let_def send_signal_def add_grant_def approves_nothing_def approved_grant_def
      split: option.splits prod.splits redemption.splits dest!: in_vault_grants)

lemma in_vault_snd [simp]: "sv_vault (snd (in_vault f s)) = snd (f (sv_vault s))"
  by (simp add: in_vault_def split: prod.splits)

lemma approves_lose: "grants_lose (va_grants v) (va_grants v') \<Longrightarrow> approves_nothing v v'"
  by (simp only: approves_nothing_def grants_lose_approved(1))

lemma withdraw_approves_nothing: "approves_nothing (sv_vault s) (sv_vault (snd (revoke_grant_call c i now s)))"
  by (rule approves_lose)
    (auto simp: revoke_grant_call_def revoke_grant_row_def grants_lose_change_first split: sum.splits)

lemma remove_approves_nothing: "approves_nothing (sv_vault s) (sv_vault (snd (remove_host_call c i now s)))"
  by (rule approves_lose)
    (auto simp: remove_host_call_def remove_host_row_def grants_lose_map split: sum.splits option.splits)

lemma decide_approves:
  assumes "g \<in> set (va_grants (sv_vault (snd (decide_call c i d now s))))" and "approved_grant g"
    and "g \<notin> set (va_grants (sv_vault s))" and "distinct (map ga_id (va_grants (sv_vault s)))"
  obtains x h g0 where "d = Some x" and "find_host (ca_account c) (ga_host g) (sv_vault s) = Some h" and "hw_device h = ca_device c"
    and "ga_id g = i" and "ga_account g = ca_account c" and "ga_scopes g = gd_scopes x" and "ga_projects g = Some (gd_projects x)"
    and "g0 \<in> set (va_grants (sv_vault s))" and "ga_id g0 = i" and "ga_status g0 = GrantPending" and "now < ga_expires g0"
proof -
  obtain w where w: "seen_grant c i (sv_vault s) = Inr w"
    using assms by (cases "seen_grant c i (sv_vault s)") (auto simp: decide_call_def)
  obtain h where h: "own_host c (ga_host (gv_grant w)) (sv_vault s) = Inr h"
    using assms w by (cases "own_host c (ga_host (gv_grant w)) (sv_vault s)") (auto simp: decide_call_def)
  have waits: "shown_state w now = ShownPending" using assms w h by (auto simp: decide_call_def split: if_splits)
  obtain y where y: "decision_given w d = Inr y"
    using assms w h waits by (cases "decision_given w d") (auto simp: decide_call_def)
  have rows: "va_grants (sv_vault (snd (decide_call c i d now s))) = va_grants (snd (decide_grant (ca_account c) i y now (sv_vault s)))"
    using w h waits y by (auto simp: decide_call_def in_vault_def Let_def split: prod.splits option.splits)
  let ?gs = "va_grants (sv_vault s)"
  obtain k where k: "position_of (\<lambda>g. ga_id g = i \<and> ga_account g = ca_account c \<and> ga_status g = GrantPending \<and> now < ga_expires g)
      ?gs = Some k"
    using assms(1,3) unfolding rows by (auto simp: decide_grant_def split: option.splits)
  let ?g0 = "?gs ! k"
  let ?others = "if y = Deny then ?gs else map (superseded ?g0 now) ?gs"
  have g0: "?g0 \<in> set ?gs" "ga_id ?g0 = i" "ga_account ?g0 = ca_account c" "ga_status ?g0 = GrantPending" "now < ga_expires ?g0"
    and len: "k < length ?gs"
    using position_of_Some [OF k] by simp_all
  have at: "?others ! k = ?g0" using len g0(4) by (simp add: superseded_def)
  have "g \<in> set (?others[k := answered y now ?g0])"
    using assms(1) k at unfolding rows by (simp add: decide_grant_def Let_def)
  moreover have "g \<notin> set ?others"
  proof
    assume "g \<in> set ?others"
    moreover have "grants_lose ?gs ?others" by (simp add: grants_lose_map)
    ultimately have "g \<in> set ?gs" using grants_lose_approved(1) assms(2) by fastforce
    then show False using assms(3) by simp
  qed
  ultimately have g: "g = answered y now ?g0" using set_update_subset_insert [of ?others k "answered y now ?g0"] by blast
  obtain x where x: "d = Some x" "y = Approve (gd_scopes x) (gd_projects x)"
    using y assms(2) unfolding g by (auto simp: decision_given_def answered_def approved_grant_def split: option.splits)
  have "w \<in> set (grants_of (ca_account c) (OneGrant i) (sv_vault s))"
    using w by (auto simp: seen_grant_def split: list.splits option.splits if_splits)
  then have "gv_grant w \<in> set ?gs" "ga_id (gv_grant w) = i" by (auto simp: grants_of_def view_grant_def Let_def)
  then have same: "gv_grant w = ?g0" using g0(1,2) assms(4) by (auto simp: distinct_map dest: inj_onD)
  have "ga_host g = ga_host ?g0" "ga_id g = i" "ga_account g = ca_account c" using g0 by (simp_all add: g x(2) answered_def)
  moreover have "ga_scopes g = gd_scopes x" "ga_projects g = Some (gd_projects x)" by (simp_all add: g x(2) answered_def)
  moreover have "find_host (ca_account c) (ga_host ?g0) (sv_vault s) = Some h \<and> hw_device h = ca_device c"
    using h same by (auto simp: own_host_def split: option.splits if_splits)
  ultimately show thesis using that [of x h ?g0] x(1) g0 by simp
qed

lemma caller_approves_nothing:
  "(\<And>i d. body \<noteq> DecideGrant i d) \<Longrightarrow> approves_nothing (sv_vault s) (sv_vault (snd (caller_request se dr c body now s)))"
  by (cases body) (auto simp: with_id_def map_prod_def split_def approves_same call_grants pair_approves_nothing
      withdraw_approves_nothing remove_approves_nothing split: option.splits)

text \<open>A host signs in and registers, a phone of its account signs in, and asks it for a grant.\<close>

definition example_asked :: "arrival list" where
  "example_asked = example_sign_in CHR ''a'' CHR ''b'' CHR ''c'' KindHost 0
    @ [(Requests ''ys1.at.c0'' (RegisterHost \<lparr>hr_host = None, hr_name = ''host''\<rparr>), example_draws CHR ''h'', 10)]
    @ example_sign_in CHR ''d'' CHR ''e'' CHR ''f'' KindPhone 20
    @ [(Requests ''ys1.at.c0'' (MakeOffer ''h''), example_draws CHR ''o'', 30),
       (Requests ''ys1.at.f0'' (AskPairing \<lparr>pq_offer = OfferSecret ''ys1.po.o0'', pq_scopes = [WorkspaceRead, TerminalRead]\<rparr>),
        example_draws CHR ''g'', 40)]"

definition example_answer :: arrival where
  "example_answer = (Requests ''ys1.at.c0'' (DecideGrant ''g'' (Some \<lparr>gd_scopes = [WorkspaceRead], gd_projects = AllProjects\<rparr>)),
    example_draws CHR ''i'', 50)"

definition example_grant :: grant_row where
  "example_grant = \<lparr>ga_id = ''g'', ga_account = ''b'', ga_host = ''h'', ga_device = ''f'', ga_requested = [WorkspaceRead, TerminalRead],
    ga_scopes = [WorkspaceRead], ga_projects = Some AllProjects, ga_status = GrantApproved, ga_created = 40, ga_expires = 300040,
    ga_decided = Some 50\<rparr>"

section \<open>Properties\<close>



text \<open>
  C8. Whatever arrived before: a grant comes into force in one way only, by the request of a device that is
  signed in and is its host, of the same account, on a grant that waits and has not lapsed, with the scopes
  and projects of that request.
\<close>

theorem only_the_host_approves:
  assumes "fresh_history se es empty_server" and "s = serve_all se es empty_server"
    and "g \<in> set (va_grants (sv_vault (server_step se (ev, dr, now) s)))" and "ga_status g = GrantApproved"
    and "g \<notin> set (va_grants (sv_vault s))"
  shows "\<exists>access x c s1 h g0. ev = Requests access (DecideGrant (ga_id g) (Some x)) \<and> authenticate se access now s = (Inr c, s1)
    \<and> find_host (ca_account c) (ga_host g) (sv_vault s1) = Some h \<and> hw_device h = ca_device c \<and> ca_account c = ga_account g
    \<and> ga_scopes g = gd_scopes x \<and> ga_projects g = Some (gd_projects x)
    \<and> g0 \<in> set (va_grants (sv_vault s)) \<and> ga_id g0 = ga_id g \<and> ga_status g0 = GrantPending \<and> now < ga_expires g0"
proof -
  have sound: "grants_sound (sv_vault s)" using held.history_keeps [OF empty_sound assms(1)] assms(2) by simp
  have new: "\<not> approves_nothing (sv_vault s) (sv_vault (server_step se (ev, dr, now) s))"
    using assms(3-5) by (auto simp: approves_nothing_def approved_grant_def)
  obtain access body where ev: "ev = Requests access body"
    using new approves_same by (cases ev) (auto simp: call_grants)
  have known: "va_grants (sv_vault s1) = va_grants (sv_vault s)" if "authenticate se access now s = (r, s1)" for r s1
    using call_grants(4) [of se access now s] that by simp
  obtain s1 c where c: "authenticate se access now s = (Inr c, s1)"
  proof (cases "authenticate se access now s")
    case (Pair r s1)
    then show thesis using new known [OF Pair] that by (cases r) (auto simp: ev request_call_def approves_nothing_def)
  qed
  have same: "va_grants (sv_vault s1) = va_grants (sv_vault s)" using call_grants(4) [of se access now s] c by simp
  have step: "server_step se (ev, dr, now) s = snd (caller_request se dr c body now s1)"
    by (simp add: ev request_call_def c)
  have fresh_row: "g \<in> set (va_grants (sv_vault (snd (caller_request se dr c body now s1))))" "g \<notin> set (va_grants (sv_vault s1))"
    using assms(3,5) same by (simp_all add: step)
  have "\<not> approves_nothing (sv_vault s1) (sv_vault (snd (caller_request se dr c body now s1)))"
    using fresh_row assms(4) by (auto simp: approves_nothing_def approved_grant_def)
  then obtain i d where body: "body = DecideGrant i d" using caller_approves_nothing by blast
  have i: "id_of i = Some i" using fresh_row by (auto simp: body with_id_def id_of_def split: if_splits)
  have row: "g \<in> set (va_grants (sv_vault (snd (decide_call c i d now s1))))"
    using fresh_row(1) by (simp add: body with_id_def i map_prod_def split_def)
  have ids: "distinct (map ga_id (va_grants (sv_vault s1)))" using grants_soundD(1) [OF sound] same by simp
  have approved: "approved_grant g" using assms(4) by (simp add: approved_grant_def)
  show ?thesis
    by (rule decide_approves [OF row approved fresh_row(2) ids]) (use ev body c same in auto)
qed


theorem only_the_host_approves_witness:
  "\<exists>c s. authenticate example_keeper ''ys1.at.c0'' 50 (serve_all example_keeper example_asked empty_server) = (Inr c, s)
    \<and> ca_account c = ''b''"
proof -
  let ?s = "serve_all example_keeper example_asked empty_server"
  let ?ev = "Requests ''ys1.at.c0'' (DecideGrant ''g'' (Some \<lparr>gd_scopes = [WorkspaceRead], gd_projects = AllProjects\<rparr>))"
  have fresh: "fresh_history example_keeper example_asked empty_server" by code_simp
  have row: "example_grant \<in> set (va_grants (sv_vault (server_step example_keeper (?ev, example_draws CHR ''i'', 50) ?s)))" by code_simp
  have given: "ga_status example_grant = GrantApproved" by code_simp
  have new: "example_grant \<notin> set (va_grants (sv_vault ?s))" by code_simp
  obtain access x c t where "?ev = Requests access (DecideGrant (ga_id example_grant) (Some x))"
    and "authenticate example_keeper access 50 ?s = (Inr c, t)" and "ca_account c = ga_account example_grant"
    using only_the_host_approves [OF fresh refl row given new] by (elim exE conjE) (rule that)
  then show ?thesis by (simp add: example_grant_def)
qed

end
