(* ===== verification/Accounts.thy ===== *)
theory Accounts
  imports Grants
begin

text \<open>
  What a signed-in device's request can change: nothing that belongs to another account.  The rows of an
  account are its devices, its hosts and its grants; the refresh credentials and the list of accounts are
  not touched by a request at all.
\<close>

section \<open>The rows of an account\<close>

definition rows_of :: "string \<Rightarrow> vault \<Rightarrow> device list \<times> (host_row \<times> int option) list \<times> grant_row list" where
  "rows_of a v =
    (filter (\<lambda>d. dv_account d = a) (va_devices v), filter (\<lambda>(h, _). hw_account h = a) (va_hosts v),
     filter (\<lambda>g. ga_account g = a) (va_grants v))"

definition same_rows :: "string \<Rightarrow> vault \<Rightarrow> vault \<Rightarrow> bool" where
  "same_rows a v v' \<longleftrightarrow> rows_of a v' = rows_of a v \<and> va_refresh v' = va_refresh v \<and> va_accounts v' = va_accounts v"

lemma same_rows_refl [simp]: "same_rows a v v"
  by (simp add: same_rows_def)

lemma same_rows_trans: "same_rows a v v' \<Longrightarrow> same_rows a v' v'' \<Longrightarrow> same_rows a v v''"
  by (simp add: same_rows_def)

lemma filter_change_first: "(\<And>x. p x \<Longrightarrow> \<not> q x \<and> \<not> q (f x)) \<Longrightarrow> filter q (change_first p f xs) = filter q xs"
  by (induction xs) auto

lemma filter_map_other: "(\<And>x. x \<in> set xs \<Longrightarrow> f x = x \<or> \<not> q x \<and> \<not> q (f x)) \<Longrightarrow> filter q (map f xs) = filter q xs"
  by (induction xs) force+

lemma filter_update_other: "k < length xs \<Longrightarrow> \<not> q (xs ! k) \<Longrightarrow> \<not> q y \<Longrightarrow> filter q (xs[k := y]) = filter q xs"
  by (induction xs arbitrary: k) (auto simp: nth_Cons split: nat.splits)

lemma same_rows_fields [simp]:
  "same_rows a v (v'\<lparr>va_offers := fs\<rparr>) \<longleftrightarrow> same_rows a v v'" "same_rows a v (v'\<lparr>va_signals := ss\<rparr>) \<longleftrightarrow> same_rows a v v'"
  "same_rows a v (v'\<lparr>va_access := xs\<rparr>) \<longleftrightarrow> same_rows a v v'"
  by (simp_all add: same_rows_def rows_of_def)

lemma same_rows_told [simp]: "same_rows a v (sv_vault (tell_revoked b s)) \<longleftrightarrow> same_rows a v (sv_vault s)"
  by (simp add: tell_revoked_def send_signal_def)

section \<open>Each request\<close>

lemma change_device_other:
  assumes "find_device j v = Some d" and "dv_account d \<noteq> a" and "\<And>x. dv_account (f x) = dv_account x"
  shows "same_rows a v (change_device j f v)"
proof -
  have "filter (\<lambda>d. dv_account d = a) (change_first (\<lambda>d. dv_id d = j) f ds) = filter (\<lambda>d. dv_account d = a) ds"
    if "find (\<lambda>d. dv_id d = j) ds = Some d" for ds
    using that assms(2,3) by (induction ds) (auto split: if_splits)
  then show ?thesis using assms(1) by (simp add: same_rows_def rows_of_def change_device_def find_device_def)
qed

lemma authenticated_other:
  assumes "authenticate se access now s = (Inr c, s1)" and "a \<noteq> ca_account c"
  shows "same_rows a (sv_vault s) (sv_vault s1)"
  using assms(1)
proof (cases rule: authenticate_cases)
  case (caller h d expires)
  let ?v = "snd (read_access h (sv_vault s))"
  have read: "same_rows a (sv_vault s) ?v" by (simp add: read_access_def split: option.splits)
  have "find_device (dv_id d) ?v = Some d"
    using read_access_device [OF caller(2)] by (simp add: find_device_def)
  then have "same_rows a ?v (note_seen (dv_id d) now ?v)"
    using assms(2) caller(5) by (auto simp: note_seen_def intro!: change_device_other)
  then show ?thesis using read caller(6) same_rows_trans by simp
qed auto

lemma revoke_other: "a \<noteq> ca_account c \<Longrightarrow> same_rows a (sv_vault s) (sv_vault (snd (revoke_call c i now s)))"
  by (auto simp: revoke_call_def in_vault_def revoke_device_def intro!: change_device_other split: option.splits)

lemma rebind_other: "a \<noteq> b \<Longrightarrow> same_rows a v (snd (rebind_host b j e name v))"
proof -
  assume other: "a \<noteq> b"
  have "filter (\<lambda>(h, _). hw_account h = a) (change_first (host_is b j) (\<lambda>(h, removed). (h\<lparr>hw_device := e, hw_name := name\<rparr>, removed)) hs)
      = filter (\<lambda>(h, _). hw_account h = a) hs" for hs
    using other by (intro filter_change_first) (auto simp: host_is_def)
  then show ?thesis by (simp add: rebind_host_def Let_def same_rows_def rows_of_def split: option.splits)
qed

lemma add_host_other: "hw_account h \<noteq> a \<Longrightarrow> same_rows a v (add_host h v)"
  by (simp add: add_host_def same_rows_def rows_of_def)

lemma register_other:
  assumes "a \<noteq> ca_account c"
  shows "same_rows a (sv_vault s) (sv_vault (snd (register_host dr c r now s)))"
proof -
  have "same_rows a (sv_vault s) v" if "rebind_host (ca_account c) j e name (sv_vault s) = (x, v)" for j e name x v
    using rebind_other [OF assms, of "sv_vault s" j e name] that by simp
  then show ?thesis
    using assms by (auto simp: register_host_def in_vault_def Let_def intro!: add_host_other split: option.splits prod.splits)
qed

lemma offer_other: "same_rows a (sv_vault s) (sv_vault (snd (make_offer se dr c i now s)))"
  by (auto simp: make_offer_def Let_def mint_def short_code_def put_offer_def split: sum.splits)

lemma redeemed_rows: "same_rows a v (snd (redeem_offer b key now v))"
  using redeem_offer_changes [of b key now v] by auto

lemma pair_other: 
  assumes "a \<noteq> ca_account c"
  shows "same_rows a (sv_vault s) (sv_vault (snd (pair_call se dr c q now s)))"
proof -
  have took: "same_rows a (sv_vault s) (sv_vault s1)" if "in_vault (redeem_offer b key now) s = (x, s1)" for b key x s1
    using redeemed_rows [of a "sv_vault s" b key now] that by (auto simp: in_vault_def split: prod.splits)
  have asks: "same_rows a v (add_grant g v') \<longleftrightarrow> same_rows a v v'" if "ga_account g = ca_account c" for g v v'
    using that assms by (simp add: same_rows_def rows_of_def add_grant_def)
  show ?thesis
    using took by (auto simp: pair_call_def Let_def send_signal_def asks split: option.splits prod.splits redemption.splits)
qed

text \<open>Grants on one host are of one account.\<close>

lemma one_account:
  assumes "grants_sound v" and "g \<in> set (va_grants v)" and "(ga_host g, a, r) \<in> set (host_keys v)"
  shows "ga_account g = a"
proof -
  obtain r' where "(ga_host g, ga_account g, r') \<in> set (host_keys v)"
    using grants_soundD(3) [OF assms(1,2)] by (auto simp: on_its_host_def)
  moreover have "inj_on fst (set (host_keys v))" using grants_soundD(2) [OF assms(1)] by (simp add: distinct_map)
  ultimately have "(ga_host g, ga_account g, r') = (ga_host g, a, r)" using assms(3) by (metis inj_onD fst_conv)
  then show ?thesis by simp
qed

lemma one_host_account:
  assumes "grants_sound v" and "g \<in> set (va_grants v)" and "g' \<in> set (va_grants v)" and "ga_host g = ga_host g'"
  shows "ga_account g = ga_account g'"
  using grants_soundD(3) [OF assms(1,3)] one_account [OF assms(1,2)] assms(4) by (auto simp: on_its_host_def)

lemma withdrawn_account [simp]: "ga_account (withdrawn now g) = ga_account g"
  by (simp add: withdrawn_def)

lemma withdraw_other: "a \<noteq> ca_account c \<Longrightarrow> same_rows a (sv_vault s) (sv_vault (snd (revoke_grant_call c i now s)))"
proof -
  assume other: "a \<noteq> ca_account c"
  have "same_rows a v (snd (revoke_grant_row (ca_account c) i now v))" for v
    using other by (auto simp: revoke_grant_row_def same_rows_def rows_of_def intro!: filter_change_first)
  then show ?thesis by (simp add: revoke_grant_call_def split: sum.splits)
qed

lemma remove_other:
  assumes "grants_sound (sv_vault s)" and "a \<noteq> ca_account c"
  shows "same_rows a (sv_vault s) (sv_vault (snd (remove_host_call c i now s)))"
proof -
  let ?v = "sv_vault s"
  have "same_rows a ?v (snd (remove_host_row (ca_account c) j now ?v))" for j
  proof (cases "find (host_is (ca_account c) j) (va_hosts ?v)")
    case None
    then show ?thesis by (simp add: remove_host_row_def)
  next
    case (Some row)
    then have "find_host (ca_account c) j ?v \<noteq> None" by (simp add: find_host_def split: prod.splits)
    then have key: "(j, ca_account c, None) \<in> set (host_keys ?v)" by (rule find_host_key)
    have "filter (\<lambda>g. ga_account g = a) (map (\<lambda>g. if ga_host g = j then withdrawn now g else g) (va_grants ?v))
        = filter (\<lambda>g. ga_account g = a) (va_grants ?v)"
      using one_account [OF assms(1)] key assms(2) by (intro filter_map_other) auto
    moreover have "filter (\<lambda>(h, _). hw_account h = a) (change_first (host_is (ca_account c) j) (\<lambda>(h, _). (h, Some now)) (va_hosts ?v))
        = filter (\<lambda>(h, _). hw_account h = a) (va_hosts ?v)"
      using assms(2) by (intro filter_change_first) (auto simp: host_is_def)
    ultimately show ?thesis using Some by (simp add: remove_host_row_def same_rows_def rows_of_def)
  qed
  then show ?thesis by (auto simp: remove_host_call_def split: sum.splits)
qed

lemma decide_grant_other:
  assumes "grants_sound v" and "a \<noteq> b"
  shows "same_rows a v (snd (decide_grant b i x now v))"
proof (cases "position_of (\<lambda>g. ga_id g = i \<and> ga_account g = b \<and> ga_status g = GrantPending \<and> now < ga_expires g) (va_grants v)")
  case None
  then show ?thesis by (simp add: decide_grant_def)
next
  case (Some k)
  let ?g = "va_grants v ! k"
  let ?others = "if x = Deny then va_grants v else map (superseded ?g now) (va_grants v)"
  have k: "k < length (va_grants v)" "ga_account ?g = b" "?g \<in> set (va_grants v)"
    using position_of_Some [OF Some] by simp_all
  have "filter (\<lambda>g. ga_account g = a) (?others[k := answered x now (?others ! k)]) = filter (\<lambda>g. ga_account g = a) ?others"
    using k assms(2)
    by (intro filter_update_other) (simp_all add: answered_def superseded_def split: decision.splits)
  moreover have "filter (\<lambda>g. ga_account g = a) ?others = filter (\<lambda>g. ga_account g = a) (va_grants v)"
    using one_host_account [OF assms(1) _ k(3)] k(2) assms(2)
    by (auto simp: superseded_def intro!: filter_map_other split: if_splits)
  ultimately show ?thesis using Some by (simp add: decide_grant_def Let_def same_rows_def rows_of_def)
qed

lemma decide_other:
  assumes "grants_sound (sv_vault s)" and "a \<noteq> ca_account c"
  shows "same_rows a (sv_vault s) (sv_vault (snd (decide_call c i d now s)))"
proof -
  have "same_rows a (sv_vault s) v" if "decide_grant (ca_account c) i x now (sv_vault s) = (r, v)" for x r v
    using decide_grant_other [OF assms, of i x now] that by simp
  then show ?thesis
    by (auto simp: decide_call_def in_vault_def Let_def split: sum.splits prod.splits option.splits)
qed

lemma caller_other:
  assumes "grants_sound (sv_vault s)" and "a \<noteq> ca_account c"
  shows "same_rows a (sv_vault s) (sv_vault (snd (caller_request se dr c body now s)))"
  using assms
  by (cases body) (simp_all add: with_id_def map_prod_def split_def revoke_other register_other offer_other pair_other
      decide_other withdraw_other remove_other split: option.splits)

section \<open>Properties\<close>

text \<open>
  C12. Whatever arrived before: a request changes no device, no host and no grant of an account that is not
  its caller's, and it never changes a refresh credential or the list of accounts, whatever ids it names.
\<close>

theorem requests_stay_in_their_account:
  assumes "fresh_history se es empty_server" and "s = serve_all se es empty_server"
    and "authenticate se access now s = (Inr c, s1)" and "a \<noteq> ca_account c"
    and "t = server_step se (Requests access body, dr, now) s"
  shows "filter (\<lambda>d. dv_account d = a) (va_devices (sv_vault t)) = filter (\<lambda>d. dv_account d = a) (va_devices (sv_vault s))
    \<and> filter (\<lambda>(h, _). hw_account h = a) (va_hosts (sv_vault t)) = filter (\<lambda>(h, _). hw_account h = a) (va_hosts (sv_vault s))
    \<and> filter (\<lambda>g. ga_account g = a) (va_grants (sv_vault t)) = filter (\<lambda>g. ga_account g = a) (va_grants (sv_vault s))
    \<and> va_refresh (sv_vault t) = va_refresh (sv_vault s) \<and> va_accounts (sv_vault t) = va_accounts (sv_vault s)"
proof -
  have "grants_sound (sv_vault s)" using held.history_keeps [OF empty_sound assms(1)] assms(2) by simp
  then have "grants_sound (sv_vault s1)" using held.authenticate_keeps [of s se access now] assms(3) by simp
  then have "same_rows a (sv_vault s1) (sv_vault t)"
    using caller_other assms(4) by (simp add: assms(3,5) request_call_def)
  then have "same_rows a (sv_vault s) (sv_vault t)" using authenticated_other [OF assms(3,4)] same_rows_trans by blast
  then show ?thesis by (simp add: same_rows_def rows_of_def)
qed

lemma known_caller:
  assumes "map_sum id ca_account (fst (authenticate se access now s)) = Inr a"
  obtains c t where "authenticate se access now s = (Inr c, t)" "ca_account c = a"
proof (cases "authenticate se access now s")
  case (Pair r t)
  then show thesis using assms that by (cases r) simp_all
qed

theorem requests_stay_in_their_account_witness:
  "va_refresh (sv_vault (server_step example_keeper (Requests ''ys1.at.c0'' (RevokeDevice ''f''), example_draws CHR ''i'', 50)
      (serve_all example_keeper example_asked empty_server)))
    = va_refresh (sv_vault (serve_all example_keeper example_asked empty_server))"
proof -
  let ?s = "serve_all example_keeper example_asked empty_server"
  have fresh: "fresh_history example_keeper example_asked empty_server" by code_simp
  have "map_sum id ca_account (fst (authenticate example_keeper ''ys1.at.c0'' 50 ?s)) = Inr ''b''" by code_simp
  then obtain c t where c: "authenticate example_keeper ''ys1.at.c0'' 50 ?s = (Inr c, t)" and "ca_account c = ''b''"
    by (rule known_caller)
  then have other: "''other'' \<noteq> ca_account c" by simp
  show ?thesis
    using requests_stay_in_their_account [where body = "RevokeDevice ''f''" and dr = "example_draws CHR ''i''", OF fresh refl c other refl]
    by (elim conjE)
qed

end
