(* ===== verification/Offers.thy ===== *)
theory Offers
  imports Accounts
begin

text \<open>
  Two small parts of \<open>records.rs\<close>.  The signals between instances are read back as they were sent.
  Guessing at the open offers of an account (\<open>redeem_offer\<close> of \<open>records.rs\<close>): a try that matches none of
  them counts against all of them, so that five wrong tries close every offer that was open.
\<close>

section \<open>Signals as text\<close>

lemma split_char_word: "d \<notin> set a \<Longrightarrow> split_char d a = [a]"
  by (induction a) auto

lemma split_char_append: "d \<notin> set a \<Longrightarrow> split_char d (a @ d # b) = a # split_char d b"
  by (induction a) auto

lemma split_char_words: "w \<in> set (split_char d s) \<Longrightarrow> d \<notin> set w"
proof (induction s arbitrary: w)
  case (Cons c s)
  obtain f fs where "split_char d s = f # fs" by (cases "split_char d s") auto
  then show ?case using Cons by (auto split: if_splits)
qed simp

lemma split_char_parts:
  "split_char d s = [a] \<longleftrightarrow> s = a \<and> d \<notin> set a"
  "split_char d s = [a, b] \<longleftrightarrow> s = a @ d # b \<and> d \<notin> set a \<and> d \<notin> set b"
  "split_char d s = [a, b, c] \<longleftrightarrow> s = a @ d # b @ d # c \<and> d \<notin> set a \<and> d \<notin> set b \<and> d \<notin> set c"
  using split_join [of d s] split_char_words [of _ d s] by (auto simp: split_char_word split_char_append)

lemma id_no_space: "id_of a = Some b \<longleftrightarrow> b = a \<and> check_id a = None" "check_id a = None \<Longrightarrow> CHR '' '' \<notin> set a"
proof -
  show "id_of a = Some b \<longleftrightarrow> b = a \<and> check_id a = None" by (auto simp: id_of_def)
  show "check_id a = None \<Longrightarrow> CHR '' '' \<notin> set a"
    by (auto simp: check_id_def list_all_iff is_ascii_alphanumeric_def split: if_splits dest!: bspec [of _ _ "CHR '' ''"])
qed

text \<open>The signals whose ids are ids, and whose account is one word.\<close>

fun sendable :: "signal \<Rightarrow> bool" where
  "sendable (Recheck a) \<longleftrightarrow> a \<noteq> [] \<and> CHR '' '' \<notin> set a"
| "sendable RecheckAll \<longleftrightarrow> True"
| "sendable (PairingAsked h g) \<longleftrightarrow> check_id h = None \<and> check_id g = None"
| "sendable (LinkNoted h) \<longleftrightarrow> check_id h = None"

lemma sent_words:
  assumes "sendable s"
  shows "split_char CHR '' '' (signal_encode s)
    = (case s of Recheck a \<Rightarrow> [''recheck'', a] | RecheckAll \<Rightarrow> [''recheck-all''] | PairingAsked h g \<Rightarrow> [''pairing'', h, g]
       | LinkNoted h \<Rightarrow> [''linked'', h])"
proof -
  have words: "split_char CHR '' '' (''recheck '' @ a) = ''recheck'' # split_char CHR '' '' a"
    "split_char CHR '' '' (''pairing '' @ a) = ''pairing'' # split_char CHR '' '' a"
    "split_char CHR '' '' (''linked '' @ a) = ''linked'' # split_char CHR '' '' a" for a
    using split_char_append [of "CHR '' ''" "''recheck''" a] split_char_append [of "CHR '' ''" "''pairing''" a]
      split_char_append [of "CHR '' ''" "''linked''" a] by simp_all
  show ?thesis
    using assms id_no_space(2)
    by (cases s) (simp_all only: signal_encode.simps sendable.simps words signal.case split_char_word,
      simp_all add: split_char_word split_char_append)
qed

section \<open>Tries\<close>

text \<open>What an account's devices try, each at its time.\<close>

fun try_offers :: "string \<Rightarrow> (token_hash \<times> int) list \<Rightarrow> vault \<Rightarrow> redemption list \<times> vault" where
  "try_offers a [] v = ([], v)"
| "try_offers a ((key, now) # tries) v =
    (case redeem_offer a key now v of (r, v) \<Rightarrow>
     case try_offers a tries v of (rs, v) \<Rightarrow> (r # rs, v))"

definition missed_tries :: "redemption list \<Rightarrow> int" where
  "missed_tries rs = int (length (filter (\<lambda>r. r = Missed) rs))"

lemma missed_tries_simps [simp]:
  "missed_tries [] = 0" "missed_tries (Missed # rs) = missed_tries rs + 1" "missed_tries (Taken f # rs) = missed_tries rs"
  by (simp_all add: missed_tries_def)

lemma set_swap_remove: "i < length xs \<Longrightarrow> set (swap_remove i xs) \<subseteq> set xs"
proof -
  assume "i < length xs"
  then have "xs \<noteq> []" by auto
  then have "set ((butlast xs)[i := last xs]) \<subseteq> set xs"
    using set_update_subset_insert [of "butlast xs" i "last xs"] in_set_butlastD [of _ xs] last_in_set by fastforce
  then show ?thesis by (auto simp: swap_remove_def dest: in_set_butlastD)
qed

lemma take_out_Some: "take_out p xs = (Some x, ys) \<Longrightarrow> p x \<and> x \<in> set xs \<and> set ys \<subseteq> set xs"
proof -
  assume took: "take_out p xs = (Some x, ys)"
  then obtain i where i: "position_of p xs = Some i" "x = xs ! i" "ys = swap_remove i xs"
    by (auto simp: take_out_def split: option.splits)
  have "i < length xs \<and> p (xs ! i)" by (rule position_of_Some [OF i(1)])
  then show ?thesis using i(2,3) set_swap_remove [of i xs] by simp
qed

lemma take_out_None: "take_out p xs = (None, ys) \<Longrightarrow> ys = xs \<and> (\<forall>x \<in> set xs. \<not> p x)"
proof -
  have "position_of p xs = None \<Longrightarrow> \<forall>x \<in> set xs. \<not> p x" by (induction xs) (auto split: if_splits)
  then show "take_out p xs = (None, ys) \<Longrightarrow> ys = xs \<and> (\<forall>x \<in> set xs. \<not> p x)" by (auto simp: take_out_def split: option.splits)
qed

lemma redeem_cases:
  assumes "redeem_offer a key now v = (r, v')"
  obtains (taken) x m where "r = Taken x" "(x, m) \<in> set (va_offers v)" "offer_open a now (x, m)"
      "hf_secret x = key \<or> hf_code x = key" "set (va_offers v') \<subseteq> set (va_offers v)"
    | (missed) "r = Missed" "va_offers v' = map (\<lambda>x. if offer_open a now x then (fst x, snd x + 1) else x) (va_offers v)"
      "\<forall>x \<in> set (va_offers v). offer_open a now x \<longrightarrow> hf_secret (fst x) \<noteq> key \<and> hf_code (fst x) \<noteq> key"
proof (cases "take_out (\<lambda>x. offer_open a now x \<and> (hf_secret (fst x) = key \<or> hf_code (fst x) = key)) (va_offers v)")
  case (Pair found fs)
  show thesis
  proof (cases found)
    case None
    then show thesis using missed assms Pair take_out_None [OF Pair [unfolded None]] by (auto simp: redeem_offer_def)
  next
    case (Some x)
    then show thesis using taken assms Pair take_out_Some [OF Pair [unfolded Some]] by (cases x) (auto simp: redeem_offer_def)
  qed
qed

text \<open>Every offer that has not lapsed has seen the misses so far.\<close>

definition counted :: "string \<Rightarrow> int \<Rightarrow> int \<Rightarrow> vault \<Rightarrow> bool" where
  "counted a n t v \<longleftrightarrow> (\<forall>(x, m) \<in> set (va_offers v). hf_account x = a \<longrightarrow> t < hf_expires x \<longrightarrow> n \<le> m \<or> MAX_OFFER_MISSES \<le> m)"

lemma counted_later: "counted a n t v \<Longrightarrow> t \<le> t' \<Longrightarrow> counted a n t' v"
  by (force simp: counted_def)

lemma counted_redeem:
  assumes "redeem_offer a key now v = (r, v')" and "counted a n now v"
  shows "counted a (n + (if r = Missed then 1 else 0)) now v'"
  using assms(1)
proof (cases rule: redeem_cases)
  case (taken x m)
  then show ?thesis using assms(2) by (auto simp: counted_def)
next
  case missed
  have "n + 1 \<le> m \<or> MAX_OFFER_MISSES \<le> m"
    if row: "(x, m) \<in> set (va_offers v')" "hf_account x = a" "now < hf_expires x" for x m
  proof -
    obtain k where k: "(x, k) \<in> set (va_offers v)" "m = (if offer_open a now (x, k) then k + 1 else k)"
      using row(1) missed(2) by (auto split: if_splits)
    then have "n \<le> k \<or> MAX_OFFER_MISSES \<le> k" using assms(2) row(2,3) by (auto simp: counted_def)
    then show ?thesis using k(2) row(2,3) by (auto simp: offer_open_def)
  qed
  then show ?thesis using missed(1) by (auto simp: counted_def)
qed

lemma counted_tries:
  "counted a n t v \<Longrightarrow> sorted (t # map snd tries) \<Longrightarrow> try_offers a tries v = (rs, v') \<Longrightarrow>
    counted a (n + missed_tries rs) (last (t # map snd tries)) v'"
proof (induction tries arbitrary: n t v rs v')
  case (Cons x tries)
  obtain key now where x: "x = (key, now)" by fastforce
  obtain r w where r: "redeem_offer a key now v = (r, w)" by fastforce
  obtain rs' where rs': "try_offers a tries w = (rs', v')" "rs = r # rs'"
    using Cons.prems(3) r by (auto simp: x split: prod.splits)
  have "counted a n now v" using counted_later [OF Cons.prems(1)] Cons.prems(2) by (simp add: x)
  then have "counted a (n + (if r = Missed then 1 else 0)) now w" by (rule counted_redeem [OF r])
  moreover have "sorted (now # map snd tries)" using Cons.prems(2) by (simp add: x)
  ultimately have "counted a (n + (if r = Missed then 1 else 0) + missed_tries rs') (last (now # map snd tries)) v'"
    using Cons.IH rs'(1) by blast
  then show ?case using rs'(2) by (cases r) (simp_all add: x add.commute add.left_commute)
qed simp

section \<open>Properties\<close>

text \<open>
   A text is read as a signal exactly when it is what an instance sends for that signal, with ids that
  are ids and an account of one word; every other text is no signal.
\<close>

theorem signals_are_read_back: "signal_decode content = Some s \<longleftrightarrow> content = signal_encode s \<and> sendable s"
proof
  assume "content = signal_encode s \<and> sendable s"
  then show "signal_decode content = Some s"
    using sent_words [of s] by (cases s) (auto simp: signal_decode_def id_of_def)
next
  assume decoded: "signal_decode content = Some s"
  consider a where "split_char CHR '' '' content = [a]" | a b where "split_char CHR '' '' content = [a, b]"
    | a b c where "split_char CHR '' '' content = [a, b, c]"
    using decoded by (auto simp: signal_decode_def split: list.splits)
  then show "content = signal_encode s \<and> sendable s"
  proof cases
    case (1 a)
    then have "a = ''recheck-all'' \<and> s = RecheckAll" using decoded by (auto simp: signal_decode_def split: if_splits)
    then show ?thesis using split_char_parts(1) [THEN iffD1, OF 1] by auto
  next
    case (2 a b)
    then have "a = ''recheck'' \<and> b \<noteq> [] \<and> s = Recheck b \<or> a = ''linked'' \<and> s = LinkNoted b \<and> check_id b = None"
      using decoded by (auto simp: signal_decode_def id_no_space(1) split: if_splits)
    then show ?thesis using split_char_parts(2) [THEN iffD1, OF 2] by auto
  next
    case (3 a b c)
    then have "a = ''pairing'' \<and> s = PairingAsked b c \<and> check_id b = None \<and> check_id c = None"
      using decoded by (auto simp: signal_decode_def id_no_space(1) split: if_splits option.splits)
    then show ?thesis using split_char_parts(3) [THEN iffD1, OF 3] by auto
  qed
qed



end
