(* ===== verification/Sign_In.thy ===== *)
theory Sign_In
  imports Offers
begin

text \<open>
  Where devices come from, over any history of the server (\<open>service.rs\<close>): a sign-in that was begun with a
  challenge, a person the identity provider vouched for, and a code redeemed with the secret behind that
  challenge.  A sign-in and its code are taken out of the vault by whoever presents them.
\<close>

section \<open>What a history shows\<close>

definition begun :: "arrival list \<Rightarrow> string \<Rightarrow> bool" where
  "begun es challenge \<longleftrightarrow> (\<exists>p dr now. (Begins p, dr, now) \<in> set es \<and> lp_challenge p = challenge)"

text \<open>The provider answered a callback with this account's person.\<close>

definition vouched :: "keeper \<Rightarrow> arrival list \<Rightarrow> vault \<Rightarrow> string \<Rightarrow> bool" where
  "vouched se es v account \<longleftrightarrow>
    (\<exists>code state dr now verifier nonce issuer subject.
      (Finishes (Some code) state None, dr, now) \<in> set es
      \<and> se_sign_in se code (se_callback se) verifier nonce now = Inr (issuer, subject)
      \<and> map_of (va_accounts v) (issuer, subject) = Some account)"

definition redeemed_by :: "keeper \<Rightarrow> arrival list \<Rightarrow> device \<Rightarrow> bool" where
  "redeemed_by se es d \<longleftrightarrow>
    (\<exists>code verifier nd dr now.
      (Redeems (SignIn code verifier nd), dr, now) \<in> set es \<and> dv_id d = dr_uuid dr \<and> begun es (se_s256 se verifier))"

definition traced :: "keeper \<Rightarrow> arrival list \<Rightarrow> vault \<Rightarrow> bool" where
  "traced se es v \<longleftrightarrow>
    (\<forall>l \<in> set (va_logins v). begun es (pl_challenge l))
    \<and> (\<forall>h \<in> set (va_handoffs v). begun es (ha_challenge h) \<and> vouched se es v (ha_account h))
    \<and> (\<forall>d \<in> set (va_devices v). redeemed_by se es d \<and> vouched se es v (dv_account d))"

lemma begun_more: "begun es c \<Longrightarrow> begun (es @ es') c"
  by (auto simp: begun_def)

lemma redeemed_more: "redeemed_by se es d \<Longrightarrow> redeemed_by se (es @ es') d"
  unfolding redeemed_by_def using begun_more by fastforce

definition keeps_accounts :: "vault \<Rightarrow> vault \<Rightarrow> bool" where
  "keeps_accounts v v' \<longleftrightarrow> map_of (va_accounts v) \<subseteq>\<^sub>m map_of (va_accounts v')"

lemma keeps_accounts_refl [simp]: "keeps_accounts v v"
  by (simp add: keeps_accounts_def)

lemma keeps_accounts_same: "va_accounts v' = va_accounts v \<Longrightarrow> keeps_accounts v v'"
  by (simp add: keeps_accounts_def)

lemma vouched_more: "keeps_accounts v v' \<Longrightarrow> vouched se es v a \<Longrightarrow> vouched se (es @ es') v' a"
  unfolding vouched_def keeps_accounts_def map_le_def
  by (metis (no_types, lifting) Un_iff domI set_append)

text \<open>Devices are named by their id and account, which nothing changes.\<close>

definition device_key :: "device \<Rightarrow> string \<times> string" where
  "device_key d = (dv_id d, dv_account d)"

text \<open>A call that adds no sign-in, no code and no device.\<close>

definition adds_nothing :: "vault \<Rightarrow> vault \<Rightarrow> bool" where
  "adds_nothing v v' \<longleftrightarrow>
    set (va_logins v') \<subseteq> set (va_logins v) \<and> set (va_handoffs v') \<subseteq> set (va_handoffs v)
    \<and> device_key ` set (va_devices v') \<subseteq> device_key ` set (va_devices v) \<and> keeps_accounts v v'"

lemma adds_nothing_refl [simp]: "adds_nothing v v"
  by (simp add: adds_nothing_def)

lemma adds_nothing_trans: "adds_nothing v v' \<Longrightarrow> adds_nothing v' v'' \<Longrightarrow> adds_nothing v v''"
  unfolding adds_nothing_def keeps_accounts_def using map_le_trans by (metis order_trans)

lemma redeemed_key: "device_key d = device_key d' \<Longrightarrow> redeemed_by se es d = redeemed_by se es d'"
  by (simp add: device_key_def redeemed_by_def)

lemma traced_adds_nothing:
  assumes "traced se es v" and "adds_nothing v v'"
  shows "traced se (es @ es') v'"
proof -
  have account: "keeps_accounts v v'" using assms(2) by (simp add: adds_nothing_def)
  have "redeemed_by se (es @ es') d \<and> vouched se (es @ es') v' (dv_account d)" if d: "d \<in> set (va_devices v')" for d
  proof -
    obtain d0 where d0: "d0 \<in> set (va_devices v)" "device_key d = device_key d0"
      using d assms(2) by (fastforce simp: adds_nothing_def)
    then have "redeemed_by se es d0" "vouched se es v (dv_account d0)" using assms(1) by (auto simp: traced_def)
    then show ?thesis
      using redeemed_key [OF d0(2)] redeemed_more vouched_more [OF account] d0(2) by (auto simp: device_key_def)
  qed
  moreover have "begun (es @ es') (pl_challenge l)" if "l \<in> set (va_logins v')" for l
    using that assms by (auto simp: traced_def adds_nothing_def intro: begun_more)
  moreover have "begun (es @ es') (ha_challenge h) \<and> vouched se (es @ es') v' (ha_account h)" if "h \<in> set (va_handoffs v')" for h
    using that assms by (auto simp: traced_def adds_nothing_def intro: begun_more vouched_more [OF account])
  ultimately show ?thesis by (simp add: traced_def)
qed

section \<open>Calls that add nothing\<close>

lemma device_keys_change: "(\<And>d. device_key (f d) = device_key d) \<Longrightarrow>
    device_key ` set (va_devices (change_device j f v)) = device_key ` set (va_devices v)"
proof -
  assume "\<And>d. device_key (f d) = device_key d"
  then have "map device_key (va_devices (change_device j f v)) = map device_key (va_devices v)"
    by (simp add: change_device_def change_first_map)
  then show ?thesis by (metis list.set_map)
qed

lemma adds_nothing_change: "(\<And>d. device_key (f d) = device_key d) \<Longrightarrow> adds_nothing v (change_device j f v)"
  using device_keys_change [of f j v] by (simp add: adds_nothing_def change_device_def keeps_accounts_same)

lemma adds_nothing_fields [simp]:
  "adds_nothing v (v'\<lparr>va_access := x\<rparr>) = adds_nothing v v'" "adds_nothing v (v'\<lparr>va_refresh := y\<rparr>) = adds_nothing v v'"
  "adds_nothing v (v'\<lparr>va_hosts := hs\<rparr>) = adds_nothing v v'" "adds_nothing v (v'\<lparr>va_offers := fs\<rparr>) = adds_nothing v v'"
  "adds_nothing v (v'\<lparr>va_grants := gs\<rparr>) = adds_nothing v v'" "adds_nothing v (v'\<lparr>va_signals := ss\<rparr>) = adds_nothing v v'"
  by (simp_all add: adds_nothing_def keeps_accounts_def)

lemma adds_nothing_methods [simp]:
  "adds_nothing v (snd (read_access h v))" "adds_nothing v (note_seen j now v)" "adds_nothing v (snd (revoke_device a j why v))"
  "adds_nothing v (add_host hr v)" "adds_nothing v (snd (rebind_host a j e name v))" "adds_nothing v (add_grant g v)"
  "adds_nothing v (snd (decide_grant a j x now v))" "adds_nothing v (snd (revoke_grant_row a j now v))"
  "adds_nothing v (snd (remove_host_row a j now v))" "adds_nothing v (snd (redeem_offer a key now v))"
  "adds_nothing v (snd (vault_account issuer subject fresh v))" "adds_nothing v (put_offer f now v)"
  subgoal by (simp add: read_access_def split: option.splits)
  subgoal unfolding note_seen_def by (rule adds_nothing_change) (simp add: device_key_def)
  subgoal by (auto simp: revoke_device_def device_key_def intro!: adds_nothing_change split: option.splits)
  subgoal by (simp add: add_host_def)
  subgoal by (simp add: rebind_host_def Let_def split: option.splits)
  subgoal by (simp add: add_grant_def)
  subgoal by (simp add: decide_grant_def Let_def split: option.splits)
  subgoal by (simp add: revoke_grant_row_def)
  subgoal by (simp add: remove_host_row_def split: option.splits)
  subgoal using redeem_offer_changes [of a key now v] by auto
  subgoal by (auto simp: vault_account_def adds_nothing_def keeps_accounts_def map_le_def split: option.splits)
  subgoal by (simp add: put_offer_def)
  done

lemma adds_nothing_account: "adds_nothing v (snd (revoke_account issuer subject why v))"
proof -
  have "device_key ` set (map (\<lambda>d. if dv_account d = a \<and> dv_revoked d = None then d\<lparr>dv_revoked := Some why\<rparr> else d) ds)
    \<subseteq> device_key ` set ds" for a and ds :: "device list"
    by (auto simp: device_key_def)
  then show ?thesis by (auto simp: revoke_account_def adds_nothing_def keeps_accounts_def split: option.splits)
qed

lemma adds_nothing_rotated: "adds_nothing v (snd (rotate_refresh h i now v))"
proof -
  have issued: "adds_nothing v (issue_to j i w) = adds_nothing v w" for j w by (simp add: issue_to_def)
  have changed: "adds_nothing v (change_refresh h f w) = adds_nothing v w" for f w
    by (simp add: change_refresh_def split: option.splits)
  have dropped: "adds_nothing v (drop_successors old v)" for old by (auto simp: drop_successors_def split: option.splits)
  have revoked: "adds_nothing v (change_device j (\<lambda>d. d\<lparr>dv_revoked := w\<rparr>) v)" for j w
    by (rule adds_nothing_change) (simp add: device_key_def)
  show ?thesis
    by (simp add: rotate_refresh_def issued changed dropped revoked split: option.splits)
qed

lemma adds_nothing_in_vault: "in_vault f s = (x, s') \<Longrightarrow> adds_nothing (sv_vault s) (snd (f (sv_vault s))) \<Longrightarrow>
    adds_nothing (sv_vault s) (sv_vault s')"
  by (auto simp: in_vault_def split: prod.splits)

lemma adds_nothing_told [simp]: "adds_nothing v (sv_vault (tell_revoked a s)) = adds_nothing v (sv_vault s)"
  by (simp add: tell_revoked_def send_signal_def)

lemma take_out_within: "take_out p xs = (found, ys) \<Longrightarrow> x \<in> set ys \<Longrightarrow> x \<in> set xs"
  using take_out_Some [of p xs] take_out_None [of p xs] by (cases found) auto

lemma adds_nothing_taken [simp]: "adds_nothing v (snd (take_login h v))" "adds_nothing v (snd (take_handoff c v))"
  by (auto simp: take_login_def take_handoff_def adds_nothing_def keeps_accounts_def dest: take_out_within split: prod.splits)

lemma adds_nothing_calls:
  "adds_nothing (sv_vault s) (sv_vault (snd (authenticate se access now s)))"
  "adds_nothing (sv_vault s) (sv_vault (snd (register_host dr c r now s)))"
  "adds_nothing (sv_vault s) (sv_vault (snd (revoke_call c i now s)))"
  "adds_nothing (sv_vault s) (sv_vault (snd (make_offer se dr c i now s)))"
  "adds_nothing (sv_vault s) (sv_vault (snd (pair_call se dr c q now s)))"
  "adds_nothing (sv_vault s) (sv_vault (snd (decide_call c i d now s)))"
  "adds_nothing (sv_vault s) (sv_vault (snd (revoke_grant_call c i now s)))"
  "adds_nothing (sv_vault s) (sv_vault (snd (remove_host_call c i now s)))"
  "adds_nothing (sv_vault s) (sv_vault (operator_revokes issuer subject now s))"
  "adds_nothing (sv_vault s) (sv_vault (snd (refresh_with se dr refresh now s)))"
proof -
  have seen: "adds_nothing v (note_seen j now w)" if "adds_nothing v w" for v w j
    by (rule adds_nothing_trans [OF that]) simp
  have host: "adds_nothing v (add_host hr w) = adds_nothing v w" "adds_nothing v (add_grant g w) = adds_nothing v w" for v w hr g
    by (simp_all add: add_host_def add_grant_def)
  show "adds_nothing (sv_vault s) (sv_vault (snd (authenticate se access now s)))"
    by (auto simp: authenticate_def seen split: option.splits prod.splits dest!: adds_nothing_in_vault)
  show "adds_nothing (sv_vault s) (sv_vault (snd (register_host dr c r now s)))"
    by (auto simp: register_host_def Let_def host split: option.splits prod.splits dest!: adds_nothing_in_vault)
  show "adds_nothing (sv_vault s) (sv_vault (snd (revoke_call c i now s)))"
    by (auto simp: revoke_call_def split: prod.splits bool.splits dest!: adds_nothing_in_vault)
  show "adds_nothing (sv_vault s) (sv_vault (snd (make_offer se dr c i now s)))"
    by (auto simp: make_offer_def Let_def mint_def short_code_def split: sum.splits)
  show "adds_nothing (sv_vault s) (sv_vault (snd (pair_call se dr c q now s)))"
    by (auto simp: pair_call_def Let_def send_signal_def host split: option.splits prod.splits redemption.splits
        dest!: adds_nothing_in_vault)
  have decided: "adds_nothing (sv_vault s) (sv_vault s')" if "in_vault (decide_grant a j x now) s = (r, s')" for a j x r s'
    by (rule adds_nothing_in_vault [OF that]) simp
  show "adds_nothing (sv_vault s) (sv_vault (snd (decide_call c i d now s)))"
    using decided by (auto simp: decide_call_def Let_def split: sum.splits option.splits prod.splits)
  show "adds_nothing (sv_vault s) (sv_vault (snd (revoke_grant_call c i now s)))"
    by (simp add: revoke_grant_call_def split: sum.splits)
  show "adds_nothing (sv_vault s) (sv_vault (snd (remove_host_call c i now s)))"
    by (simp add: remove_host_call_def split: sum.splits)
  have revoked: "adds_nothing (sv_vault s) (sv_vault s')" if "in_vault (revoke_account issuer subject why) s = (r, s')" for why r s'
    by (rule adds_nothing_in_vault [OF that]) (rule adds_nothing_account)
  have rotated: "adds_nothing (sv_vault s) (sv_vault s')" if "in_vault (rotate_refresh h i now) s = (r, s')" for h i r s'
    by (rule adds_nothing_in_vault [OF that]) (rule adds_nothing_rotated)
  show "adds_nothing (sv_vault s) (sv_vault (operator_revokes issuer subject now s))"
    using revoked by (auto simp: operator_revokes_def send_signal_def split: prod.splits option.splits)
  show "adds_nothing (sv_vault s) (sv_vault (snd (refresh_with se dr refresh now s)))"
    using rotated by (auto simp: refresh_with_def split: option.splits prod.splits rotation.splits)
qed

lemma requests_add_nothing: "adds_nothing (sv_vault s) (sv_vault (snd (request_call se dr access body now s)))"
proof -
  have caller: "adds_nothing (sv_vault t) (sv_vault (snd (caller_request se dr c body now t)))" for c t
    by (cases body) (simp_all add: with_id_def map_prod_def split_def adds_nothing_calls split: option.splits)
  have "adds_nothing (sv_vault s) (sv_vault t)" if "authenticate se access now s = (r, t)" for r t
    using adds_nothing_calls(1) [of s se access now] that by simp
  then show ?thesis
    using caller adds_nothing_trans by (auto simp: request_call_def split: prod.splits sum.splits)
qed

section \<open>Calls that add\<close>

lemma traced_begins:
  assumes "traced se es (sv_vault s)"
  shows "traced se (es @ [(Begins p, dr, now)]) (sv_vault (snd (begin_login se dr p now s)))"
proof -
  let ?es = "es @ [(Begins p, dr, now)]"
  have "traced se ?es (sv_vault s)" by (rule traced_adds_nothing [OF assms]) simp
  moreover have "begun ?es (lp_challenge p)" by (auto simp: begun_def)
  ultimately show ?thesis
    by (auto simp: begin_login_def put_login_def Let_def traced_def vouched_def split: option.splits)
qed

lemma traced_finishes:
  assumes "traced se es (sv_vault s)"
  shows "traced se (es @ [(Finishes code state err, dr, now)]) (sv_vault (snd (finish_login se dr code state err now s)))"
proof -
  let ?es = "es @ [(Finishes code state err, dr, now)]"
  have old: "traced se ?es v" if "adds_nothing (sv_vault s) v" for v by (rule traced_adds_nothing [OF assms that])
  have login: "adds_nothing (sv_vault s) (sv_vault s1)" "begun ?es (pl_challenge l)" if "in_vault (take_login h) s = (Some l, s1)" for h l s1
  proof -
    show "adds_nothing (sv_vault s) (sv_vault s1)" by (rule adds_nothing_in_vault [OF that]) simp
    have "l \<in> set (va_logins (sv_vault s))"
      using that take_out_Some [of "\<lambda>l. pl_state l = h" "va_logins (sv_vault s)"]
      by (auto simp: in_vault_def take_login_def split: prod.splits)
    then show "begun ?es (pl_challenge l)" using assms begun_more by (auto simp: traced_def)
  qed
  have unknown: "adds_nothing (sv_vault s) (sv_vault s1)" if "in_vault (take_login h) s = (l, s1)" for h l s1
    by (rule adds_nothing_in_vault [OF that]) simp
  have signed: "traced se ?es (put_handoff \<lparr>ha_code = h, ha_account = a, ha_challenge = pl_challenge l, ha_expires = e\<rparr> now (sv_vault s2))"
    if took: "in_vault (take_login st) s = (Some l, s1)" and account: "in_vault (vault_account issuer subject (dr_uuid dr)) s1 = (a, s2)"
      and asked: "code = Some c" "err = None" "se_sign_in se c (se_callback se) (pl_verifier l) (pl_nonce l) now = Inr (issuer, subject)"
    for h a l e st s1 s2 issuer subject c
  proof -
    have "adds_nothing (sv_vault s1) (sv_vault s2)" by (rule adds_nothing_in_vault [OF account]) simp
    then have "traced se ?es (sv_vault s2)" using old adds_nothing_trans [OF login(1) [OF took]] by blast
    moreover have "map_of (va_accounts (sv_vault s2)) (issuer, subject) = Some a"
      using account by (auto simp: in_vault_def vault_account_def split: option.splits prod.splits)
    then have "vouched se ?es (sv_vault s2) a" using asked unfolding vouched_def by fastforce
    ultimately show ?thesis
      using login(2) [OF took] by (auto simp: put_handoff_def traced_def vouched_def)
  qed
  show ?thesis
    using old old [OF unknown] signed
    by (auto simp: finish_login_def Let_def mint_def split: option.splits prod.splits sum.splits)
qed

lemma traced_redeems:
  assumes "traced se es (sv_vault s)"
  shows "traced se (es @ [(Redeems rq, dr, now)]) (sv_vault (snd (token_call se dr rq now s)))"
proof -
  let ?es = "es @ [(Redeems rq, dr, now)]"
  have old: "traced se ?es v" if "adds_nothing (sv_vault s) v" for v by (rule traced_adds_nothing [OF assms that])
  have took: "adds_nothing (sv_vault s) (sv_vault s1)" if "in_vault (take_handoff h) s = (found, s1)" for h found s1
    by (rule adds_nothing_in_vault [OF that]) simp
  have enrolled: "traced se ?es (add_device (d\<lparr>dv_id := dr_uuid dr, dv_account := ha_account x\<rparr>) i (sv_vault s1))"
    if rq: "rq = SignIn code verifier nd" and take: "in_vault (take_handoff h) s = (Some x, s1)"
      and right: "verifies se (ha_challenge x) verifier" for code verifier nd h x s1 d i
  proof -
    have "x \<in> set (va_handoffs (sv_vault s))"
      using take take_out_Some [of "\<lambda>x. ha_code x = h" "va_handoffs (sv_vault s)"]
      by (auto simp: in_vault_def take_handoff_def split: prod.splits)
    then have "begun ?es (se_s256 se verifier)" "vouched se es (sv_vault s) (ha_account x)"
      using assms right begun_more by (auto simp: traced_def verifies_def)
    moreover have "keeps_accounts (sv_vault s) (sv_vault s1)" using took [OF take] by (simp add: adds_nothing_def)
    ultimately have "redeemed_by se ?es (d\<lparr>dv_id := dr_uuid dr, dv_account := ha_account x\<rparr>)" "vouched se ?es (sv_vault s1) (ha_account x)"
      using vouched_more unfolding redeemed_by_def rq by fastforce+
    then show ?thesis
      using old [OF took [OF take]] by (auto simp: add_device_def issue_to_def Let_def traced_def vouched_def)
  qed
  have device: "traced se ?es (add_device \<lparr>dv_id = dr_uuid dr, dv_account = ha_account x, dv_name = n, dv_kind = k, dv_platform = p,
      dv_created = c, dv_seen = None, dv_revoked = None\<rparr> i (sv_vault s1))"
    if "rq = SignIn code verifier nd" "in_vault (take_handoff h) s = (Some x, s1)" "verifies se (ha_challenge x) verifier"
    for code verifier nd h x s1 i n k p c
    using enrolled [OF that, of "\<lparr>dv_id = [], dv_account = [], dv_name = n, dv_kind = k, dv_platform = p,
      dv_created = c, dv_seen = None, dv_revoked = None\<rparr>" i] by simp
  show ?thesis
  proof (cases rq)
    case (SignIn code verifier nd)
    show ?thesis
      using old old [OF took] device [OF SignIn]
      by (auto simp: token_call_def SignIn redeem_code_def split: option.splits prod.splits)
  next
    case (RefreshWith refresh)
    then show ?thesis using old old [OF adds_nothing_calls(10)] by (auto simp: token_call_def split: option.splits)
  qed
qed

lemma traced_step:
  assumes "traced se es (sv_vault s)"
  shows "traced se (es @ [e]) (sv_vault (server_step se e s))"
proof -
  obtain ev dr now where e: "e = (ev, dr, now)" by (metis prod.collapse)
  show ?thesis
    using assms
    by (cases ev) (simp_all add: e traced_begins traced_finishes traced_redeems
        traced_adds_nothing [OF _ requests_add_nothing] traced_adds_nothing [OF _ adds_nothing_calls(9)])
qed

lemma traced_history: "traced se es (sv_vault (serve_all se es empty_server))"
proof (induction es rule: rev_induct)
  case Nil
  show ?case by (simp add: traced_def empty_server_def empty_vault_def)
next
  case (snoc e es)
  then show ?case using traced_step by simp
qed

section \<open>Properties\<close>

text \<open>
  C9. Whatever arrives at the server: each device was enrolled by a request that showed the secret behind the
  challenge of a sign-in that was begun, and its account is that of a person the identity provider named in
  answer to a callback.
\<close>

theorem devices_come_from_sign_ins:
  assumes "s = serve_all se es empty_server" and "d \<in> set (va_devices (sv_vault s))"
  shows "(\<exists>code verifier nd dr now p dr' now'.
      (Redeems (SignIn code verifier nd), dr, now) \<in> set es \<and> dv_id d = dr_uuid dr
      \<and> (Begins p, dr', now') \<in> set es \<and> se_s256 se verifier = lp_challenge p)
    \<and> (\<exists>code state dr now verifier nonce issuer subject.
      (Finishes (Some code) state None, dr, now) \<in> set es
      \<and> se_sign_in se code (se_callback se) verifier nonce now = Inr (issuer, subject)
      \<and> map_of (va_accounts (sv_vault s)) (issuer, subject) = Some (dv_account d))"
proof -
  have "redeemed_by se es d" "vouched se es (sv_vault s) (dv_account d)"
    using traced_history [of se es] assms by (simp_all add: traced_def)
  then show ?thesis unfolding redeemed_by_def begun_def vouched_def by metis
qed

theorem devices_come_from_sign_ins_witness:
  "\<exists>p dr now. (Begins p, dr, now) \<in> set example_signed_in \<and> lp_challenge p = example_challenge"
proof -
  let ?d = "\<lparr>dv_id = ''c'', dv_account = ''b'', dv_name = ''device'', dv_kind = KindPhone, dv_platform = Linux, dv_created = 2,
    dv_seen = None, dv_revoked = None\<rparr>"
  have "?d \<in> set (va_devices (sv_vault (serve_all example_keeper example_signed_in empty_server)))" by code_simp
  then have "\<exists>code verifier nd dr now p dr' now'. (Redeems (SignIn code verifier nd), dr, now) \<in> set example_signed_in
      \<and> dv_id ?d = dr_uuid dr \<and> (Begins p, dr', now') \<in> set example_signed_in \<and> se_s256 example_keeper verifier = lp_challenge p"
    by (rule devices_come_from_sign_ins [OF refl, THEN conjunct1])
  then obtain code verifier nd dr now p dr' now' where "(Redeems (SignIn code verifier nd), dr, now) \<in> set example_signed_in"
    and "(Begins p, dr', now') \<in> set example_signed_in" and "se_s256 example_keeper verifier = lp_challenge p"
    by (elim exE conjE) (rule that)
  then show ?thesis by (auto simp: example_signed_in_def example_sign_in_def example_keeper_def)
qed

end
