(* ===== verification/Spec2Isabelle.thy ===== *)
theory Spec2Isabelle
  imports Host Driver Settling Sign_In
begin

text \<open>
  Yardsort runs coding agents: each in a terminal of its own, in a workspace of its own, and keeps
  what they do in one database that the app, its command line and its daemon share.  This
  development models the parts of that program that keep state others rely on, and proves what
  they promise.

  \<^bold>\<open>Parts, and the theories that model them.\<close>

  \<^item> The terminal host, \<open>crates/pty-host\<close>.  A session's output passes the follower of escape
    sequences (\<open>unfinished.rs\<close>, theory \<open>Unfinished\<close>) and the scanner of terminal queries
    (\<open>queries.rs\<close>, \<open>Queries\<close>); it feeds a headless terminal that late viewers get a picture of
    (\<open>snapshot.rs\<close>, \<open>Snapshot\<close>) and a numbered stream that viewers resume (\<open>replay.rs\<close>,
    \<open>Replay\<close>).  Who may type is decided by a record of leases (\<open>control.rs\<close>, \<open>Control\<close>).  The
    messages are in \<open>Types\<close>; \<open>Session\<close> composes all of it as the calls of \<open>session.rs\<close>; \<open>Calls\<close>
    is one step of any call and the locale its invariants share, \<open>Streams\<close> and \<open>Fenced\<close> interpret
    it; \<open>Pump\<close> is the thread that delivers output and the exit; \<open>Host\<close> is the table of sessions and
    the first message typed (\<open>lib.rs\<close>, \<open>prompt.rs\<close>).
  \<^item> Workflows, \<open>crates/core/src/workflow\<close>.  \<open>Text\<close> holds the functions of the standard library
    on text, \<open>Template\<close> the variables in a text (\<open>template.rs\<close>), \<open>Yaml\<close> what the parsers of files
    share (\<open>yaml.rs\<close>), \<open>Checker\<close> the checks of a workflow file (\<open>parse.rs\<close>), \<open>Catalog\<close> the files
    and built-ins (\<open>mod.rs\<close>).  \<open>Asking\<close> is the one door that queues a run (\<open>runs.rs\<close>), \<open>Runs_Store\<close>
    the tables runs are kept in (\<open>store.rs\<close>), \<open>Engine\<close> decides what a run does next (\<open>engine.rs\<close>), and
    \<open>Driver\<close> carries that out against the tables and the terminals (\<open>driver.rs\<close>).
  \<^item> Smoke tests, \<open>crates/core/src/smoke\<close>.  \<open>Smoke\<close> is their data, catalog and inputs (\<open>mod.rs\<close>,
    parts of \<open>runs.rs\<close>), \<open>Smoke_Store\<close> their tables (\<open>store/smoke.rs\<close>), \<open>Smoke_Door\<close> the door that
    queues and approves runs (\<open>runs.rs\<close>).
  \<^item> Schedules, \<open>crates/core/src/schedule\<close>.  \<open>When\<close> computes times (\<open>when.rs\<close>), \<open>Agenda\<close> is their
    tables (\<open>store/schedules.rs\<close>), \<open>Schedules\<close> checks and changes them (\<open>mod.rs\<close>), \<open>Firing\<close> acts on
    times that have come, through the doors of workflows and smoke tests, and \<open>Settling\<close> tells how
    the runs ended (\<open>fire.rs\<close>).

  \<^item> The control service, \<open>crates/server\<close>, which devices and hosts of one person find each other by.
    \<open>Wire\<close> is what crosses to it (\<open>crates/remote-proto\<close>: \<open>ids.rs\<close>, \<open>grant.rs\<close>, \<open>account.rs\<close>,
    \<open>pairing.rs\<close>, the errors of \<open>lib.rs\<close>), \<open>Records\<close> the store it keeps everything in
    (\<open>records.rs\<close>, as \<open>MemoryRecords\<close> has it), \<open>Service\<close> signing in, credentials, devices, hosts, offers
    and grants (\<open>tokens.rs\<close>, \<open>service.rs\<close>, \<open>pairing.rs\<close>, the routes of \<open>http.rs\<close>).  \<open>Serving\<close> is one
    step for whatever arrives, and the locale \<open>vault_invariant\<close>: what each method of the store keeps,
    every history keeps.  \<open>Lineage\<close>, \<open>Grants\<close> and \<open>Accounts\<close> interpret it and use it, \<open>Offers\<close> and
    \<open>Sign_In\<close> are about guesses, signals and where devices come from.

  \<^bold>\<open>State and operations.\<close>  A struct is a record whose fields keep their order, an enum is a
  datatype; records of one theory share a prefix.  A call on shared state is a function to its
  result and the state after it, atomic where the code holds a lock or a transaction; where it
  takes a lock more than once the parts are in sequence, and what others may do between them is an
  argument (\<open>hn_others\<close> of \<open>Driver\<close>, \<open>meanwhile\<close> of \<open>Firing\<close>).  A table is the list of its rows in
  the order they were inserted, an SQL statement is the update it makes, and a statement that a
  constraint of the migrations refuses is an \<open>Inl\<close>.  Fresh ids, clocks and what the operating
  system answers are arguments.  Text is the list of its UTF-8 bytes, and integers that only count
  up are natural numbers; the bytes of output are words of 8 bits.

  \<^bold>\<open>What the lemmas show.\<close>  Of the host: bytes kept of a sequence bring a fresh terminal to the
  state of the stream, queries are counted once however output is cut, numbered viewers lose
  nothing, a lost lease never types again, everything is delivered before the exit.  Of workflows:
  a checked workflow never gets stuck, steps wait for what they need, a workflow runs once at a time
  in a workspace, an effect follows a claim, a message is typed at most once over restarts.  Of
  smoke tests: only what is ready is queued, and nothing runs that nobody approved or was shown.  Of
  schedules: what is saved can run and has a time to come, no time fires twice whatever other
  processes do, a tick leaves nothing due, endings are told once.  Of the control service: a device
  comes from a sign-in and the secret behind it, its refresh credentials are one line, and one that is
  used twice signs it out for good; a grant is what the person at the host allowed; five wrong codes
  close an offer; a request stays in its account.  Interfaces are locales:
  \<open>session_table\<close> of \<open>Host\<close>, the calls of \<open>Calls\<close>, \<open>step_table\<close> of \<open>Runs_Store\<close> and others, each
  interpreted on the definitions of the code.

  \<^bold>\<open>Bounds and fuel.\<close>  The search for a circle in \<open>Checker\<close> has one more unit of fuel than there
  are steps; a path without a repetition is no longer, and \<open>circles_are_found\<close> shows that it
  suffices.  \<open>Driver\<close> makes at most \<open>3 * n + 1\<close> passes over a run of \<open>n\<close> steps: each pass but the
  last moves a step on, and a step moves at most three times.  Reading the scrollback is a partial
  function, shown to end with any page of at least one line.  Everything else is structural or has
  a measure.

  \<^bold>\<open>Parameters.\<close>  What is not in the repository is an argument: the \<open>vt100\<close> emulator (\<open>vt\<close>), reading
  YAML (\<open>reader\<close>), JSON (\<open>json\<close>, \<open>facts_json\<close>), \<open>chrono\<close> and \<open>croner\<close> (\<open>calendar\<close>), SHA-256 and
  the files of the machine (\<open>site\<close>), git and the forge (\<open>look\<close>, \<open>hands\<close>), hashes, web addresses
  and the identity provider (\<open>keeper\<close>), random values (\<open>draws\<close>; that 256 random bits do not come up
  twice is the condition \<open>fresh_history\<close> of the properties that need it).  What a proof relies on
  of them is a hypothesis of the property, and its witness has one that meets it.

  \<^bold>\<open>Not modelled.\<close>  The processes and threads themselves, the sockets between daemon and app, the
  relay of the server, its store in PostgreSQL, its rate limits in floating point and its identity
  provider, the rest of the remote protocol; requests of the server that interleave between two
  calls of its store (a request is one step here, where the code locks for each call); readers of the logs of other programs (\<open>activity\<close>, \<open>usage\<close>);
  calls of git, the forge and model programs; the rest of the tables in \<open>store.rs\<close>; the runner of
  smoke tests and the check of their files; the command line and the user interface.  They are glue
  around libraries and other programs, or are left for an extension, as the list of components
  says.
\<close>

end
